(* ===== verification/Jet_Prelude.thy ===== *)
theory Jet_Prelude
  imports Main "HOL-Library.Word" "HOL-Library.Char_ord" "HOL-Library.List_Lexorder"
    "HOL-Library.Multiset"
begin

text \<open>
  Shared vocabulary of the jetrun development: the machine integer types, results
  (\<open>Result<T, E>\<close> as the sum type \<open>'e + 'a\<close>, \<open>Inl\<close> for \<open>Err\<close>), the string and slice
  functions of the Rust standard library that the sources call, little-endian integers,
  UTF-8 validity, the ordered map behind \<open>BTreeMap\<close>, and the locale of event-driven
  machines whose invariants the stateful components instantiate.

  A Rust \<open>String\<close> is a sequence of UTF-8 bytes; it is a \<open>string\<close> here, one \<open>char\<close> per
  byte, so \<open>length\<close> is Rust's \<open>len\<close> and the order of \<open>string\<close> is Rust's byte order.
\<close>

unbundle bit_operations_syntax

type_synonym byte = "8 word"
type_synonym bytes = "8 word list"

named_theorems jet_simps \<open>rewrite rules shared by the components\<close>

section \<open>Results\<close>

definition rbind :: "'e + 'a \<Rightarrow> ('a \<Rightarrow> 'e + 'b) \<Rightarrow> 'e + 'b" where
  "rbind m f = (case m of Inl e \<Rightarrow> Inl e | Inr x \<Rightarrow> f x)"

lemma rbind_simps [simp]:
  "rbind (Inl e) f = Inl e"
  "rbind (Inr x) f = f x"
  by (simp_all add: rbind_def)

lemma rbind_cong [fundef_cong]:
  "m = m' \<Longrightarrow> (\<And>x. m' = Inr x \<Longrightarrow> f x = f' x) \<Longrightarrow> rbind m f = rbind m' f'"
  by (cases m') (simp_all add: rbind_def)

lemma rbind_eq_Inr [jet_simps]: "rbind m f = Inr y \<longleftrightarrow> (\<exists>x. m = Inr x \<and> f x = Inr y)"
  by (cases m) simp_all

lemma rbind_eq_Inl [jet_simps]:
  "rbind m f = Inl e \<longleftrightarrow> m = Inl e \<or> (\<exists>x. m = Inr x \<and> f x = Inl e)"
  by (cases m) auto

definition ok_or :: "'a option \<Rightarrow> 'e \<Rightarrow> 'e + 'a" where
  "ok_or m e = (case m of None \<Rightarrow> Inl e | Some x \<Rightarrow> Inr x)"

lemma ok_or_simps [simp]: "ok_or None e = Inl e" "ok_or (Some x) e = Inr x"
  by (simp_all add: ok_or_def)

lemma ok_or_eq_Inr [jet_simps]: "ok_or m e = Inr x \<longleftrightarrow> m = Some x"
  by (cases m) simp_all

definition is_ok :: "'e + 'a \<Rightarrow> bool" where
  "is_ok r = (case r of Inl _ \<Rightarrow> False | Inr _ \<Rightarrow> True)"

lemma is_ok_simps [simp]: "\<not> is_ok (Inl e)" "is_ok (Inr x)"
  by (simp_all add: is_ok_def)

lemma is_ok_iff: "is_ok r \<longleftrightarrow> (\<exists>x. r = Inr x)"
  by (cases r) simp_all

definition unwrap_or :: "'a option \<Rightarrow> 'a \<Rightarrow> 'a" where
  "unwrap_or m d = (case m of None \<Rightarrow> d | Some x \<Rightarrow> x)"

lemma unwrap_or_simps [simp]: "unwrap_or None d = d" "unwrap_or (Some x) d = x"
  by (simp_all add: unwrap_or_def)

definition or_else :: "'a option \<Rightarrow> 'a option \<Rightarrow> 'a option" where
  "or_else m n = (case m of None \<Rightarrow> n | Some x \<Rightarrow> Some x)"

lemma or_else_simps [simp]: "or_else None n = n" "or_else (Some x) n = Some x"
  by (simp_all add: or_else_def)

section \<open>Strings\<close>

fun strip_prefix :: "string \<Rightarrow> string \<Rightarrow> string option" where
  "strip_prefix [] s = Some s"
| "strip_prefix (p # ps) [] = None"
| "strip_prefix (p # ps) (c # cs) = (if p = c then strip_prefix ps cs else None)"

definition starts_with :: "string \<Rightarrow> string \<Rightarrow> bool" where
  "starts_with p s \<longleftrightarrow> strip_prefix p s \<noteq> None"

lemma strip_prefix_Some_iff [jet_simps]: "strip_prefix p s = Some r \<longleftrightarrow> s = p @ r"
  by (induction p s rule: strip_prefix.induct) auto

lemma strip_prefix_append [simp]: "strip_prefix p (p @ r) = Some r"
  by (simp add: strip_prefix_Some_iff)

lemma strip_prefix_None_iff: "strip_prefix p s = None \<longleftrightarrow> (\<forall>r. s \<noteq> p @ r)"
  using strip_prefix_Some_iff [of p s] by (cases "strip_prefix p s") auto

lemma starts_with_iff: "starts_with p s \<longleftrightarrow> (\<exists>r. s = p @ r)"
  by (auto simp: starts_with_def strip_prefix_None_iff)

text \<open>\<open>str::split_once\<close> at the first occurrence of a separator character.\<close>

fun split_once :: "char \<Rightarrow> string \<Rightarrow> (string \<times> string) option" where
  "split_once sep [] = None"
| "split_once sep (c # cs) =
     (if c = sep then Some ([], cs)
      else map_option (\<lambda>(a, b). (c # a, b)) (split_once sep cs))"

lemma split_once_Some_iff:
  "split_once sep s = Some (a, b) \<longleftrightarrow> s = a @ sep # b \<and> sep \<notin> set a"
proof (induction s arbitrary: a)
  case Nil
  then show ?case by simp
next
  case (Cons c s)
  then show ?case by (cases a) auto
qed

lemma split_once_None_iff: "split_once sep s = None \<longleftrightarrow> sep \<notin> set s"
  by (induction s) auto

lemma split_once_append:
  "sep \<notin> set a \<Longrightarrow> split_once sep (a @ sep # b) = Some (a, b)"
  by (simp add: split_once_Some_iff)

text \<open>\<open>to_ascii_lowercase\<close>; SQLite's \<open>lower\<close> folds the same letters.\<close>

definition ascii_lower :: "char \<Rightarrow> char" where
  "ascii_lower c = (if 65 \<le> (of_char c :: nat) \<and> (of_char c :: nat) \<le> 90 then char_of (of_char c + 32 :: nat) else c)"

definition to_ascii_lowercase :: "string \<Rightarrow> string" where
  "to_ascii_lowercase = map ascii_lower"

text \<open>\<open>str::split\<close> at every occurrence of a separator character.\<close>

fun split_char :: "char \<Rightarrow> string \<Rightarrow> string list" where
  "split_char sep [] = [[]]"
| "split_char sep (c # cs) =
     (if c = sep then [] # split_char sep cs
      else case split_char sep cs of [] \<Rightarrow> [[c]] | p # ps \<Rightarrow> (c # p) # ps)"

lemma split_char_single: "sep \<notin> set s \<Longrightarrow> split_char sep s = [s]"
  by (induction s) auto

definition bytes_of :: "string \<Rightarrow> bytes" where
  "bytes_of s = map of_char s"

definition string_of :: "bytes \<Rightarrow> string" where
  "string_of bs = map (\<lambda>b. char_of (unat b)) bs"

lemma length_bytes_of [simp]: "length (bytes_of s) = length s"
  by (simp add: bytes_of_def)

lemma length_string_of [simp]: "length (string_of s) = length s"
  by (simp add: string_of_def)

lemma unat_byte_less: "unat (b :: byte) < 256"
  using unsigned_less [of b] by simp

lemma unat_uN_less:
  "unat (a :: 16 word) < 2 ^ 16" "unat (b :: 32 word) < 2 ^ 32" "unat (c :: 64 word) < 2 ^ 64"
  using unsigned_less [of a] unsigned_less [of b] unsigned_less [of c] by simp_all

lemma unat_of_char: "unat (of_char c :: byte) = of_char c"
proof -
  have "(of_char c :: byte) = of_nat (of_char c)"
    by (rule of_nat_of_char [symmetric])
  moreover have "of_char c < (256 :: nat)"
    by simp
  ultimately show ?thesis
    by (simp only: unat_of_nat) (simp add: take_bit_eq_mod)
qed

lemma string_of_bytes_of [simp]: "string_of (bytes_of s) = s"
  by (simp add: string_of_def bytes_of_def unat_of_char comp_def)

lemma bytes_of_string_of [simp]: "bytes_of (string_of bs) = bs"
proof -
  have "(of_char (char_of (unat b) :: char) :: byte) = b" for b :: byte
  proof -
    have "of_char (char_of (unat b) :: char) = (unat b mod 256 :: nat)"
      by (simp add: of_char_of)
    then have "of_char (char_of (unat b) :: char) = unat b"
      using unat_byte_less [of b] by simp
    then have "(of_nat (of_char (char_of (unat b) :: char)) :: byte) = b"
      by simp
    then show ?thesis by (simp only: of_nat_of_char)
  qed
  then show ?thesis
    by (simp add: string_of_def bytes_of_def comp_def)
qed

lemma bytes_of_inject [simp]: "bytes_of s = bytes_of t \<longleftrightarrow> s = t"
  by (metis string_of_bytes_of)

section \<open>Little-endian integers\<close>

fun le_bytes :: "nat \<Rightarrow> nat \<Rightarrow> bytes" where
  "le_bytes 0 x = []"
| "le_bytes (Suc n) x = of_nat (x mod 256) # le_bytes n (x div 256)"

fun le_nat :: "bytes \<Rightarrow> nat" where
  "le_nat [] = 0"
| "le_nat (b # bs) = unat b + 256 * le_nat bs"

lemma length_le_bytes [simp]: "length (le_bytes n x) = n"
  by (induction n arbitrary: x) simp_all

lemma unat_of_nat_byte: "unat (of_nat (x mod 256) :: byte) = x mod 256"
  by (simp add: unat_of_nat take_bit_eq_mod)

lemma le_nat_le_bytes: "le_nat (le_bytes n x) = x mod 256 ^ n"
proof (induction n arbitrary: x)
  case 0
  then show ?case by simp
next
  case (Suc n)
  have "le_nat (le_bytes (Suc n) x) = x mod 256 + 256 * (x div 256 mod 256 ^ n)"
    by (simp only: le_bytes.simps le_nat.simps unat_of_nat_byte Suc.IH)
  also have "\<dots> = x mod 256 ^ Suc n"
    by (simp add: mod_mult2_eq)
  finally show ?case .
qed

lemma le_nat_bound: "le_nat bs < 256 ^ length bs"
proof (induction bs)
  case Nil
  then show ?case by simp
next
  case (Cons b bs)
  with unat_byte_less [of b] show ?case by simp
qed

lemma le_bytes_le_nat: "le_bytes (length bs) (le_nat bs) = bs"
proof (induction bs)
  case Nil
  then show ?case by simp
next
  case (Cons b bs)
  with unat_byte_less [of b] show ?case by simp
qed

lemma le_nat_le_bytes_small: "x < 256 ^ n \<Longrightarrow> le_nat (le_bytes n x) = x"
  by (simp add: le_nat_le_bytes)

text \<open>\<open>to_le_bytes\<close> and \<open>from_le_bytes\<close> of \<open>u16\<close>, \<open>u32\<close> and \<open>u64\<close>.\<close>

definition u16_le :: "16 word \<Rightarrow> bytes" where "u16_le w = le_bytes 2 (unat w)"
definition u32_le :: "32 word \<Rightarrow> bytes" where "u32_le w = le_bytes 4 (unat w)"
definition u64_le :: "64 word \<Rightarrow> bytes" where "u64_le w = le_bytes 8 (unat w)"
definition le_u16 :: "bytes \<Rightarrow> 16 word" where "le_u16 bs = of_nat (le_nat bs)"
definition le_u32 :: "bytes \<Rightarrow> 32 word" where "le_u32 bs = of_nat (le_nat bs)"
definition le_u64 :: "bytes \<Rightarrow> 64 word" where "le_u64 bs = of_nat (le_nat bs)"

lemma length_uN_le [simp]:
  "length (u16_le a) = 2" "length (u32_le b) = 4" "length (u64_le c) = 8"
  by (simp_all add: u16_le_def u32_le_def u64_le_def)

lemma le_uN_uN_le [simp]:
  "le_u16 (u16_le a) = a" "le_u32 (u32_le b) = b" "le_u64 (u64_le c) = c"
proof -
  have "unat a < 256 ^ 2" "unat b < 256 ^ 4" "unat c < 256 ^ 8"
    using unat_uN_less(1) [of a] unat_uN_less(2) [of b] unat_uN_less(3) [of c] by simp_all
  then show "le_u16 (u16_le a) = a" "le_u32 (u32_le b) = b" "le_u64 (u64_le c) = c"
    by (simp_all add: le_u16_def u16_le_def le_u32_def u32_le_def le_u64_def u64_le_def
        le_nat_le_bytes_small del: le_bytes.simps le_nat.simps)
qed

lemma uN_le_le_uN:
  "length bs = 2 \<Longrightarrow> u16_le (le_u16 bs) = bs"
  "length bs = 4 \<Longrightarrow> u32_le (le_u32 bs) = bs"
proof -
  assume "length bs = 2"
  then have "le_nat bs < 2 ^ 16" and "le_bytes 2 (le_nat bs) = bs"
    using le_nat_bound [of bs] le_bytes_le_nat [of bs] by simp_all
  then show "u16_le (le_u16 bs) = bs"
    by (simp add: u16_le_def le_u16_def unat_of_nat take_bit_eq_mod)
next
  assume "length bs = 4"
  then have "le_nat bs < 2 ^ 32" and "le_bytes 4 (le_nat bs) = bs"
    using le_nat_bound [of bs] le_bytes_le_nat [of bs] by simp_all
  then show "u32_le (le_u32 bs) = bs"
    by (simp add: u32_le_def le_u32_def unat_of_nat take_bit_eq_mod)
qed

section \<open>UTF-8\<close>

definition utf8_cont :: "byte \<Rightarrow> bool" where
  "utf8_cont b \<longleftrightarrow> 0x80 \<le> b \<and> b \<le> 0xBF"

text \<open>The well-formed byte sequences of the Unicode standard, as \<open>str::from_utf8\<close> accepts them.\<close>

fun utf8_valid :: "bytes \<Rightarrow> bool" where
  "utf8_valid [] = True"
| "utf8_valid (a # r0) =
     (if a \<le> 0x7F then utf8_valid r0
      else case r0 of
        [] \<Rightarrow> False
      | b # r1 \<Rightarrow>
        if 0xC2 \<le> a \<and> a \<le> 0xDF then utf8_cont b \<and> utf8_valid r1
        else case r1 of
          [] \<Rightarrow> False
        | c # r2 \<Rightarrow>
          if 0xE0 \<le> a \<and> a \<le> 0xEF
          then utf8_cont b \<and> (a = 0xE0 \<longrightarrow> 0xA0 \<le> b) \<and> (a = 0xED \<longrightarrow> b \<le> 0x9F)
               \<and> utf8_cont c \<and> utf8_valid r2
          else case r2 of
            [] \<Rightarrow> False
          | d # r3 \<Rightarrow>
            0xF0 \<le> a \<and> a \<le> 0xF4 \<and> utf8_cont b \<and> (a = 0xF0 \<longrightarrow> 0x90 \<le> b)
            \<and> (a = 0xF4 \<longrightarrow> b \<le> 0x8F) \<and> utf8_cont c \<and> utf8_cont d \<and> utf8_valid r3)"

definition from_utf8 :: "bytes \<Rightarrow> string option" where
  "from_utf8 bs = (if utf8_valid bs then Some (string_of bs) else None)"

lemma from_utf8_bytes_of: "utf8_valid (bytes_of s) \<Longrightarrow> from_utf8 (bytes_of s) = Some s"
  by (simp add: from_utf8_def)

lemma from_utf8_Some_iff: "from_utf8 bs = Some s \<longleftrightarrow> bs = bytes_of s \<and> utf8_valid (bytes_of s)"
  by (auto simp: from_utf8_def split: if_splits)

section \<open>Ordered maps\<close>

text \<open>\<open>BTreeMap\<close>: an association list with strictly increasing keys. \<open>bt_insert\<close> is its
  \<open>insert\<close>; the value it returns is the old binding, \<open>map_of\<close> before the insertion.\<close>

fun bt_insert :: "'k::linorder \<Rightarrow> 'v \<Rightarrow> ('k \<times> 'v) list \<Rightarrow> ('k \<times> 'v) list" where
  "bt_insert k v [] = [(k, v)]"
| "bt_insert k v ((a, b) # m) =
     (if k < a then (k, v) # (a, b) # m
      else if k = a then (k, v) # m
      else (a, b) # bt_insert k v m)"

abbreviation bt_sorted :: "('k::linorder \<times> 'v) list \<Rightarrow> bool" where
  "bt_sorted m \<equiv> sorted_wrt (<) (map fst m)"

lemma map_of_bt_insert [simp]: "map_of (bt_insert k v m) = (map_of m)(k \<mapsto> v)"
  by (induction k v m rule: bt_insert.induct) (auto simp: fun_eq_iff)

lemma set_bt_insert_keys: "fst ` set (bt_insert k v m) = insert k (fst ` set m)"
  by (induction k v m rule: bt_insert.induct) auto

lemma bt_sorted_insert: "bt_sorted m \<Longrightarrow> bt_sorted (bt_insert k v m)"
proof (induction m)
  case Nil
  then show ?case by simp
next
  case (Cons p m)
  obtain a b where p: "p = (a, b)" by (cases p)
  have tail: "\<forall>x \<in> fst ` set m. a < x" and m: "bt_sorted m"
    using Cons.prems p by auto
  have "\<forall>x \<in> fst ` set (bt_insert k v m). a < x" if "\<not> k < a" "k \<noteq> a"
    using that tail unfolding set_bt_insert_keys by auto
  with Cons.IH [OF m] Cons.prems tail show ?case
    by (auto simp: p)
qed

lemma set_bt_insert: "bt_sorted m \<Longrightarrow>
  set (bt_insert k v m) = insert (k, v) {(a, b) \<in> set m. a \<noteq> k}"
  by (induction k v m rule: bt_insert.induct) auto

lemma bt_sorted_distinct: "bt_sorted m \<Longrightarrow> distinct (map fst m)"
  by (induction m) auto

lemma bt_sorted_set_inject:
  "bt_sorted m \<Longrightarrow> bt_sorted n \<Longrightarrow> set m = set n \<Longrightarrow> m = n"
proof (induction m arbitrary: n)
  case Nil
  then show ?case by simp
next
  case (Cons p m)
  then obtain q n' where n: "n = q # n'" by (cases n) auto
  have p_least: "\<forall>x \<in> set m. fst p < fst x" and q_least: "\<forall>x \<in> set n'. fst q < fst x"
    using Cons.prems n by auto
  have "p = q"
    using Cons.prems(3) n p_least q_least by (metis list.set_intros(1) not_less_iff_gr_or_eq set_ConsD)
  moreover have "p \<notin> set m" "q \<notin> set n'"
    using p_least q_least by auto
  ultimately have "set m = set n'"
    using Cons.prems(3) n by (simp add: insert_ident)
  with Cons n \<open>p = q\<close> show ?case by simp
qed

lemma bt_sorted_map_of_inject:
  assumes "bt_sorted m" "bt_sorted n" "map_of m = map_of n"
  shows "m = n"
proof (rule bt_sorted_set_inject [OF assms(1,2)])
  have "(k, v) \<in> set m \<longleftrightarrow> (k, v) \<in> set n" for k v
  proof -
    have "(k, v) \<in> set m \<longleftrightarrow> map_of m k = Some v"
      using bt_sorted_distinct [OF assms(1)] by simp
    also have "\<dots> \<longleftrightarrow> (k, v) \<in> set n"
      using bt_sorted_distinct [OF assms(2)] assms(3) by simp
    finally show ?thesis .
  qed
  then show "set m = set n" by auto
qed

lemma bt_insert_snoc:
  "\<forall>x \<in> fst ` set m. x < k \<Longrightarrow> bt_insert k v m = m @ [(k, v)]"
  by (induction k v m rule: bt_insert.induct) auto

section \<open>Effects\<close>

text \<open>A fallible operation on a state of type \<open>'s\<close>. Effects up to the failing call are kept, as they are
  in the code.\<close>

type_synonym ('s, 'e, 'a) act = "'s \<Rightarrow> ('e + 'a) \<times> 's"

definition aret :: "'a \<Rightarrow> ('s, 'e, 'a) act" where
  "aret x = (\<lambda>s. (Inr x, s))"

definition athrow :: "'e \<Rightarrow> ('s, 'e, 'a) act" where
  "athrow e = (\<lambda>s. (Inl e, s))"

text \<open>A \<open>match\<close> on the result of an operation.\<close>

definition atry :: "('s, 'e, 'a) act \<Rightarrow> ('e + 'a \<Rightarrow> ('s, 'f, 'b) act) \<Rightarrow> ('s, 'f, 'b) act" where
  "atry m h = (\<lambda>s. case m s of (r, s') \<Rightarrow> h r s')"

text \<open>The \<open>?\<close> operator.\<close>

definition abind :: "('s, 'e, 'a) act \<Rightarrow> ('a \<Rightarrow> ('s, 'e, 'b) act) \<Rightarrow> ('s, 'e, 'b) act" where
  "abind m f = (\<lambda>s. case m s of (Inl e, s') \<Rightarrow> (Inl e, s') | (Inr x, s') \<Rightarrow> f x s')"

definition alift :: "'e + 'a \<Rightarrow> ('s, 'e, 'a) act" where
  "alift r = (\<lambda>s. (r, s))"

definition amap_err :: "('e \<Rightarrow> 'f) \<Rightarrow> ('s, 'e, 'a) act \<Rightarrow> ('s, 'f, 'a) act" where
  "amap_err f m = (\<lambda>s. case m s of (Inl e, s') \<Rightarrow> (Inl (f e), s') | (Inr x, s') \<Rightarrow> (Inr x, s'))"

definition agets :: "('s \<Rightarrow> 'a) \<Rightarrow> ('s, 'e, 'a) act" where
  "agets f = (\<lambda>s. (Inr (f s), s))"

definition amodify :: "('s \<Rightarrow> 's) \<Rightarrow> ('s, 'e, unit) act" where
  "amodify f = (\<lambda>s. (Inr (), f s))"

lemmas act_defs = aret_def athrow_def alift_def agets_def amodify_def

lemma act_simps [simp]:
  "aret x s = (Inr x, s)" "athrow e s = (Inl e, s)" "alift r s = (r, s)"
  "agets f s = (Inr (f s), s)" "amodify g s = (Inr (), g s)"
  by (simp_all add: act_defs)

lemma abind_Inr: "m s = (Inr x, s') \<Longrightarrow> abind m f s = f x s'"
  by (simp add: abind_def)

lemma abind_Inl: "m s = (Inl e, s') \<Longrightarrow> abind m f s = (Inl e, s')"
  by (simp add: abind_def)

lemma abind_simps [simp]:
  "abind (aret x) f s = f x s" "abind (athrow e) f s = (Inl e, s)" "abind (agets g) f s = f (g s) s"
  "abind (amodify h) k s = k () (h s)"
  by (simp_all add: abind_def)

lemma abindE:
  assumes "abind m f s = (r, t)"
  obtains (err) e where "m s = (Inl e, t)" "r = Inl e"
    | (ok) x s' where "m s = (Inr x, s')" "f x s' = (r, t)"
  using assms by (auto simp: abind_def split: prod.splits sum.splits)

lemma amap_errE:
  assumes "amap_err f m s = (r, t)"
  obtains (err) e where "m s = (Inl e, t)" "r = Inl (f e)" | (ok) x where "m s = (Inr x, t)" "r = Inr x"
  using assms by (auto simp: amap_err_def split: prod.splits sum.splits)

text \<open>\<open>to_string\<close> of an unsigned integer.\<close>

fun dec :: "nat \<Rightarrow> string" where
  "dec n = (if n < 10 then [char_of (48 + n)] else dec (n div 10) @ [char_of (48 + n mod 10)])"

declare dec.simps [simp del]

section \<open>Machines driven by events\<close>

text \<open>A component with a step function and an invariant every step keeps.\<close>

locale machine =
  fixes step :: "'s \<Rightarrow> 'e \<Rightarrow> 's" and inv :: "'s \<Rightarrow> bool"
  assumes step_inv: "inv s \<Longrightarrow> inv (step s e)"
begin

lemma run_inv: "inv s \<Longrightarrow> inv (foldl step s es)"
  by (induction es arbitrary: s) (simp_all add: step_inv)

end

end
