(* ===== verification/Jet_Fs.thy ===== *)
theory Jet_Fs
  imports Jet_Prelude "HOL-Library.AList"
begin

text \<open>
  The part of \<open>std::fs\<close> that the object store is written against: names, inodes and the
  system calls, one definition per call. A name (\<open>path\<close>) is the list of its components; a
  regular file is a number, so that two names of one inode are visible as such.

  Every call consumes one tick of the world. \<open>fault\<close> decides per tick whether the call fails,
  with which error, and how many bytes a failing write still wrote: a theorem about every
  \<open>fault\<close> is a theorem about every failure at every point, and about every file system
  (one without \<open>FICLONE\<close> is one on which that call always fails).

  Paths are resolved component by component through real directories. A symbolic link is a
  leaf: calls that would follow one as the last component fail with \<open>ELOOP\<close>, calls that act on
  the link itself (\<open>unlink\<close>, \<open>lstat\<close>, \<open>readlink\<close>, \<open>rename\<close>, \<open>mkdir\<close>, exclusive creation) are
  exact. The store creates no link in its own directories and refuses a destination that
  exists, so it never follows one.
\<close>

section \<open>Programs\<close>

type_synonym path = "string list"

datatype errno =
    ENOENT | EEXIST | ENOTDIR | EISDIR | EOPNOTSUPP | ENOTTY | EXDEV | EINVAL | ENOSYS
  | EMLINK | EPERM | EACCES | EIO | ENOSPC | ELOOP | EOTHER nat

datatype dirent = DFile nat | DDir | DLink string | DSpecial

record inode =
  ino_data :: bytes
  ino_mode :: "32 word"
  ino_mtime :: nat

record world =
  ents :: "(path \<times> dirent) list"
  inos :: "nat \<Rightarrow> inode"
  next_ino :: nat
  tick :: nat
  fault :: "nat \<Rightarrow> (errno \<times> nat) option"
  now :: nat
  create_mode :: "32 word"
  reflink_cap :: "8 word"

text \<open>A program may fail with an error of type \<open>'e\<close>; the world it leaves behind is kept either way.\<close>

type_synonym ('e, 'a) prog = "world \<Rightarrow> ('e + 'a) \<times> world"

definition ret :: "'a \<Rightarrow> ('e, 'a) prog" where
  "ret x = (\<lambda>w. (Inr x, w))"

definition throw :: "'e \<Rightarrow> ('e, 'a) prog" where
  "throw e = (\<lambda>w. (Inl e, w))"

definition try_with :: "('e, 'a) prog \<Rightarrow> ('e + 'a \<Rightarrow> ('f, 'b) prog) \<Rightarrow> ('f, 'b) prog" where
  "try_with m h = (\<lambda>w. case m w of (r, w') \<Rightarrow> h r w')"

definition bnd :: "('e, 'a) prog \<Rightarrow> ('a \<Rightarrow> ('e, 'b) prog) \<Rightarrow> ('e, 'b) prog" where
  "bnd m f = try_with m (\<lambda>r. case r of Inl e \<Rightarrow> throw e | Inr x \<Rightarrow> f x)"

definition map_err :: "('e \<Rightarrow> 'f) \<Rightarrow> ('e, 'a) prog \<Rightarrow> ('f, 'a) prog" where
  "map_err f m = try_with m (\<lambda>r. case r of Inl e \<Rightarrow> throw (f e) | Inr x \<Rightarrow> ret x)"

text \<open>\<open>let _ = e;\<close>\<close>

definition ignore :: "('e, 'a) prog \<Rightarrow> ('f, unit) prog" where
  "ignore m = try_with m (\<lambda>_. ret ())"

definition get_world :: "('e, world) prog" where
  "get_world = (\<lambda>w. (Inr w, w))"

definition lift_res :: "'e + 'a \<Rightarrow> ('e, 'a) prog" where
  "lift_res r = (\<lambda>w. (r, w))"

primrec fold_prog :: "('a \<Rightarrow> 's \<Rightarrow> ('e, 's) prog) \<Rightarrow> 'a list \<Rightarrow> 's \<Rightarrow> ('e, 's) prog" where
  "fold_prog f [] s = ret s"
| "fold_prog f (x # xs) s = bnd (f x s) (fold_prog f xs)"

section \<open>System calls\<close>

text \<open>\<open>Path::join\<close> and the resolution of the result: an absolute second part replaces the first,
  empty components and \<open>.\<close> are dropped, \<open>..\<close> goes up.\<close>

definition join :: "path \<Rightarrow> string \<Rightarrow> path" where
  "join p s = foldl (\<lambda>q c. if c = ''..'' then butlast q else q @ [c])
     (if starts_with ''/'' s then [] else p)
     (filter (\<lambda>c. c \<noteq> [] \<and> c \<noteq> ''.'') (split_char CHR ''/'' s))"

definition ent :: "world \<Rightarrow> path \<Rightarrow> dirent option" where
  "ent w p = (if p = [] then Some DDir else map_of (ents w) p)"

definition set_ent :: "path \<Rightarrow> dirent \<Rightarrow> world \<Rightarrow> world" where
  "set_ent p d w = w\<lparr>ents := AList.update p d (ents w)\<rparr>"

definition del_ent :: "path \<Rightarrow> world \<Rightarrow> world" where
  "del_ent p w = w\<lparr>ents := AList.delete p (ents w)\<rparr>"

definition set_ino :: "nat \<Rightarrow> inode \<Rightarrow> world \<Rightarrow> world" where
  "set_ino i x w = w\<lparr>inos := (inos w)(i := x)\<rparr>"

definition syscall :: "(nat \<Rightarrow> errno \<Rightarrow> (errno, 'a) prog) \<Rightarrow> (errno, 'a) prog \<Rightarrow> (errno, 'a) prog" where
  "syscall on_fault op w =
     (let w' = w\<lparr>tick := Suc (tick w)\<rparr> in
      case fault w (tick w) of Some (e, k) \<Rightarrow> on_fault k e w' | None \<Rightarrow> op w')"

abbreviation sys :: "(errno, 'a) prog \<Rightarrow> (errno, 'a) prog" where
  "sys \<equiv> syscall (\<lambda>_. throw)"

text \<open>The error for a name whose directory is missing, if it is.\<close>

definition parent_err :: "world \<Rightarrow> path \<Rightarrow> errno option" where
  "parent_err w p =
     (if p = [] then Some EEXIST
      else case ent w (butlast p) of
        Some DDir \<Rightarrow> None | None \<Rightarrow> Some ENOENT | Some _ \<Rightarrow> Some ENOTDIR)"

definition file_at :: "world \<Rightarrow> path \<Rightarrow> errno + nat" where
  "file_at w p =
     (case ent w p of
        Some (DFile i) \<Rightarrow> Inr i
      | Some DDir \<Rightarrow> Inl EISDIR
      | Some (DLink _) \<Rightarrow> Inl ELOOP
      | Some DSpecial \<Rightarrow> Inl EINVAL
      | None \<Rightarrow> Inl ENOENT)"

definition remove_file :: "path \<Rightarrow> (errno, unit) prog" where
  "remove_file p = sys (\<lambda>w.
     case ent w p of
       None \<Rightarrow> (Inl ENOENT, w)
     | Some DDir \<Rightarrow> (Inl EISDIR, w)
     | Some _ \<Rightarrow> (Inr (), del_ent p w))"

definition fs_open :: "path \<Rightarrow> (errno, nat) prog" where
  "fs_open p = sys (\<lambda>w. (file_at w p, w))"

definition new_file :: "path \<Rightarrow> inode \<Rightarrow> world \<Rightarrow> world" where
  "new_file p x w = (set_ent p (DFile (next_ino w)) (set_ino (next_ino w) x w))\<lparr>next_ino := Suc (next_ino w)\<rparr>"

definition empty_file :: "world \<Rightarrow> inode" where
  "empty_file w = \<lparr>ino_data = [], ino_mode = create_mode w, ino_mtime = now w\<rparr>"

definition create_new :: "path \<Rightarrow> (errno, nat) prog" where
  "create_new p = sys (\<lambda>w.
     case parent_err w p of
       Some e \<Rightarrow> (Inl e, w)
     | None \<Rightarrow>
       if ent w p \<noteq> None then (Inl EEXIST, w)
       else (Inr (next_ino w), new_file p (empty_file w) w))"

text \<open>\<open>write(true).create(true).truncate(true)\<close>\<close>

definition open_truncate :: "path \<Rightarrow> (errno, nat) prog" where
  "open_truncate p = sys (\<lambda>w.
     case parent_err w p of
       Some e \<Rightarrow> (Inl e, w)
     | None \<Rightarrow>
       (case ent w p of
          None \<Rightarrow> (Inr (next_ino w), new_file p (empty_file w) w)
        | Some _ \<Rightarrow>
          (case file_at w p of
             Inl e \<Rightarrow> (Inl e, w)
           | Inr i \<Rightarrow> (Inr i, set_ino i ((inos w i)\<lparr>ino_data := [], ino_mtime := now w\<rparr>) w))))"

definition append_data :: "nat \<Rightarrow> bytes \<Rightarrow> world \<Rightarrow> world" where
  "append_data i bs w =
     set_ino i ((inos w i)\<lparr>ino_data := ino_data (inos w i) @ bs, ino_mtime := now w\<rparr>) w"

text \<open>\<open>write_all\<close>; a failing write may have written a prefix.\<close>

definition write_all :: "nat \<Rightarrow> bytes \<Rightarrow> (errno, unit) prog" where
  "write_all i bs = syscall (\<lambda>k e w. (Inl e, append_data i (take k bs) w))
     (\<lambda>w. (Inr (), append_data i bs w))"

definition sync_all :: "nat \<Rightarrow> (errno, unit) prog" where
  "sync_all i = sys (ret ())"

definition ioctl_ficlone :: "nat \<Rightarrow> nat \<Rightarrow> (errno, unit) prog" where
  "ioctl_ficlone dst src = sys (\<lambda>w.
     (Inr (), set_ino dst ((inos w dst)\<lparr>ino_data := ino_data (inos w src), ino_mtime := now w\<rparr>) w))"

definition hard_link :: "path \<Rightarrow> path \<Rightarrow> (errno, unit) prog" where
  "hard_link src dst = sys (\<lambda>w.
     case ent w src of
       None \<Rightarrow> (Inl ENOENT, w)
     | Some DDir \<Rightarrow> (Inl EPERM, w)
     | Some d \<Rightarrow>
       (case parent_err w dst of
          Some e \<Rightarrow> (Inl e, w)
        | None \<Rightarrow> if ent w dst \<noteq> None then (Inl EEXIST, w) else (Inr (), set_ent dst d w)))"

definition fs_read :: "path \<Rightarrow> (errno, bytes) prog" where
  "fs_read p = sys (\<lambda>w. (map_sum (\<lambda>e. e) (\<lambda>i. ino_data (inos w i)) (file_at w p), w))"

text \<open>One \<open>read\<close> at an offset into a buffer of \<open>n\<close> bytes.\<close>

definition read_at :: "nat \<Rightarrow> nat \<Rightarrow> nat \<Rightarrow> (errno, bytes) prog" where
  "read_at i off n = sys (\<lambda>w. (Inr (take n (drop off (ino_data (inos w i)))), w))"

text \<open>\<open>std::fs::copy\<close>: the destination is created or truncated, the bytes are copied, the
  permission bits too.\<close>

definition fs_copy :: "path \<Rightarrow> path \<Rightarrow> (errno, unit) prog" where
  "fs_copy src dst =
     bnd (fs_open src) (\<lambda>i.
     bnd (open_truncate dst) (\<lambda>j.
     bnd (sys (\<lambda>w. (Inr (), set_ino j ((inos w j)\<lparr>ino_mode := ino_mode (inos w i)\<rparr>) w))) (\<lambda>_.
     bnd get_world (\<lambda>w. write_all j (ino_data (inos w i))))))"

definition lstat :: "path \<Rightarrow> (errno, dirent) prog" where
  "lstat p = sys (\<lambda>w. (case ent w p of None \<Rightarrow> Inl ENOENT | Some d \<Rightarrow> Inr d, w))"

definition fs_metadata :: "path \<Rightarrow> (errno, inode) prog" where
  "fs_metadata p = sys (\<lambda>w. (map_sum (\<lambda>e. e) (inos w) (file_at w p), w))"

text \<open>\<open>Path::exists\<close> follows a final link; every error reads as absent.\<close>

definition exists_path :: "path \<Rightarrow> ('e, bool) prog" where
  "exists_path p = try_with
     (sys (\<lambda>w. (case ent w p of None \<Rightarrow> Inl ENOENT | Some (DLink _) \<Rightarrow> Inl ELOOP | Some d \<Rightarrow> Inr d, w)))
     (\<lambda>r. ret (is_ok r))"

definition set_permissions :: "path \<Rightarrow> 32 word \<Rightarrow> (errno, unit) prog" where
  "set_permissions p m = sys (\<lambda>w.
     case file_at w p of
       Inl e \<Rightarrow> (Inl e, w)
     | Inr i \<Rightarrow> (Inr (), set_ino i ((inos w i)\<lparr>ino_mode := m\<rparr>) w))"

definition create_dir :: "path \<Rightarrow> (errno, unit) prog" where
  "create_dir p = sys (\<lambda>w.
     case parent_err w p of
       Some e \<Rightarrow> (Inl e, w)
     | None \<Rightarrow> if ent w p \<noteq> None then (Inl EEXIST, w) else (Inr (), set_ent p DDir w))"

definition is_dir :: "path \<Rightarrow> ('e, bool) prog" where
  "is_dir p = (\<lambda>w. (Inr (ent w p = Some DDir), w))"

text \<open>\<open>create_dir_all\<close> as the standard library has it: try, else the parent, then try again. The
  first argument bounds the number of parents; the length of the path is enough.\<close>

definition mkdir_or_exists :: "path \<Rightarrow> (errno, unit) prog" where
  "mkdir_or_exists p = try_with (create_dir p) (\<lambda>r. case r of
       Inr _ \<Rightarrow> ret ()
     | Inl e \<Rightarrow> bnd (is_dir p) (\<lambda>d. if d then ret () else throw e))"

primrec create_dirs :: "nat \<Rightarrow> path \<Rightarrow> (errno, unit) prog" where
  "create_dirs 0 p = mkdir_or_exists p"
| "create_dirs (Suc n) p = try_with (create_dir p) (\<lambda>r. case r of
       Inr _ \<Rightarrow> ret ()
     | Inl ENOENT \<Rightarrow> if p = [] then throw ENOENT
                    else bnd (create_dirs n (butlast p)) (\<lambda>_. mkdir_or_exists p)
     | Inl e \<Rightarrow> bnd (is_dir p) (\<lambda>d. if d then ret () else throw e))"

definition create_dir_all :: "path \<Rightarrow> (errno, unit) prog" where
  "create_dir_all p = create_dirs (length p) p"

text \<open>\<open>rename\<close> of a file onto a name; an existing file there is replaced.\<close>

definition rename :: "path \<Rightarrow> path \<Rightarrow> (errno, unit) prog" where
  "rename a b = sys (\<lambda>w.
     case ent w a of
       None \<Rightarrow> (Inl ENOENT, w)
     | Some d \<Rightarrow>
       (case parent_err w b of
          Some e \<Rightarrow> (Inl e, w)
        | None \<Rightarrow>
          if ent w b = Some DDir \<or> d = DDir then (Inl EISDIR, w)
          else (Inr (), set_ent b d (del_ent a w))))"

definition symlink :: "string \<Rightarrow> path \<Rightarrow> (errno, unit) prog" where
  "symlink target p = sys (\<lambda>w.
     case parent_err w p of
       Some e \<Rightarrow> (Inl e, w)
     | None \<Rightarrow> if ent w p \<noteq> None then (Inl EEXIST, w) else (Inr (), set_ent p (DLink target) w))"

definition read_link :: "path \<Rightarrow> (errno, string) prog" where
  "read_link p = sys (\<lambda>w.
     (case ent w p of
        Some (DLink t) \<Rightarrow> Inr t | None \<Rightarrow> Inl ENOENT | Some _ \<Rightarrow> Inl EINVAL, w))"

text \<open>The names in a directory, in the order the file system keeps them.\<close>

definition children :: "world \<Rightarrow> path \<Rightarrow> string list" where
  "children w p = map last (filter (\<lambda>q. q \<noteq> [] \<and> butlast q = p) (map fst (ents w)))"

definition read_dir :: "path \<Rightarrow> (errno, string list) prog" where
  "read_dir p = sys (\<lambda>w.
     (case ent w p of
        Some DDir \<Rightarrow> Inr (children w p)
      | None \<Rightarrow> Inl ENOENT
      | Some _ \<Rightarrow> Inl ENOTDIR, w))"

text \<open>The next item of the directory iterator may be an error too.\<close>

definition next_entry :: "string \<Rightarrow> (errno, string) prog" where
  "next_entry n = sys (ret n)"

section \<open>Weakest preconditions\<close>

named_theorems wp_simps \<open>weakest preconditions of the program combinators\<close>

definition wp :: "('e, 'a) prog \<Rightarrow> ('e + 'a \<Rightarrow> world \<Rightarrow> bool) \<Rightarrow> world \<Rightarrow> bool" where
  "wp m Q w \<longleftrightarrow> (case m w of (r, w') \<Rightarrow> Q r w')"

lemma wp_mono: "wp m Q w \<Longrightarrow> (\<And>r w'. Q r w' \<Longrightarrow> R r w') \<Longrightarrow> wp m R w"
  by (auto simp: wp_def split: prod.splits)

lemma wpD: "wp m Q w \<Longrightarrow> m w = (r, w') \<Longrightarrow> Q r w'"
  by (simp add: wp_def)

lemma wp_ret [wp_simps]: "wp (ret x) Q w = Q (Inr x) w"
  by (simp add: wp_def ret_def)

lemma wp_throw [wp_simps]: "wp (throw e) Q w = Q (Inl e) w"
  by (simp add: wp_def throw_def)

lemma wp_lift_res [wp_simps]: "wp (lift_res r) Q w = Q r w"
  by (simp add: wp_def lift_res_def)

lemma wp_try_with [wp_simps]: "wp (try_with m h) Q w = wp m (\<lambda>r. wp (h r) Q) w"
  by (simp add: wp_def try_with_def split: prod.splits)

lemma wp_bnd [wp_simps]:
  "wp (bnd m f) Q w = wp m (\<lambda>r w'. case r of Inl e \<Rightarrow> Q (Inl e) w' | Inr x \<Rightarrow> wp (f x) Q w') w"
  by (simp add: wp_def bnd_def try_with_def throw_def split: prod.splits sum.splits)

lemma wp_map_err [wp_simps]:
  "wp (map_err f m) Q w = wp m (\<lambda>r. Q (case r of Inl e \<Rightarrow> Inl (f e) | Inr x \<Rightarrow> Inr x)) w"
  by (simp add: wp_def map_err_def try_with_def throw_def ret_def split: prod.splits sum.splits)

lemma wp_ignore [wp_simps]: "wp (ignore m) Q w = wp m (\<lambda>_. Q (Inr ())) w"
  by (simp add: wp_def ignore_def try_with_def ret_def split: prod.splits)

lemma wp_get_world [wp_simps]: "wp get_world Q w = Q (Inr w) w"
  by (simp add: wp_def get_world_def)

lemma wp_is_dir [wp_simps]: "wp (is_dir p) Q w = Q (Inr (ent w p = Some DDir)) w"
  by (simp add: wp_def is_dir_def)

text \<open>A loop keeps what its body keeps.\<close>

lemma wp_fold_prog:
  assumes "\<And>x s w. x \<in> set xs \<Longrightarrow> I w \<Longrightarrow> wp (f x s) (\<lambda>_ w'. I w') w" "I w"
  shows "wp (fold_prog f xs s) (\<lambda>_ w'. I w') w"
  using assms
proof (induction xs arbitrary: s w)
  case Nil
  then show ?case by (simp add: wp_ret)
next
  case (Cons x xs)
  have "wp (f x s) (\<lambda>_ w'. I w') w"
    using Cons.prems by simp
  then show ?case
    unfolding fold_prog.simps wp_bnd
    by (rule wp_mono) (auto split: sum.splits intro!: Cons.IH Cons.prems(1))
qed

section \<open>Worlds\<close>

lemma ent_simps [simp]:
  "ent (w\<lparr>tick := n\<rparr>) p = ent w p"
  "ent (w\<lparr>inos := f\<rparr>) p = ent w p"
  "ent (w\<lparr>next_ino := k\<rparr>) p = ent w p"
  "ent (w\<lparr>reflink_cap := c\<rparr>) p = ent w p"
  "ent (set_ino i x w) p = ent w p"
  by (simp_all add: ent_def set_ino_def)

lemma ent_Nil [simp]: "ent w [] = Some DDir" "parent_err w [] = Some EEXIST"
  by (simp_all add: ent_def parent_err_def)

lemma ent_set_ent [simp]: "ent (set_ent p d w) q = (if q = p \<and> p \<noteq> [] then Some d else ent w q)"
  by (auto simp: ent_def set_ent_def update_conv')

lemma ent_del_ent [simp]: "ent (del_ent p w) q = (if q = p \<and> p \<noteq> [] then None else ent w q)"
  by (auto simp: ent_def del_ent_def delete_conv')

lemma world_proj_simps [simp]:
  "inos (set_ent p d w) = inos w" "inos (del_ent p w) = inos w"
  "next_ino (set_ent p d w) = next_ino w" "next_ino (del_ent p w) = next_ino w"
  "next_ino (set_ino i x w) = next_ino w" "inos (set_ino i x w) = (inos w)(i := x)"
  "fault (set_ent p d w) = fault w" "fault (del_ent p w) = fault w" "fault (set_ino i x w) = fault w"
  "now (set_ent p d w) = now w" "now (del_ent p w) = now w" "now (set_ino i x w) = now w"
  "create_mode (set_ent p d w) = create_mode w" "create_mode (del_ent p w) = create_mode w"
  "create_mode (set_ino i x w) = create_mode w"
  "reflink_cap (set_ent p d w) = reflink_cap w" "reflink_cap (del_ent p w) = reflink_cap w"
  "reflink_cap (set_ino i x w) = reflink_cap w"
  by (simp_all add: set_ent_def del_ent_def set_ino_def)

lemma parent_err_None: "parent_err w p = None \<longleftrightarrow> p \<noteq> [] \<and> ent w (butlast p) = Some DDir"
  by (auto simp: parent_err_def split: option.splits dirent.splits)

lemma file_at_Inr: "file_at w p = Inr i \<longleftrightarrow> ent w p = Some (DFile i)"
  by (auto simp: file_at_def split: option.splits dirent.splits)

lemma file_at_simps [simp]:
  "file_at (w\<lparr>tick := n\<rparr>) p = file_at w p" "file_at (set_ino i x w) p = file_at w p"
  "parent_err (w\<lparr>tick := n\<rparr>) p = parent_err w p"
  by (simp_all add: file_at_def parent_err_def)

text \<open>What every world satisfies: one entry per name, the root is not an entry, file entries
  name allocated inodes, every entry lies in a directory; and an injected failure is never
  \<open>ENOENT\<close>, which a file system reports only for an absent name.\<close>

definition wf_world :: "world \<Rightarrow> bool" where
  "wf_world w \<longleftrightarrow> distinct (map fst (ents w)) \<and> [] \<notin> fst ` set (ents w) \<and>
     (\<forall>p i. ent w p = Some (DFile i) \<longrightarrow> i < next_ino w) \<and>
     (\<forall>p. p \<noteq> [] \<longrightarrow> ent w p \<noteq> None \<longrightarrow> ent w (butlast p) = Some DDir) \<and>
     (\<forall>n k. fault w n \<noteq> Some (ENOENT, k))"

lemma wf_file: "wf_world w \<Longrightarrow> ent w p = Some (DFile i) \<Longrightarrow> i < next_ino w"
  by (simp add: wf_world_def)

lemma wf_parent: "wf_world w \<Longrightarrow> p \<noteq> [] \<Longrightarrow> ent w p \<noteq> None \<Longrightarrow> ent w (butlast p) = Some DDir"
  by (simp add: wf_world_def)

lemma wf_fault: "wf_world w \<Longrightarrow> fault w n \<noteq> Some (ENOENT, k)"
  by (simp add: wf_world_def)

lemma wf_world_upd [simp]:
  "wf_world (w\<lparr>tick := n\<rparr>) = wf_world w"
  "wf_world (set_ino i x w) = wf_world w"
  "wf_world (w\<lparr>reflink_cap := c\<rparr>) = wf_world w"
  by (simp_all add: wf_world_def set_ino_def ent_def)

lemma wf_set_ent:
  assumes "wf_world w" "parent_err w p = None" "ent w p = None \<or> (ent w p \<noteq> Some DDir \<and> d \<noteq> DDir)"
    "\<And>i. d = DFile i \<Longrightarrow> i < next_ino w"
  shows "wf_world (set_ent p d w)"
proof -
  have p: "p \<noteq> []" "ent w (butlast p) = Some DDir"
    using assms(2) by (simp_all add: parent_err_None)
  have "ent (set_ent p d w) (butlast q) = Some DDir" if "q \<noteq> []" "ent (set_ent p d w) q \<noteq> None" for q
    using that p assms(1,3) by (auto simp: wf_world_def split: if_splits)
  moreover have "[] \<notin> fst ` set (ents (set_ent p d w))"
    using assms(1) p by (simp add: wf_world_def set_ent_def dom_update)
  moreover have "distinct (map fst (ents (set_ent p d w)))"
    using assms(1) by (simp add: wf_world_def set_ent_def distinct_update)
  ultimately show ?thesis
    using assms(1,4) by (auto simp: wf_world_def split: if_splits)
qed

lemma wf_del_ent:
  assumes "wf_world w" "ent w p \<noteq> Some DDir"
  shows "wf_world (del_ent p w)"
proof -
  have "distinct (map fst (ents (del_ent p w)))"
    using assms(1) by (simp add: wf_world_def del_ent_def distinct_delete)
  moreover have "[] \<notin> fst ` set (ents (del_ent p w))"
    using assms(1) by (auto simp: wf_world_def del_ent_def AList.delete_eq)
  moreover have "ent (del_ent p w) (butlast q) = Some DDir" if "q \<noteq> []" "ent (del_ent p w) q \<noteq> None" for q
    using that assms by (auto simp: wf_world_def split: if_splits)
  ultimately show ?thesis
    using assms(1) by (auto simp: wf_world_def split: if_splits)
qed

text \<open>What may differ between two worlds: the names in \<open>A\<close>, the old inodes in \<open>I\<close>. New inodes
  may appear.\<close>

definition frame :: "path set \<Rightarrow> nat set \<Rightarrow> world \<Rightarrow> world \<Rightarrow> bool" where
  "frame A I w w' \<longleftrightarrow>
     (\<forall>p. p \<notin> A \<longrightarrow> ent w' p = ent w p) \<and>
     (\<forall>i. i < next_ino w \<longrightarrow> i \<notin> I \<longrightarrow> inos w' i = inos w i) \<and>
     next_ino w \<le> next_ino w' \<and> fault w' = fault w \<and> now w' = now w \<and>
     create_mode w' = create_mode w"

lemma frame_refl [simp]: "frame A I w w"
  by (simp add: frame_def)

lemma frame_trans: "frame A I w w' \<Longrightarrow> frame A I w' w'' \<Longrightarrow> frame A I w w''"
  by (simp add: frame_def)

lemma frame_mono: "frame A I w w' \<Longrightarrow> A \<subseteq> B \<Longrightarrow> I \<subseteq> J \<Longrightarrow> frame B J w w'"
  unfolding frame_def by blast

lemma frame_ent: "frame A I w w' \<Longrightarrow> p \<notin> A \<Longrightarrow> ent w' p = ent w p"
  by (simp add: frame_def)

lemma frame_ino: "frame A I w w' \<Longrightarrow> i < next_ino w \<Longrightarrow> i \<notin> I \<Longrightarrow> inos w' i = inos w i"
  by (simp add: frame_def)

lemma frame_next: "frame A I w w' \<Longrightarrow> next_ino w \<le> next_ino w'"
  by (simp add: frame_def)

section \<open>What the calls do\<close>

lemma wp_syscall:
  "wp (syscall g op) Q w \<longleftrightarrow>
     (\<forall>e k. fault w (tick w) = Some (e, k) \<longrightarrow> wp (g k e) Q (w\<lparr>tick := Suc (tick w)\<rparr>)) \<and>
     (fault w (tick w) = None \<longrightarrow> wp op Q (w\<lparr>tick := Suc (tick w)\<rparr>))"
  by (auto simp: wp_def syscall_def Let_def split: option.splits prod.splits)

lemma wp_fun: "wp (\<lambda>w. (f w, g w)) Q w = Q (f w) (g w)"
  by (simp add: wp_def)

lemma frame_upd [simp]:
  "frame A I w (w\<lparr>tick := n\<rparr>)" "frame A I w (w\<lparr>reflink_cap := c\<rparr>)"
  by (simp_all add: frame_def)

lemma frame_set_ent: "p \<in> A \<Longrightarrow> frame A I w (set_ent p d w)"
  by (simp add: frame_def)

lemma frame_del_ent: "p \<in> A \<Longrightarrow> frame A I w (del_ent p w)"
  by (simp add: frame_def)

lemma frame_set_ino: "i \<in> I \<or> next_ino w \<le> i \<Longrightarrow> frame A I w (set_ino i x w)"
  by (auto simp: frame_def)

lemma frame_new_file: "p \<in> A \<Longrightarrow> frame A I w (new_file p x w)"
  by (simp add: frame_def new_file_def)

lemma new_file_simps [simp]:
  "ent (new_file p x w) q = (if q = p \<and> p \<noteq> [] then Some (DFile (next_ino w)) else ent w q)"
  "next_ino (new_file p x w) = Suc (next_ino w)"
  "inos (new_file p x w) = (inos w)(next_ino w := x)"
  "reflink_cap (new_file p x w) = reflink_cap w"
  "fault (new_file p x w) = fault w" "now (new_file p x w) = now w"
  "create_mode (new_file p x w) = create_mode w"
  by (simp_all add: new_file_def)

lemma wf_new_file:
  assumes "wf_world w" "parent_err w p = None" "ent w p = None"
  shows "wf_world (new_file p x w)"
proof -
  let ?v = "w\<lparr>next_ino := Suc (next_ino w)\<rparr>"
  have "wf_world ?v" using assms(1) by (auto simp: wf_world_def less_Suc_eq)
  then have "wf_world (set_ent p (DFile (next_ino w)) ?v)"
    using assms by (intro wf_set_ent) (simp_all add: parent_err_None)
  moreover have "new_file p x w = set_ino (next_ino w) x (set_ent p (DFile (next_ino w)) ?v)"
    by (simp add: new_file_def set_ino_def set_ent_def)
  ultimately show ?thesis by simp
qed

text \<open>Calls that only look change nothing but the tick.\<close>

definition looks :: "(errno, 'a) prog \<Rightarrow> (world \<Rightarrow> 'a \<Rightarrow> bool) \<Rightarrow> bool" where
  "looks m S \<longleftrightarrow> (\<forall>w. \<exists>r n. m w = (r, w\<lparr>tick := n\<rparr>) \<and> (\<forall>x. r = Inr x \<longrightarrow> S w x))"

lemma looks_sys:
  "(\<And>w n x. f (w\<lparr>tick := n\<rparr>) = Inr x \<Longrightarrow> S w x) \<Longrightarrow> looks (sys (\<lambda>w. (f w, w))) S"
  by (fastforce simp: looks_def syscall_def throw_def Let_def split: option.splits)

lemma map_sum_Inr: "map_sum f g s = Inr y \<longleftrightarrow> (\<exists>x. s = Inr x \<and> y = g x)"
  by (cases s) auto

lemma wp_looks:
  assumes "looks m S" "\<And>n e. Q (Inl e) (w\<lparr>tick := n\<rparr>)" "\<And>n x. S w x \<Longrightarrow> Q (Inr x) (w\<lparr>tick := n\<rparr>)"
  shows "wp m Q w"
proof -
  obtain r n where m: "m w = (r, w\<lparr>tick := n\<rparr>)" and S: "\<forall>x. r = Inr x \<longrightarrow> S w x"
    using assms(1) unfolding looks_def by blast
  show ?thesis unfolding wp_def m using S assms(2,3) by (cases r) simp_all
qed

lemma looks_calls:
  "looks (fs_open p) (\<lambda>w i. ent w p = Some (DFile i))"
  "looks (fs_read p) (\<lambda>w bs. \<exists>i. ent w p = Some (DFile i) \<and> bs = ino_data (inos w i))"
  "looks (read_at i off n) (\<lambda>w bs. bs = take n (drop off (ino_data (inos w i))))"
  "looks (lstat p) (\<lambda>w d. ent w p = Some d)"
  "looks (fs_metadata p) (\<lambda>w x. \<exists>i. ent w p = Some (DFile i) \<and> x = inos w i)"
  "looks (sync_all i) (\<lambda>_ _. True)"
  "looks (read_link p) (\<lambda>w t. ent w p = Some (DLink t))"
  "looks (read_dir p) (\<lambda>w ns. ent w p = Some DDir \<and> ns = children w p)"
  "looks (next_entry nm) (\<lambda>w x. x = nm)"
  unfolding fs_open_def fs_read_def read_at_def lstat_def fs_metadata_def sync_all_def read_link_def
    read_dir_def next_entry_def ret_def
  by (rule looks_sys, auto simp: file_at_Inr map_sum_Inr children_def split: option.splits dirent.splits)+

lemma exists_path_wp:
  assumes "\<And>n b. (b \<Longrightarrow> ent w p \<noteq> None) \<Longrightarrow> Q (Inr b) (w\<lparr>tick := n\<rparr>)"
  shows "wp (exists_path p) Q w"
proof -
  have "looks (sys (\<lambda>w. (case ent w p of None \<Rightarrow> Inl ENOENT | Some (DLink _) \<Rightarrow> Inl ELOOP | Some d \<Rightarrow> Inr d, w)))
     (\<lambda>w d. ent w p \<noteq> None)"
    by (rule looks_sys) (auto split: option.splits dirent.splits)
  then show ?thesis
    unfolding exists_path_def wp_try_with
    by (rule wp_looks) (simp_all add: wp_ret assms)
qed

lemma remove_file_spec:
  "wf_world w \<Longrightarrow> wp (remove_file p) (\<lambda>r w'. wf_world w' \<and> frame {p} {} w w' \<and>
     next_ino w' = next_ino w \<and> inos w' = inos w \<and> reflink_cap w' = reflink_cap w \<and>
     (case r of Inr _ \<Rightarrow> ent w' p = None
      | Inl e \<Rightarrow> ent w' p = ent w p \<and> (e = ENOENT \<longrightarrow> ent w p = None))) w"
  unfolding remove_file_def wp_syscall
  by (auto simp: wp_def throw_def wf_del_ent frame_def wf_fault
      split: option.splits dirent.splits)

lemma create_new_spec:
  "wf_world w \<Longrightarrow> wp (create_new p) (\<lambda>r w'. wf_world w' \<and> frame {p} {} w w' \<and> reflink_cap w' = reflink_cap w \<and>
     (case r of Inr i \<Rightarrow> i = next_ino w \<and> next_ino w' = Suc i \<and> ent w' p = Some (DFile i) \<and> ent w p = None
      | Inl e \<Rightarrow> next_ino w' = next_ino w \<and> ent w' p = ent w p)) w"
  unfolding create_new_def wp_syscall
  by (auto simp: wp_def throw_def wf_new_file frame_def 
      split: option.splits)

lemma open_truncate_spec:
  "wf_world w \<Longrightarrow> wp (open_truncate p) (\<lambda>r w'. wf_world w' \<and>
     frame {p} {i. ent w p = Some (DFile i)} w w' \<and> reflink_cap w' = reflink_cap w \<and>
     (case r of Inr i \<Rightarrow> ent w' p = Some (DFile i) \<and> ino_data (inos w' i) = [] \<and> i < next_ino w' \<and>
         (ent w p = Some (DFile i) \<or> ent w p = None \<and> next_ino w \<le> i)
      | Inl e \<Rightarrow> frame {} {} w w' \<and> next_ino w' = next_ino w)) w"
  unfolding open_truncate_def wp_syscall
  by (auto simp: wp_def throw_def wf_new_file frame_def 
      file_at_Inr empty_file_def wf_file split: option.splits sum.splits)

lemma write_all_spec:
  "wf_world w \<Longrightarrow> wp (write_all i bs) (\<lambda>r w'. wf_world w' \<and> frame {} {i} w w' \<and> next_ino w' = next_ino w \<and>
     reflink_cap w' = reflink_cap w \<and> ino_mode (inos w' i) = ino_mode (inos w i) \<and>
     (r = Inr () \<longrightarrow> ino_data (inos w' i) = ino_data (inos w i) @ bs)) w"
  unfolding write_all_def wp_syscall
  by (auto simp: wp_def throw_def append_data_def frame_def)

lemma ioctl_ficlone_spec:
  "wf_world w \<Longrightarrow> wp (ioctl_ficlone dst src) (\<lambda>r w'. wf_world w' \<and> frame {} {dst} w w' \<and>
     next_ino w' = next_ino w \<and> reflink_cap w' = reflink_cap w \<and>
     (r = Inr () \<longrightarrow> ino_data (inos w' dst) = ino_data (inos w src))) w"
  unfolding ioctl_ficlone_def wp_syscall
  by (auto simp: wp_def throw_def frame_def)

lemma hard_link_spec:
  "wf_world w \<Longrightarrow> wp (hard_link src dst) (\<lambda>r w'. wf_world w' \<and> frame {dst} {} w w' \<and>
     next_ino w' = next_ino w \<and> inos w' = inos w \<and> reflink_cap w' = reflink_cap w \<and>
     (case r of Inr _ \<Rightarrow> ent w' dst = ent w src \<and> ent w src \<noteq> None \<and> ent w dst = None
      | Inl e \<Rightarrow> ent w' dst = ent w dst)) w"
  unfolding hard_link_def wp_syscall
  by (auto simp: wp_def throw_def frame_def wf_file
      intro!: wf_set_ent split: option.splits dirent.splits)

lemma set_permissions_spec:
  "wf_world w \<Longrightarrow> wp (set_permissions p m) (\<lambda>r w'. wf_world w' \<and>
     frame {} {i. ent w p = Some (DFile i)} w w' \<and> next_ino w' = next_ino w \<and> reflink_cap w' = reflink_cap w \<and>
     (\<forall>i. ino_data (inos w' i) = ino_data (inos w i)) \<and>
     (r = Inr () \<longrightarrow> (\<exists>i. ent w p = Some (DFile i) \<and> ino_mode (inos w' i) = m))) w"
  unfolding set_permissions_def wp_syscall
  by (auto simp: wp_def throw_def frame_def file_at_Inr split: sum.splits)

lemma create_dir_spec:
  "wf_world w \<Longrightarrow> wp (create_dir p) (\<lambda>r w'. wf_world w' \<and> frame {p} {} w w' \<and>
     next_ino w' = next_ino w \<and> inos w' = inos w \<and> reflink_cap w' = reflink_cap w \<and>
     (case r of Inr _ \<Rightarrow> ent w' p = Some DDir \<and> ent w p = None \<and> p \<noteq> [] | Inl e \<Rightarrow> ent w' p = ent w p)) w"
  unfolding create_dir_def wp_syscall
  by (auto simp: wp_def throw_def frame_def
      intro!: wf_set_ent split: option.splits)

lemma rename_spec:
  "wf_world w \<Longrightarrow> a \<noteq> b \<Longrightarrow> wp (rename a b) (\<lambda>r w'. wf_world w' \<and> frame {a, b} {} w w' \<and>
     next_ino w' = next_ino w \<and> inos w' = inos w \<and> reflink_cap w' = reflink_cap w \<and>
     (case r of Inr _ \<Rightarrow> ent w' b = ent w a \<and> ent w' a = None \<and> ent w a \<noteq> None
      | Inl e \<Rightarrow> ent w' a = ent w a \<and> ent w' b = ent w b)) w"
  unfolding rename_def wp_syscall
  by (auto simp: wp_def throw_def frame_def wf_file
      intro!: wf_set_ent wf_del_ent split: option.splits) (auto simp: parent_err_None)

lemma symlink_spec:
  "wf_world w \<Longrightarrow> wp (symlink t p) (\<lambda>r w'. wf_world w' \<and> frame {p} {} w w' \<and>
     next_ino w' = next_ino w \<and> inos w' = inos w \<and> reflink_cap w' = reflink_cap w \<and>
     (case r of Inr _ \<Rightarrow> ent w' p = Some (DLink t) | Inl e \<Rightarrow> ent w' p = ent w p)) w"
  unfolding symlink_def wp_syscall
  by (auto simp: wp_def throw_def frame_def
      intro!: wf_set_ent split: option.splits)

section \<open>Symbolic execution\<close>

lemma frame_step:
  "frame A I w w1 \<Longrightarrow> frame B J w1 w2 \<Longrightarrow> B \<subseteq> A \<Longrightarrow> (\<And>j. j \<in> J \<Longrightarrow> j \<in> I \<or> next_ino w \<le> j) \<Longrightarrow>
   frame A I w w2"
  unfolding frame_def by (intro conjI allI impI) (auto dest: order_less_le_trans, metis leD order_less_le_trans)

lemma bndE:
  assumes "bnd m f w = (r, w')"
  obtains (err) e where "m w = (Inl e, w')" "r = Inl e"
  | (ok) x w1 where "m w = (Inr x, w1)" "f x w1 = (r, w')"
  using assms by (auto simp: bnd_def try_with_def throw_def split: prod.splits sum.splits)

lemma try_withE:
  assumes "try_with m h w = (r, w')"
  obtains x w1 where "m w = (x, w1)" "h x w1 = (r, w')"
  using assms by (auto simp: try_with_def split: prod.splits)

lemma map_errE:
  assumes "map_err g m w = (r, w')"
  obtains (err) e where "m w = (Inl e, w')" "r = Inl (g e)"
  | (ok) x where "m w = (Inr x, w')" "r = Inr x"
  using assms by (auto simp: map_err_def try_with_def throw_def ret_def split: prod.splits sum.splits)

lemma run_simps [simp]:
  "bnd get_world f w = f w w"
  "bnd (ret x) g w = g x w"
  "bnd (throw e) h w = (Inl e, w)"
  by (simp_all add: bnd_def try_with_def get_world_def ret_def throw_def)

lemma looksE:
  assumes "m w = (r, w')" "looks m S"
  obtains n where "w' = w\<lparr>tick := n\<rparr>" "\<And>x. r = Inr x \<Longrightarrow> S w x"
  using assms unfolding looks_def by (metis Pair_inject)

lemmas remove_file_run = wpD [OF remove_file_spec]
  and create_new_run = wpD [OF create_new_spec]
  and open_truncate_run = wpD [OF open_truncate_spec]
  and write_all_run = wpD [OF write_all_spec]
  and ioctl_ficlone_run = wpD [OF ioctl_ficlone_spec]
  and hard_link_run = wpD [OF hard_link_spec]
  and set_permissions_run = wpD [OF set_permissions_spec]
  and create_dir_run = wpD [OF create_dir_spec]
  and rename_run = wpD [OF rename_spec]
  and symlink_run = wpD [OF symlink_spec]

lemma fchmod_run:
  assumes "wf_world w" "sys (\<lambda>w. (Inr (), set_ino j ((inos w j)\<lparr>ino_mode := m w\<rparr>) w)) w = (r, w')"
  shows "wf_world w' \<and> frame {} {j} w w' \<and> next_ino w' = next_ino w \<and> reflink_cap w' = reflink_cap w \<and>
      (\<forall>i. ino_data (inos w' i) = ino_data (inos w i))"
  using assms by (auto simp: syscall_def throw_def frame_def Let_def split: option.splits prod.splits)

lemma fs_copy_run:
  assumes "wf_world w" "fs_copy src dst w = (r, w')" "src \<noteq> dst"
  shows "wf_world w' \<and> reflink_cap w' = reflink_cap w \<and> frame {dst} {i. ent w dst = Some (DFile i)} w w' \<and>
     (ent w' dst = ent w dst \<or> ent w dst = None \<and> (\<exists>j. ent w' dst = Some (DFile j) \<and> next_ino w \<le> j)) \<and>
     (r = Inr () \<longrightarrow> (\<exists>i j. ent w src = Some (DFile i) \<and> ent w' dst = Some (DFile j) \<and>
          (i \<noteq> j \<longrightarrow> ino_data (inos w' j) = ino_data (inos w i))))"
  using assms(2) [unfolded fs_copy_def]
proof (cases rule: bndE)
  case (err e)
  then show ?thesis using assms(1) by (auto elim: looksE [OF _ looks_calls(1)])
next
  case (ok i w1)
  then obtain n where w1: "w1 = w\<lparr>tick := n\<rparr>" and src: "ent w src = Some (DFile i)"
    by (auto elim: looksE [OF _ looks_calls(1)])
  have wf1: "wf_world w1" and i: "i < next_ino w" using assms(1) src w1 by (auto simp: wf_file)
  from ok(2) show ?thesis
  proof (cases rule: bndE)
    case (err e)
    then show ?thesis using open_truncate_run [OF wf1 err(1)] w1
      by (auto simp: frame_def)
  next
    case (ok j w2)
    note o = open_truncate_run [OF wf1 ok(1)]
    then have wf2: "wf_world w2" and f2: "frame {dst} {i. ent w dst = Some (DFile i)} w w2"
      and j: "ent w2 dst = Some (DFile j)" "ent w dst = Some (DFile j) \<or> ent w dst = None \<and> next_ino w \<le> j"
      "ino_data (inos w2 j) = []" "j < next_ino w2" and c2: "reflink_cap w2 = reflink_cap w"
      using w1 by (auto simp: frame_def)
    have f2j: "k \<in> {j} \<Longrightarrow> k \<in> {i. ent w dst = Some (DFile i)} \<or> next_ino w \<le> k" for k
      using j(2) by auto
    from ok(2) show ?thesis
    proof (cases rule: bndE)
      case (err e)
      then have "frame {dst} {i. ent w dst = Some (DFile i)} w w'"
        using frame_step [OF f2 _ _ f2j] fchmod_run [OF wf2 err(1)] by blast
      then show ?thesis using fchmod_run [OF wf2 err(1)] j err(2) c2 by (auto simp: frame_ent)
    next
      case (ok u w3)
      then have c: "wf_world w3" "frame {} {j} w2 w3" "reflink_cap w3 = reflink_cap w"
          "ino_data (inos w3 j) = []" "ino_data (inos w3 i) = ino_data (inos w2 i)"
        using fchmod_run [OF wf2 ok(1)] j(3) c2 by auto
      have wr: "write_all j (ino_data (inos w3 i)) w3 = (r, w')"
        using ok(2) by (simp add: bnd_def get_world_def try_with_def)
      note x = write_all_run [OF c(1) wr]
      have f3: "frame {dst} {i. ent w dst = Some (DFile i)} w w3"
        using frame_step [OF f2 c(2) _ f2j] by simp
      then have f: "frame {dst} {i. ent w dst = Some (DFile i)} w w'"
        using frame_step [OF f3 _ _ f2j] x by blast
      have dst: "ent w' dst = Some (DFile j)"
        using x c(2) j(1) by (simp add: frame_def)
      have "ino_data (inos w3 i) = ino_data (inos w i)" if "i \<noteq> j"
        using c(5) frame_ino [OF f2 i] that j(2) assms(3) src
        by (cases "ent w dst = Some (DFile i)") auto
      then show ?thesis using x c f dst src j(2) by auto
    qed
  qed
qed

end
