(* ===== verification/Jet_Link.thy ===== *)
theory Jet_Link
  imports Jet_Fs
begin

text \<open>
  Placing bytes without copying them (\<open>crates/jet-cas/src/link.rs\<close>): the intent that guards
  hard links, the cached answer to whether the file system clones, the clone itself and the
  choice between reflink, hard link and copy. The cached capability is shared by all calls on
  a store and lives in the world.
\<close>

section \<open>Definitions\<close>

definition OBJECT_MODE :: "32 word" where "OBJECT_MODE = 0x124"

datatype Intent = OverlayLower | PrivateInode

datatype LinkMode = Reflink | Hardlink | Copy

definition is_copy :: "LinkMode \<Rightarrow> bool" where
  "is_copy m \<longleftrightarrow> m = Copy"

definition CAP_UNKNOWN :: "8 word" where "CAP_UNKNOWN = 0"
definition CAP_YES :: "8 word" where "CAP_YES = 1"
definition CAP_NO :: "8 word" where "CAP_NO = 2"

lemmas cap_defs = CAP_UNKNOWN_def CAP_YES_def CAP_NO_def

definition capabilities_new :: "('e, unit) prog" where
  "capabilities_new = (\<lambda>w. (Inr (), w\<lparr>reflink_cap := CAP_UNKNOWN\<rparr>))"

definition with_reflink :: "bool \<Rightarrow> ('e, unit) prog" where
  "with_reflink supported = (\<lambda>w. (Inr (), w\<lparr>reflink_cap := if supported then CAP_YES else CAP_NO\<rparr>))"

definition reflink_supported :: "world \<Rightarrow> bool option" where
  "reflink_supported w =
     (if reflink_cap w = CAP_YES then Some True
      else if reflink_cap w = CAP_NO then Some False
      else None)"

definition note_reflink :: "bool \<Rightarrow> ('e, unit) prog" where
  "note_reflink supported = (\<lambda>w. (Inr (), w\<lparr>reflink_cap := if supported then CAP_YES else CAP_NO\<rparr>))"

definition is_unsupported :: "errno \<Rightarrow> bool" where
  "is_unsupported e \<longleftrightarrow> e \<in> {EOPNOTSUPP, ENOTTY, EXDEV, EINVAL, ENOSYS}"

text \<open>The source is opened before the destination is created; a failed clone removes what it
  created, as far as it can.\<close>

definition raw_reflink :: "path \<Rightarrow> path \<Rightarrow> (errno, unit) prog" where
  "raw_reflink src dst =
     bnd (fs_open src) (\<lambda>src_f.
     bnd (create_new dst) (\<lambda>dst_f.
     try_with (ioctl_ficlone dst_f src_f) (\<lambda>r. case r of
       Inr _ \<Rightarrow> ret ()
     | Inl e \<Rightarrow> bnd (ignore (remove_file dst)) (\<lambda>_. throw e))))"

definition probe_src :: string where "probe_src = ''.jetrun-reflink-probe.src''"
definition probe_dst :: string where "probe_dst = ''.jetrun-reflink-probe.dst''"

definition fs_write :: "path \<Rightarrow> bytes \<Rightarrow> (errno, unit) prog" where
  "fs_write p bs = bnd (open_truncate p) (\<lambda>i. write_all i bs)"

definition probe :: "path \<Rightarrow> (errno, bool) prog" where
  "probe dir =
     bnd get_world (\<lambda>w0.
     case reflink_supported w0 of
       Some known \<Rightarrow> ret known
     | None \<Rightarrow>
       let src = dir @ [probe_src]; dst = dir @ [probe_dst] in
       bnd (ignore (remove_file src)) (\<lambda>_.
       bnd (ignore (remove_file dst)) (\<lambda>_.
       bnd (fs_write src (bytes_of ''probe'')) (\<lambda>_.
       try_with (raw_reflink src dst) (\<lambda>result.
       bnd (ignore (remove_file src)) (\<lambda>_.
       bnd (ignore (remove_file dst)) (\<lambda>_.
       bnd (case result of
              Inr _ \<Rightarrow> ret True
            | Inl e \<Rightarrow> if is_unsupported e then ret False else throw e) (\<lambda>supported.
       bnd (note_reflink supported) (\<lambda>_.
       ret supported)))))))))"

text \<open>The three mechanisms in order; each stage falls through to the next.\<close>

definition place_copy :: "path \<Rightarrow> path \<Rightarrow> (errno, LinkMode) prog" where
  "place_copy src dst = bnd (fs_copy src dst) (\<lambda>_. ret Copy)"

definition place_hardlink :: "path \<Rightarrow> path \<Rightarrow> Intent \<Rightarrow> (errno, LinkMode) prog" where
  "place_hardlink src dst intent =
     (if intent = OverlayLower then
        try_with (hard_link src dst) (\<lambda>r. case r of
          Inr _ \<Rightarrow> ret Hardlink
        | Inl e \<Rightarrow> if e \<in> {EMLINK, EXDEV, EPERM} then place_copy src dst else throw e)
      else place_copy src dst)"

definition place_reflink :: "path \<Rightarrow> path \<Rightarrow> Intent \<Rightarrow> (errno, LinkMode) prog" where
  "place_reflink src dst intent =
     bnd get_world (\<lambda>w.
     if reflink_supported w \<noteq> Some False then
       try_with (raw_reflink src dst) (\<lambda>r. case r of
         Inr _ \<Rightarrow> bnd (note_reflink True) (\<lambda>_. ret Reflink)
       | Inl e \<Rightarrow>
         if is_unsupported e then bnd (note_reflink False) (\<lambda>_. place_hardlink src dst intent)
         else throw e)
     else place_hardlink src dst intent)"

definition link_materialize :: "path \<Rightarrow> path \<Rightarrow> Intent \<Rightarrow> (errno, LinkMode) prog" where
  "link_materialize src dst intent =
     try_with (remove_file dst) (\<lambda>r. case r of
       Inl e \<Rightarrow> if e \<noteq> ENOENT then throw e else place_reflink src dst intent
     | Inr _ \<Rightarrow> place_reflink src dst intent)"

section \<open>Where the bytes end up\<close>

text \<open>The destination is free, or names an inode allocated after \<open>w\<close>.\<close>

definition fresh_at :: "world \<Rightarrow> path \<Rightarrow> world \<Rightarrow> bool" where
  "fresh_at w dst w' \<longleftrightarrow> ent w' dst = None \<or> (\<exists>j. ent w' dst = Some (DFile j) \<and> next_ino w \<le> j)"

text \<open>The contents of a name.\<close>

definition content :: "world \<Rightarrow> path \<Rightarrow> bytes option" where
  "content w p = (case ent w p of Some (DFile i) \<Rightarrow> Some (ino_data (inos w i)) | _ \<Rightarrow> None)"

lemma content_Some: "content w p = Some bs \<longleftrightarrow> (\<exists>i. ent w p = Some (DFile i) \<and> ino_data (inos w i) = bs)"
  by (auto simp: content_def split: option.splits dirent.splits)

lemma content_tick [simp]: "content (w\<lparr>tick := n\<rparr>) p = content w p" "content (w\<lparr>reflink_cap := c\<rparr>) p = content w p"
  by (simp_all add: content_def split: option.splits dirent.splits)

lemma frame_content:
  assumes "frame A {} w w'" "wf_world w" "p \<notin> A"
  shows "content w' p = content w p"
  using assms by (auto simp: content_def frame_ent frame_ino wf_file split: option.splits dirent.splits)

text \<open>What a placement promises: the bytes of the source under the new name; a hard link shares the
  source's inode and is made for an overlay only; every other mechanism yields an inode that
  did not exist before. A failed placement leaves the destination as it was, free, or with an
  inode of its own.\<close>

definition placed :: "path \<Rightarrow> path \<Rightarrow> Intent \<Rightarrow> world \<Rightarrow> errno + LinkMode \<Rightarrow> world \<Rightarrow> bool" where
  "placed src dst intent w r w' \<longleftrightarrow>
     (case r of
        Inr m \<Rightarrow> content w' dst = content w src \<and>
          (if m = Hardlink then intent = OverlayLower \<and> ent w' dst = ent w src
           else content w src \<noteq> None \<and> (\<exists>j. ent w' dst = Some (DFile j) \<and> next_ino w \<le> j))
      | Inl e \<Rightarrow> ent w' dst = ent w dst \<or> fresh_at w dst w')"

definition staged_world :: "path \<Rightarrow> world \<Rightarrow> world \<Rightarrow> bool" where
  "staged_world dst w w1 \<longleftrightarrow> wf_world w \<and> wf_world w1 \<and> frame {dst} {} w w1 \<and> fresh_at w dst w1"

lemma staged_world_refl: "wf_world w \<Longrightarrow> ent w dst = None \<Longrightarrow> staged_world dst w w"
  by (simp add: staged_world_def fresh_at_def)

lemma staged_world_cap: "staged_world dst w w1 \<Longrightarrow> staged_world dst w (w1\<lparr>reflink_cap := c\<rparr>)"
  by (auto simp: staged_world_def fresh_at_def intro: frame_trans)

lemma fresh_inodes: "fresh_at w dst w1 \<Longrightarrow> ent w1 dst = Some (DFile i) \<Longrightarrow> next_ino w \<le> i"
  by (auto simp: fresh_at_def)

lemma place_copy_run:
  assumes "staged_world dst w w1" "src \<noteq> dst" "place_copy src dst w1 = (r, w')"
  shows "wf_world w' \<and> frame {dst} {} w w' \<and> placed src dst intent w r w'"
proof -
  have wf: "wf_world w" "wf_world w1" and f: "frame {dst} {} w w1" and fresh: "fresh_at w dst w1"
    using assms(1) by (simp_all add: staged_world_def)
  obtain r1 where run: "fs_copy src dst w1 = (r1, w')"
    and r: "r = (case r1 of Inl e \<Rightarrow> Inl e | Inr _ \<Rightarrow> Inr Copy)"
    using assms(3) unfolding place_copy_def by (cases rule: bndE) (auto simp: ret_def)
  note c = fs_copy_run [OF wf(2) run assms(2)]
  have new: "next_ino w \<le> j" if "ent w' dst = Some (DFile j)" for j
    using that c fresh_inodes [OF fresh] frame_next [OF f] by fastforce
  have f': "frame {dst} {} w w'"
    using frame_step [OF f, of "{dst}" _ w'] c fresh_inodes [OF fresh] by blast
  moreover have "placed src dst intent w r w'"
  proof (cases r1)
    case (Inl e)
    have "ent w' dst = None \<or> (\<exists>j. ent w' dst = Some (DFile j))"
      using c fresh by (auto simp: fresh_at_def)
    then show ?thesis using Inl r new by (auto simp: placed_def fresh_at_def)
  next
    case (Inr u)
    then obtain i j where ij: "ent w1 src = Some (DFile i)" "ent w' dst = Some (DFile j)"
        "i \<noteq> j \<longrightarrow> ino_data (inos w' j) = ino_data (inos w1 i)"
      using c by auto
    have src: "ent w src = Some (DFile i)" using ij(1) f assms(2) by (simp add: frame_ent)
    then have i: "i < next_ino w" by (rule wf_file [OF wf(1)])
    then have "inos w1 i = inos w i" "i \<noteq> j"
      using f new [OF ij(2)] by (auto simp: frame_ino)
    then show ?thesis
      using Inr r ij src new [OF ij(2)] by (simp add: placed_def content_def)
  qed
  ultimately show ?thesis using c by simp
qed

lemma place_hardlink_run:
  assumes "staged_world dst w w1" "src \<noteq> dst" "place_hardlink src dst intent w1 = (r, w')"
  shows "wf_world w' \<and> frame {dst} {} w w' \<and> placed src dst intent w r w'"
proof (cases "intent = OverlayLower")
  case False
  then show ?thesis using place_copy_run [OF assms(1,2)] assms(3) by (simp add: place_hardlink_def)
next
  case True
  have wf: "wf_world w" "wf_world w1" and f: "frame {dst} {} w w1" and fresh: "fresh_at w dst w1"
    using assms(1) by (simp_all add: staged_world_def)
  obtain r1 w2 where run: "hard_link src dst w1 = (r1, w2)" and
    cont: "(case r1 of Inr _ \<Rightarrow> ret Hardlink
        | Inl e \<Rightarrow> if e \<in> {EMLINK, EXDEV, EPERM} then place_copy src dst else throw e) w2 = (r, w')"
    using assms(3) True unfolding place_hardlink_def by (simp only: if_True simp_thms) (erule try_withE)
  note h = hard_link_run [OF wf(2) run]
  have f2: "frame {dst} {} w w2" using h frame_trans [OF f] by blast
  have st: "staged_world dst w w2" if "r1 = Inl e" for e
    using h that f2 fresh wf by (simp add: staged_world_def fresh_at_def)
  show ?thesis
  proof (cases r1)
    case (Inl e)
    show ?thesis
    proof (cases "e \<in> {EMLINK, EXDEV, EPERM}")
      case True
      then have "place_copy src dst w2 = (r, w')" using cont Inl by auto
      then show ?thesis by (rule place_copy_run [OF st [OF Inl] assms(2)])
    next
      case False
      then have "r = Inl e" "w' = w2" using cont Inl by (auto simp: throw_def)
      then show ?thesis using st [OF Inl] by (simp add: staged_world_def placed_def)
    qed
  next
    case (Inr u)
    then have rw: "r = Inr Hardlink" "w' = w2" using cont by (auto simp: ret_def)
    have "ent w2 dst = ent w src"
      using h Inr f assms(2) by (simp add: frame_ent)
    moreover have "content w2 dst = content w src"
      using calculation f2 wf(1) by (auto simp: content_def frame_ino wf_file split: option.splits dirent.splits)
    ultimately show ?thesis
      using h f2 True rw by (simp add: placed_def)
  qed
qed

lemma raw_reflink_run:
  assumes "staged_world dst w w1" "src \<noteq> dst" "raw_reflink src dst w1 = (r, w')"
  shows "staged_world dst w w' \<and>
    (r = Inr () \<longrightarrow> content w src \<noteq> None \<and> content w' dst = content w src \<and>
       (\<exists>j. ent w' dst = Some (DFile j) \<and> next_ino w \<le> j))"
proof -
  have wf: "wf_world w" "wf_world w1" and f: "frame {dst} {} w w1" and fresh: "fresh_at w dst w1"
    using assms(1) by (simp_all add: staged_world_def)
  from assms(3) [unfolded raw_reflink_def] show ?thesis
  proof (cases rule: bndE)
    case (err e)
    then show ?thesis using wf f fresh
      by (auto simp: staged_world_def fresh_at_def intro: frame_trans elim!: looksE [OF _ looks_calls(1)])
  next
    case (ok i w2)
    then obtain n where w2: "w2 = w1\<lparr>tick := n\<rparr>" and src: "ent w1 src = Some (DFile i)"
      by (auto elim: looksE [OF _ looks_calls(1)])
    have wf2: "wf_world w2" and f2: "frame {dst} {} w w2"
      using wf w2 f by (auto intro: frame_trans)
    have src0: "ent w src = Some (DFile i)" using src f assms(2) by (simp add: frame_ent)
    from ok(2) show ?thesis
    proof (cases rule: bndE)
      case (err e)
      then show ?thesis
        using create_new_run [OF wf2 err(1)] frame_trans [OF f2] wf fresh w2
        by (simp add: staged_world_def fresh_at_def)
    next
      case (ok j w3)
      then have c: "wf_world w3" "frame {dst} {} w w3" "j = next_ino w2" "ent w3 dst = Some (DFile j)"
        using create_new_run [OF wf2 ok(1)] frame_trans [OF f2] by auto
      then have j: "next_ino w \<le> j" using frame_next [OF f2] by simp
      obtain q w4 where q: "ioctl_ficlone j i w3 = (q, w4)" and
        rest: "(case q of Inr _ \<Rightarrow> ret () | Inl e \<Rightarrow> bnd (ignore (remove_file dst)) (\<lambda>_. throw e)) w4 = (r, w')"
        using ok(2) by (rule try_withE)
      note k = ioctl_ficlone_run [OF c(1) q]
      have f4: "frame {dst} {} w w4" using frame_step [OF c(2), of "{}" "{j}" w4] k j by simp
      have e4: "ent w4 dst = Some (DFile j)" using k c(4) by (simp add: frame_def)
      show ?thesis
      proof (cases q)
        case (Inl e)
        then obtain q' where rm: "remove_file dst w4 = (q', w')" and r: "r = Inl e"
          using rest by (auto simp: ignore_def ret_def throw_def bnd_def elim!: try_withE)
        have "wf_world w4" using k by simp
        note rm' = remove_file_run [OF this rm]
        have "frame {dst} {} w w'" using rm' frame_trans [OF f4] by blast
        moreover have "fresh_at w dst w'"
          using rm' e4 j by (cases q') (simp_all add: fresh_at_def)
        ultimately have "staged_world dst w w'"
          using rm' wf(1) unfolding staged_world_def by blast
        then show ?thesis using r by simp
      next
        case (Inr u)
        then have rw: "r = Inr ()" "w' = w4" using rest by (auto simp: ret_def)
        have i: "i < next_ino w" using src0 by (rule wf_file [OF wf(1)])
        have "inos w3 i = inos w i" using c(2) i by (simp add: frame_ino)
        then have "content w src \<noteq> None \<and> content w' dst = content w src"
          using k Inr rw e4 src0 by (simp add: content_def)
        moreover have "staged_world dst w w'"
          using k f4 wf e4 j rw unfolding staged_world_def fresh_at_def by blast
        ultimately show ?thesis using e4 j rw by blast
      qed
    qed
  qed
qed

lemma place_reflink_run:
  assumes "staged_world dst w w1" "src \<noteq> dst" "place_reflink src dst intent w1 = (r, w')"
  shows "wf_world w' \<and> frame {dst} {} w w' \<and> placed src dst intent w r w'"
proof (cases "reflink_supported w1 = Some False")
  case True
  then show ?thesis
    using place_hardlink_run [OF assms(1,2)] assms(3)
    by (simp add: place_reflink_def)
next
  case False
  then obtain q w2 where q: "raw_reflink src dst w1 = (q, w2)" and
    rest: "(case q of Inr _ \<Rightarrow> bnd (note_reflink True) (\<lambda>_. ret Reflink)
       | Inl e \<Rightarrow> if is_unsupported e then bnd (note_reflink False) (\<lambda>_. place_hardlink src dst intent)
         else throw e) w2 = (r, w')"
    using assms(3) by (auto simp: place_reflink_def elim!: try_withE)
  note k = raw_reflink_run [OF assms(1,2) q]
  show ?thesis
  proof (cases q)
    case (Inr u)
    then have "r = Inr Reflink" "w' = w2\<lparr>reflink_cap := CAP_YES\<rparr>"
      using rest by (auto simp: bnd_def try_with_def note_reflink_def ret_def)
    moreover have "staged_world dst w (w2\<lparr>reflink_cap := CAP_YES\<rparr>)"
      using k staged_world_cap by blast
    moreover have "content w src \<noteq> None" "content w2 dst = content w src"
        "\<exists>j. ent w2 dst = Some (DFile j) \<and> next_ino w \<le> j"
      using k Inr by simp_all
    ultimately show ?thesis
      by (simp add: placed_def staged_world_def)
  next
    case (Inl e)
    show ?thesis
    proof (cases "is_unsupported e")
      case True
      then have "place_hardlink src dst intent (w2\<lparr>reflink_cap := CAP_NO\<rparr>) = (r, w')"
        using rest Inl by (simp add: bnd_def try_with_def note_reflink_def)
      then show ?thesis using place_hardlink_run [OF staged_world_cap assms(2)] k by blast
    next
      case False
      then show ?thesis using rest Inl k by (auto simp: throw_def staged_world_def placed_def)
    qed
  qed
qed

lemma link_materialize_run:
  assumes "wf_world w" "src \<noteq> dst" "link_materialize src dst intent w = (r, w')"
  shows "wf_world w' \<and> frame {dst} {} w w' \<and> placed src dst intent w r w'"
proof -
  obtain q w1 where q: "remove_file dst w = (q, w1)" and
    rest: "(case q of Inl e \<Rightarrow> if e \<noteq> ENOENT then throw e else place_reflink src dst intent
      | Inr _ \<Rightarrow> place_reflink src dst intent) w1 = (r, w')"
    using assms(3) by (auto simp: link_materialize_def elim!: try_withE)
  note k = remove_file_run [OF assms(1) q]
  show ?thesis
  proof (cases "\<exists>e. q = Inl e \<and> e \<noteq> ENOENT")
    case True
    then show ?thesis using rest k by (auto simp: throw_def placed_def)
  next
    case False
    then consider "q = Inr ()" | "q = Inl ENOENT" by (cases q) auto
    then have "place_reflink src dst intent w1 = (r, w') \<and> ent w1 dst = None"
      using rest k by cases simp_all
    then have "place_reflink src dst intent w1 = (r, w')" "ent w1 dst = None" by blast+
    moreover have "staged_world dst w w1"
      using k assms(1) calculation(2) by (simp add: staged_world_def fresh_at_def)
    ultimately show ?thesis
      using place_reflink_run [OF _ assms(2)] by blast
  qed
qed

section \<open>Properties\<close>

text \<open>C31: Placing a file, whatever fails on the way: no other name and no inode that existed before is
  changed; on success the new name has the source's bytes; the inode is shared only by a hard
  link, which happens only for an overlay lowerdir; otherwise the inode is new, so a later
  write to the copy cannot reach the source.\<close>

theorem link_placement_is_safe:
  assumes "wf_world w" "src \<noteq> dst" "link_materialize src dst intent w = (r, w')"
  shows "(\<forall>p. p \<noteq> dst \<longrightarrow> ent w' p = ent w p \<and> content w' p = content w p) \<and>
    (\<forall>i. i < next_ino w \<longrightarrow> inos w' i = inos w i) \<and>
    (\<forall>m. r = Inr m \<longrightarrow> content w' dst = content w src \<and>
       (m = Hardlink \<longrightarrow> intent = OverlayLower \<and> ent w' dst = ent w src) \<and>
       (m \<noteq> Hardlink \<longrightarrow> (\<exists>j. ent w' dst = Some (DFile j) \<and> next_ino w \<le> j)))"
  using link_materialize_run [OF assms] assms(1)
  by (auto simp: frame_ent frame_content frame_ino placed_def)

definition example_world :: world where
  "example_world = \<lparr>
     ents = [([''a''], DFile 0), ([''d''], DDir)],
     inos = (\<lambda>_. \<lparr>ino_data = [104, 105], ino_mode = OBJECT_MODE, ino_mtime = 5\<rparr>),
     next_ino = 1, tick = 0, fault = (\<lambda>n. if n = 3 then Some (EOPNOTSUPP, 0) else None), now = 9,
     create_mode = 0x1A4, reflink_cap = CAP_UNKNOWN\<rparr>"

lemma example_world_wf: "wf_world example_world"
  by (auto simp: wf_world_def example_world_def ent_def split: if_splits)

lemma example_placement:
  "fst (link_materialize [''a''] [''b''] OverlayLower example_world) = Inr Hardlink"
  "fst (link_materialize [''a''] [''b''] PrivateInode example_world) = Inr Copy"
  by code_simp+

lemma example_content: "content example_world [''a''] = Some [104, 105]"
  by (simp add: content_def ent_def example_world_def)

theorem link_placement_is_safe_witness:
  "content (snd (link_materialize [''a''] [''b''] PrivateInode example_world)) [''b''] = Some [104, 105]"
proof -
  let ?m = "link_materialize [''a''] [''b''] PrivateInode example_world"
  have "?m = (Inr Copy, snd ?m)" using example_placement(2) by (metis prod.collapse)
  from link_placement_is_safe [OF example_world_wf _ this] show ?thesis
    using example_content by simp
qed

end
