(* ===== verification/Jet_Digest.thy ===== *)
theory Jet_Digest
  imports Jet_Prelude
begin

text \<open>
  Content digests (\<open>crates/jet-core/src/digest.rs\<close>) and the domain-separation contexts of
  \<open>crates/jet-core/src/lib.rs\<close>: hashing, hex form and its parser, the fan-out directory, the
  shard function, and the streaming hasher with its length-prefixed fields.

  The crates \<open>hex\<close> and \<open>blake3\<close> are parameters: records of the functions the code calls.
  \<open>hex_ok\<close> and \<open>blake3_ok\<close> state what their documentation promises and are hypotheses where
  a theorem needs them; \<open>hex_ref\<close> and \<open>blake3_ref\<close> are concrete instances that satisfy them.
\<close>

section \<open>The hex crate\<close>

record hex_crate =
  hex_encode :: "bytes \<Rightarrow> string"
  hex_decode_to_slice :: "string \<Rightarrow> nat \<Rightarrow> bytes option"

definition HEX :: string where
  "HEX = ''0123456789abcdef''"

definition hex_pair :: "byte \<Rightarrow> string" where
  "hex_pair b = [HEX ! unat (drop_bit 4 b), HEX ! unat (b AND 0x0f)]"

text \<open>\<open>encode\<close> writes two lowercase digits per byte; \<open>decode_to_slice\<close> fills the output
  slice exactly or fails, and inverts \<open>encode\<close>.\<close>

definition hex_ok :: "hex_crate \<Rightarrow> bool" where
  "hex_ok h \<longleftrightarrow>
     (\<forall>bs. hex_encode h bs = concat (map hex_pair bs)) \<and>
     (\<forall>bs. hex_decode_to_slice h (hex_encode h bs) (length bs) = Some bs) \<and>
     (\<forall>s n bs. hex_decode_to_slice h s n = Some bs \<longrightarrow> length bs = n)"

lemma length_hex_pair [simp]: "length (hex_pair b) = 2"
  by (simp add: hex_pair_def)

lemma length_hex_pairs: "length (concat (map hex_pair bs)) = 2 * length bs"
  by (induction bs) simp_all

lemma hex_okD:
  assumes "hex_ok h"
  shows "hex_encode h bs = concat (map hex_pair bs)"
    and "hex_decode_to_slice h (hex_encode h bs) (length bs) = Some bs"
    and "hex_decode_to_slice h s n = Some cs \<Longrightarrow> length cs = n"
    and "length (hex_encode h bs) = 2 * length bs"
  using assms unfolding hex_ok_def by (blast, blast, blast, metis length_hex_pairs)

lemma unat_nibbles:
  "unat (drop_bit 4 (b :: byte)) = unat b div 16" "unat (b AND 0x0f :: byte) = unat b mod 16"
proof -
  have "b AND 0x0f = take_bit 4 b"
    by (simp add: take_bit_eq_mask mask_eq_exp_minus_1)
  then show "unat (b AND 0x0f :: byte) = unat b mod 16"
    by (simp add: take_bit_eq_mod unat_mod_distrib)
  show "unat (drop_bit 4 (b :: byte)) = unat b div 16"
    by (simp add: drop_bit_eq_div unat_div_distrib)
qed

lemma nibble_bounds: "unat (drop_bit 4 (b :: byte)) < 16" "unat (b AND 0x0f :: byte) < 16"
  using unat_byte_less [of b] unfolding unat_nibbles by simp_all

lemma nibbles_unat: "unat (drop_bit 4 (b :: byte)) * 16 + unat (b AND 0x0f :: byte) = unat b"
  unfolding unat_nibbles by simp

lemma length_HEX: "length HEX = 16"
  by (simp add: HEX_def)

lemma hex_pair_lower: "set (hex_pair b) \<subseteq> set HEX"
  using nibble_bounds [of b] by (auto simp: hex_pair_def length_HEX intro!: nth_mem)

subsection \<open>A reference instance\<close>

definition hex_digit :: "char \<Rightarrow> nat option" where
  "hex_digit c =
     (let n = of_char c :: nat in
      if 48 \<le> n \<and> n \<le> 57 then Some (n - 48)
      else if 97 \<le> n \<and> n \<le> 102 then Some (n - 87)
      else if 65 \<le> n \<and> n \<le> 70 then Some (n - 55)
      else None)"

fun hex_digits :: "string \<Rightarrow> bytes option" where
  "hex_digits [] = Some []"
| "hex_digits [c] = None"
| "hex_digits (c # d # s) =
     (case (hex_digit c, hex_digit d, hex_digits s) of
        (Some x, Some y, Some bs) \<Rightarrow> Some (of_nat (x * 16 + y) # bs)
      | _ \<Rightarrow> None)"

definition hex_ref :: hex_crate where
  "hex_ref = \<lparr>hex_encode = (\<lambda>bs. concat (map hex_pair bs)),
     hex_decode_to_slice = (\<lambda>s n. case hex_digits s of
        Some bs \<Rightarrow> if length bs = n then Some bs else None
      | None \<Rightarrow> None)\<rparr>"

lemma hex_digit_HEX_all: "list_all (\<lambda>n. hex_digit (HEX ! n) = Some n) [0..<16]"
  by code_simp

lemma hex_digit_HEX: "n < 16 \<Longrightarrow> hex_digit (HEX ! n) = Some n"
  using hex_digit_HEX_all by (simp add: list_all_iff)

lemma hex_digits_pairs: "hex_digits (concat (map hex_pair bs)) = Some bs"
proof (induction bs)
  case Nil
  then show ?case by simp
next
  case (Cons b bs)
  have "of_nat (unat (drop_bit 4 b) * 16 + unat (b AND 0x0f)) = b"
    by (simp only: nibbles_unat) simp
  with Cons nibble_bounds [of b] show ?case
    by (simp add: hex_pair_def hex_digit_HEX)
qed

lemma hex_ref_ok: "hex_ok hex_ref"
  by (auto simp: hex_ok_def hex_ref_def hex_digits_pairs split: option.splits if_splits)

section \<open>The blake3 crate\<close>

record 'h blake3_crate =
  b3_hash :: "bytes \<Rightarrow> bytes"
  b3_derive_key :: "string \<Rightarrow> bytes \<Rightarrow> bytes"
  b3_keyed_hash :: "bytes \<Rightarrow> bytes \<Rightarrow> bytes"
  b3_new :: 'h
  b3_new_keyed :: "bytes \<Rightarrow> 'h"
  b3_update :: "'h \<Rightarrow> bytes \<Rightarrow> 'h"
  b3_finalize :: "'h \<Rightarrow> bytes"

text \<open>Digests are 32 bytes, and the incremental hasher computes the one-shot function of
  the concatenation of its inputs, whatever their boundaries.\<close>

definition blake3_ok :: "'h blake3_crate \<Rightarrow> bool" where
  "blake3_ok b \<longleftrightarrow>
     (\<forall>m. length (b3_hash b m) = 32) \<and>
     (\<forall>k m. length (b3_keyed_hash b k m) = 32) \<and>
     (\<forall>ms. b3_finalize b (foldl (b3_update b) (b3_new b) ms) = b3_hash b (concat ms)) \<and>
     (\<forall>k ms. b3_finalize b (foldl (b3_update b) (b3_new_keyed b k) ms) =
        b3_keyed_hash b k (concat ms))"

text \<open>An instance for evaluation: the hasher keeps its input, a digest is the (key and)
  input cut or padded to 32 bytes.\<close>

definition pad32 :: "bytes \<Rightarrow> bytes" where
  "pad32 m = take 32 (m @ replicate 32 0)"

definition blake3_ref :: "(bytes \<times> bytes) blake3_crate" where
  "blake3_ref = \<lparr>b3_hash = pad32,
     b3_derive_key = (\<lambda>c m. pad32 (bytes_of (drop 7 c) @ m)),
     b3_keyed_hash = (\<lambda>k m. pad32 (take 1 k @ m)),
     b3_new = ([], []),
     b3_new_keyed = (\<lambda>k. (take 1 k, [])),
     b3_update = (\<lambda>(k, m) x. (k, m @ x)),
     b3_finalize = (\<lambda>(k, m). pad32 (k @ m))\<rparr>"

lemma length_pad32 [simp]: "length (pad32 m) = 32"
  by (simp add: pad32_def)

lemma blake3_ref_foldl:
  "foldl (\<lambda>(k, m) x. (k, m @ x)) (k, m) ms = (k, m @ concat ms)"
  by (induction ms arbitrary: m) simp_all

lemma blake3_ref_ok: "blake3_ok blake3_ref"
  by (simp add: blake3_ok_def blake3_ref_def blake3_ref_foldl)

section \<open>Digests\<close>

definition DIGEST_LEN :: nat where "DIGEST_LEN = 32"
definition DIGEST_PREFIX :: string where "DIGEST_PREFIX = ''b3:''"

datatype digest = Digest (as_bytes: bytes)

definition wf_digest :: "digest \<Rightarrow> bool" where
  "wf_digest d \<longleftrightarrow> length (as_bytes d) = DIGEST_LEN"

datatype DigestParseError = BadLength nat nat | NotHex

definition ZERO :: digest where
  "ZERO = Digest (replicate DIGEST_LEN 0)"

definition digest_of :: "'h blake3_crate \<Rightarrow> bytes \<Rightarrow> digest" where
  "digest_of b m = Digest (b3_hash b m)"

definition digest_keyed :: "'h blake3_crate \<Rightarrow> string \<Rightarrow> bytes \<Rightarrow> digest" where
  "digest_keyed b ctx m = (let key = b3_derive_key b ctx [] in Digest (b3_keyed_hash b key m))"

definition is_zero :: "digest \<Rightarrow> bool" where
  "is_zero d \<longleftrightarrow> as_bytes d = replicate DIGEST_LEN 0"

definition to_hex :: "hex_crate \<Rightarrow> digest \<Rightarrow> string" where
  "to_hex h d = hex_encode h (as_bytes d)"

definition to_prefixed :: "hex_crate \<Rightarrow> digest \<Rightarrow> string" where
  "to_prefixed h d = DIGEST_PREFIX @ to_hex h d"

definition fanout :: "digest \<Rightarrow> string" where
  "fanout d = [HEX ! unat (drop_bit 4 (as_bytes d ! 0)), HEX ! unat (as_bytes d ! 0 AND 0x0f)]"

text \<open>\<open>usize::is_power_of_two\<close>; \<open>usize\<close> is 64 bits wide on the supported targets.\<close>

definition is_power_of_two :: "64 word \<Rightarrow> bool" where
  "is_power_of_two w \<longleftrightarrow> (\<exists>k \<in> set [0..<64]. w = 2 ^ k)"

definition shard_head :: "digest \<Rightarrow> 64 word" where
  "shard_head d = le_u64 (take 8 (as_bytes d))"

text \<open>\<open>None\<close> is the panic of the assertion on \<open>n_shards\<close>.\<close>

definition shard :: "digest \<Rightarrow> 64 word \<Rightarrow> 64 word option" where
  "shard d n_shards =
     (if n_shards = 0 then None
      else if is_power_of_two n_shards then Some (shard_head d AND (n_shards - 1))
      else Some (shard_head d mod n_shards))"

definition digest_parse :: "hex_crate \<Rightarrow> string \<Rightarrow> DigestParseError + digest" where
  "digest_parse h s =
     (let hexpart = unwrap_or (strip_prefix DIGEST_PREFIX s) s in
      if length hexpart \<noteq> DIGEST_LEN * 2
      then Inl (BadLength (DIGEST_LEN * 2) (length hexpart))
      else case hex_decode_to_slice h hexpart DIGEST_LEN of
             None \<Rightarrow> Inl NotHex
           | Some out \<Rightarrow> Inr (Digest out))"

text \<open>\<open>Display\<close>, \<open>Debug\<close> (the ellipsis is the three bytes of U+2026) and the serde string form.\<close>

definition digest_display :: "hex_crate \<Rightarrow> digest \<Rightarrow> string" where
  "digest_display h d = to_hex h d"

definition digest_debug :: "hex_crate \<Rightarrow> digest \<Rightarrow> string" where
  "digest_debug h d = DIGEST_PREFIX @ take 12 (to_hex h d) @ string_of [0xE2, 0x80, 0xA6]"

definition digest_serialize :: "hex_crate \<Rightarrow> digest \<Rightarrow> string" where
  "digest_serialize h d = to_hex h d"

definition digest_deserialize :: "hex_crate \<Rightarrow> string \<Rightarrow> DigestParseError + digest" where
  "digest_deserialize h v = digest_parse h v"

section \<open>The streaming hasher\<close>

definition hasher_new :: "'h blake3_crate \<Rightarrow> 'h" where
  "hasher_new b = b3_new b"

definition hasher_keyed :: "'h blake3_crate \<Rightarrow> string \<Rightarrow> 'h" where
  "hasher_keyed b ctx = (let key = b3_derive_key b ctx [] in b3_new_keyed b key)"

definition hasher_update :: "'h blake3_crate \<Rightarrow> 'h \<Rightarrow> bytes \<Rightarrow> 'h" where
  "hasher_update b s m = b3_update b s m"

definition hasher_update_framed :: "'h blake3_crate \<Rightarrow> 'h \<Rightarrow> bytes \<Rightarrow> 'h" where
  "hasher_update_framed b s m =
     b3_update b (b3_update b s (u64_le (of_nat (length m)))) m"

definition hasher_finalize :: "'h blake3_crate \<Rightarrow> 'h \<Rightarrow> digest" where
  "hasher_finalize b s = Digest (b3_finalize b s)"

section \<open>Domain-separation contexts\<close>

definition ctx_BLOB :: string where "ctx_BLOB = ''jetrun.blob.v1''"
definition ctx_TREE :: string where "ctx_TREE = ''jetrun.tree.v1''"
definition ctx_STEP_IDENTITY :: string where "ctx_STEP_IDENTITY = ''jetrun.step-identity.v1''"
definition ctx_ACTION_KEY :: string where "ctx_ACTION_KEY = ''jetrun.action-key.v1''"
definition ctx_INPUT_MANIFEST :: string where "ctx_INPUT_MANIFEST = ''jetrun.input-manifest.v1''"
definition ctx_VOLUME_VERSION :: string where "ctx_VOLUME_VERSION = ''jetrun.volume-version.v1''"

lemmas ctx_defs = ctx_BLOB_def ctx_TREE_def ctx_STEP_IDENTITY_def ctx_ACTION_KEY_def
  ctx_INPUT_MANIFEST_def ctx_VOLUME_VERSION_def

section \<open>Lemmas\<close>

lemma hexpart_to_hex:
  assumes "hex_ok h" "wf_digest d"
  shows "unwrap_or (strip_prefix DIGEST_PREFIX (to_hex h d)) (to_hex h d) = to_hex h d"
proof -
  obtain x xs where d: "as_bytes d = x # xs"
    using assms(2) by (cases "as_bytes d") (auto simp: wf_digest_def DIGEST_LEN_def)
  obtain c0 c1 where pair: "hex_pair x = [c0, c1]"
    by (auto simp: hex_pair_def)
  have "to_hex h d = c0 # c1 # concat (map hex_pair xs)"
    using hex_okD(1) [OF assms(1)] d pair by (simp add: to_hex_def)
  then show ?thesis
  proof (cases xs)
    case Nil
    with assms(2) d show ?thesis by (simp add: wf_digest_def DIGEST_LEN_def)
  next
    case (Cons y ys)
    obtain e0 e1 where "hex_pair y = [e0, e1]" and "e0 \<in> set HEX"
      using hex_pair_lower [of y] by (auto simp: hex_pair_def)
    moreover have "CHR '':'' \<notin> set HEX" by (simp add: HEX_def)
    ultimately have "strip_prefix DIGEST_PREFIX (to_hex h d) = None"
      using \<open>to_hex h d = _\<close> Cons by (auto simp: DIGEST_PREFIX_def)
    then show ?thesis by simp
  qed
qed

lemma digest_parse_to_hex:
  assumes "hex_ok h" "wf_digest d"
  shows "digest_parse h (to_hex h d) = Inr d"
  using hexpart_to_hex [OF assms] assms hex_okD(2,4) [OF assms(1), of "as_bytes d"]
  by (simp add: digest_parse_def Let_def wf_digest_def to_hex_def DIGEST_LEN_def)

lemma digest_parse_to_prefixed:
  assumes "hex_ok h" "wf_digest d"
  shows "digest_parse h (to_prefixed h d) = Inr d"
  using assms hex_okD(2,4) [OF assms(1), of "as_bytes d"]
  by (simp add: digest_parse_def Let_def to_prefixed_def wf_digest_def to_hex_def DIGEST_LEN_def)

lemma to_hex_inject:
  assumes "hex_ok h" "wf_digest d" "wf_digest e" "to_hex h d = to_hex h e"
  shows "d = e"
  by (metis assms digest_parse_to_hex sum.inject(2))

lemma length_to_hex: "hex_ok h \<Longrightarrow> wf_digest d \<Longrightarrow> length (to_hex h d) = 64"
  using hex_okD(4) [of h "as_bytes d"] by (simp add: to_hex_def wf_digest_def DIGEST_LEN_def)

lemma digest_parse_wf: "hex_ok h \<Longrightarrow> digest_parse h s = Inr d \<Longrightarrow> wf_digest d"
  by (auto simp: digest_parse_def Let_def wf_digest_def split: if_splits option.splits
      dest: hex_okD(3))

lemma wf_digest_keyed: "blake3_ok b \<Longrightarrow> wf_digest (digest_keyed b ctx m)"
  by (simp add: digest_keyed_def wf_digest_def blake3_ok_def DIGEST_LEN_def Let_def)

lemma hasher_one_update:
  "blake3_ok b \<Longrightarrow>
   hasher_finalize b (hasher_update b (hasher_keyed b ctx) m) = digest_keyed b ctx m"
proof -
  assume "blake3_ok b"
  then have "b3_finalize b (foldl (b3_update b) (b3_new_keyed b k) [m]) =
      b3_keyed_hash b k (concat [m])" for k
    unfolding blake3_ok_def by blast
  then show ?thesis
    by (simp add: hasher_finalize_def hasher_update_def hasher_keyed_def digest_keyed_def Let_def)
qed

lemma foldl_framed:
  "foldl (hasher_update_framed b) s fs =
   foldl (b3_update b) s (concat (map (\<lambda>f. [u64_le (of_nat (length f)), f]) fs))"
  by (induction fs arbitrary: s) (simp_all add: hasher_update_framed_def)

text \<open>The bytes a sequence of framed fields feeds to the hash.\<close>

definition framed :: "bytes list \<Rightarrow> bytes" where
  "framed fs = concat (map (\<lambda>f. u64_le (of_nat (length f)) @ f) fs)"

lemma concat_framed:
  "concat (concat (map (\<lambda>f. [u64_le (of_nat (length f)), f]) fs)) = framed fs"
  by (induction fs) (simp_all add: framed_def)

lemma u64_le_of_nat_inject:
  "n < 2 ^ 64 \<Longrightarrow> m < 2 ^ 64 \<Longrightarrow> u64_le (of_nat n) = u64_le (of_nat m) \<Longrightarrow> n = m"
proof -
  assume bounds: "n < 2 ^ 64" "m < 2 ^ 64" and eq: "u64_le (of_nat n) = u64_le (of_nat m)"
  from eq have "(of_nat n :: 64 word) = of_nat m"
    by (metis le_uN_uN_le(3))
  then have "unat (of_nat n :: 64 word) = unat (of_nat m :: 64 word)" by simp
  with bounds show "n = m" by (simp add: unat_of_nat take_bit_eq_mod)
qed

lemma framed_Cons_not_Nil [simp]:
  "framed [] = []" "framed (f # fs) \<noteq> []" "[] \<noteq> framed (f # fs)"
proof -
  have "length (framed (f # fs)) \<noteq> 0" by (simp add: framed_def)
  then show "framed (f # fs) \<noteq> []" "[] \<noteq> framed (f # fs)" by fastforce+
qed (simp add: framed_def)

lemma framed_inject_aux:
  assumes "\<forall>f \<in> set fs. length f < 2 ^ 64" "\<forall>g \<in> set gs. length g < 2 ^ 64"
    and "framed fs = framed gs"
  shows "fs = gs"
  using assms
proof (induction fs arbitrary: gs)
  case Nil
  then show ?case by (cases gs) (simp_all add: framed_Cons_not_Nil)
next
  case (Cons f fs)
  then obtain g gs' where gs: "gs = g # gs'"
    by (cases gs) (simp_all add: framed_Cons_not_Nil)
  have eq: "u64_le (of_nat (length f)) @ f @ framed fs =
      u64_le (of_nat (length g)) @ g @ framed gs'"
    using Cons.prems(3) gs by (simp add: framed_def)
  then have "u64_le (of_nat (length f)) = u64_le (of_nat (length g))"
    and rest: "f @ framed fs = g @ framed gs'"
    by (simp_all add: append_eq_append_conv)
  then have "length f = length g"
    using Cons.prems(1,2) gs by (intro u64_le_of_nat_inject) auto
  with rest have "f = g" "framed fs = framed gs'" by simp_all
  with Cons gs show ?case by simp
qed

lemma shard_head_mask:
  "k < 64 \<Longrightarrow> (x :: 64 word) AND (2 ^ k - 1) = x mod 2 ^ k"
  by (simp add: take_bit_eq_mask [symmetric] mask_eq_exp_minus_1 [symmetric] take_bit_eq_mod)

section \<open>Properties\<close>

text \<open>A digest printed as hex, with or without the \<open>b3:\<close> prefix, parses back to itself,
  and every string the parser accepts denotes a digest of exactly 32 bytes; a string of any
  other length is refused with the length found.\<close>

theorem digest_parse_roundtrip:
  assumes "hex_ok h" and "wf_digest d"
  shows "digest_parse h (to_hex h d) = Inr d \<and> digest_parse h (to_prefixed h d) = Inr d \<and>
    digest_deserialize h (digest_serialize h d) = Inr d \<and>
    (\<forall>s e. digest_parse h s = Inr e \<longrightarrow> wf_digest e) \<and>
    (\<forall>s. strip_prefix DIGEST_PREFIX s = None \<and> length s \<noteq> 64 \<longrightarrow>
       digest_parse h s = Inl (BadLength 64 (length s)))"
  using digest_parse_to_hex [OF assms] digest_parse_to_prefixed [OF assms]
    digest_parse_wf [OF assms(1)]
  by (auto simp: digest_deserialize_def digest_serialize_def)
    (simp add: digest_parse_def DIGEST_LEN_def)

theorem digest_parse_roundtrip_witness:
  "digest_parse hex_ref (to_prefixed hex_ref ZERO) = Inr ZERO"
proof -
  have "wf_digest ZERO" by (simp add: wf_digest_def ZERO_def)
  from digest_parse_roundtrip [OF hex_ref_ok this] show ?thesis by blast
qed

text \<open>Composite keys are unambiguous: what \<open>update_framed\<close> feeds to the hash for a
  sequence of fields determines the sequence, and the streaming keyed hasher over framed
  fields is the one-shot keyed hash of those bytes.\<close>

theorem framed_unambiguous:
  assumes "blake3_ok b"
    and "\<forall>f \<in> set fs. length f < 2 ^ 64" and "\<forall>g \<in> set gs. length g < 2 ^ 64"
  shows "(framed fs = framed gs \<longleftrightarrow> fs = gs) \<and>
    hasher_finalize b (foldl (hasher_update_framed b) (hasher_keyed b ctx) fs) =
      digest_keyed b ctx (framed fs)"
proof
  show "framed fs = framed gs \<longleftrightarrow> fs = gs"
    using framed_inject_aux [OF assms(2,3)] by auto
  show "hasher_finalize b (foldl (hasher_update_framed b) (hasher_keyed b ctx) fs) =
      digest_keyed b ctx (framed fs)"
    using assms(1)
    by (simp add: hasher_finalize_def foldl_framed hasher_keyed_def digest_keyed_def Let_def
        blake3_ok_def concat_framed)
qed

theorem framed_unambiguous_witness:
  "framed [bytes_of ''ab'', bytes_of ''c''] \<noteq> framed [bytes_of ''a'', bytes_of ''bc'']"
proof -
  have "framed [bytes_of ''ab'', bytes_of ''c''] = framed [bytes_of ''a'', bytes_of ''bc''] \<longleftrightarrow>
      [bytes_of ''ab'', bytes_of ''c''] = [bytes_of ''a'', bytes_of ''bc'']"
    by (rule framed_unambiguous [OF blake3_ref_ok, THEN conjunct1]) simp_all
  then show ?thesis by simp
qed

text \<open>The shard of a digest is its little-endian 64-bit head modulo the number of
  shards: the mask taken for a power of two agrees with the division, the result is always
  in range, and only \<open>n_shards = 0\<close> panics.\<close>

theorem shard_is_head_mod:
  "shard d n = (if n = 0 then None else Some (shard_head d mod n)) \<and>
   (\<forall>s. shard d n = Some s \<longrightarrow> s < n)"
proof -
  have "shard d n = (if n = 0 then None else Some (shard_head d mod n))"
    by (auto simp: shard_def is_power_of_two_def shard_head_mask)
  moreover have "n \<noteq> 0 \<Longrightarrow> shard_head d mod n < n"
    by (simp add: word_mod_less_divisor word_neq_0_conv)
  ultimately show ?thesis by auto
qed

theorem shard_is_head_mod_witness:
  "shard (Digest ([7, 1, 0, 0, 0, 0, 0, 0] @ replicate 24 0)) 8 = Some 7 \<and>
   shard (Digest ([7, 1, 0, 0, 0, 0, 0, 0] @ replicate 24 0)) 6 = Some 5"
proof -
  have "shard_head (Digest ([7, 1, 0, 0, 0, 0, 0, 0] @ replicate 24 0)) = 263"
    by (simp add: shard_head_def le_u64_def)
  then show ?thesis
    using shard_is_head_mod [of "Digest ([7, 1, 0, 0, 0, 0, 0, 0] @ replicate 24 0)" 8]
      shard_is_head_mod [of "Digest ([7, 1, 0, 0, 0, 0, 0, 0] @ replicate 24 0)" 6]
    by simp
qed

end
