(* ===== verification/Jet_Tree.thy ===== *)
theory Jet_Tree
  imports Jet_Digest
begin

text \<open>
  Directory manifests (\<open>crates/jet-cas/src/tree.rs\<close>): validated entry names, nodes, the
  sorted entry map, the canonical binary encoding and its bounds-checked decoder. A manifest
  may come from a hostile peer, so the decoder is verified on every byte string: it fails
  with an error value or returns a tree that satisfies \<open>wf_tree\<close>.

  The locale \<open>cursor_codec\<close> is the contract between a field's encoder and the cursor reader
  of \<open>Reader\<close>; the integer fields and the whole entry are interpretations of it.
\<close>

section \<open>Names and nodes\<close>

definition TREE_FORMAT_VERSION :: "16 word" where "TREE_FORMAT_VERSION = 1"
definition TAG_FILE :: byte where "TAG_FILE = 1"
definition TAG_DIR :: byte where "TAG_DIR = 2"
definition TAG_SYMLINK :: byte where "TAG_SYMLINK = 3"
definition FLAG_EXECUTABLE :: byte where "FLAG_EXECUTABLE = 1"
definition NAME_MAX :: nat where "NAME_MAX = 255"

lemmas tag_defs = TAG_FILE_def TAG_DIR_def TAG_SYMLINK_def

datatype TreeError =
    EmptyName | NameTooLong nat | DotName string | NameHasSeparator string
  | NameHasNul string | NameNotUtf8 | DuplicateName string | EmptySymlinkTarget
  | UnsupportedVersion "16 word" | UnknownTag byte | Truncated | TrailingBytes nat

datatype EntryName = EntryName (en_str: string)

text \<open>The derived order of the newtype: byte-lexicographic on the name.\<close>

instantiation EntryName :: linorder
begin

definition less_eq_EntryName :: "EntryName \<Rightarrow> EntryName \<Rightarrow> bool" where
  "a \<le> b \<longleftrightarrow> en_str a \<le> en_str b"

definition less_EntryName :: "EntryName \<Rightarrow> EntryName \<Rightarrow> bool" where
  "a < b \<longleftrightarrow> en_str a < en_str b"

instance
  by standard (auto simp: less_eq_EntryName_def less_EntryName_def intro: EntryName.expand)

end

definition entry_name_new :: "string \<Rightarrow> TreeError + EntryName" where
  "entry_name_new name =
     (if name = [] then Inl EmptyName
      else if length name > NAME_MAX then Inl (NameTooLong (length name))
      else if name = ''.'' \<or> name = ''..'' then Inl (DotName name)
      else if CHR ''/'' \<in> set name then Inl (NameHasSeparator name)
      else if CHR 0x00 \<in> set name then Inl (NameHasNul name)
      else Inr (EntryName name))"

datatype Node =
    NodeFile digest "64 word" bool
  | NodeDir digest
  | NodeSymlink string

fun node_tag :: "Node \<Rightarrow> byte" where
  "node_tag (NodeFile _ _ _) = TAG_FILE"
| "node_tag (NodeDir _) = TAG_DIR"
| "node_tag (NodeSymlink _) = TAG_SYMLINK"

section \<open>Trees\<close>

type_synonym Tree = "(EntryName \<times> Node) list"

definition tree_new :: Tree where
  "tree_new = []"

definition tree_insert :: "EntryName \<Rightarrow> Node \<Rightarrow> Tree \<Rightarrow> Node option \<times> Tree" where
  "tree_insert name node t = (map_of t name, bt_insert name node t)"

definition tree_get :: "Tree \<Rightarrow> string \<Rightarrow> Node option" where
  "tree_get t name = map_option snd (find (\<lambda>(k, _). en_str k = name) t)"

definition tree_len :: "Tree \<Rightarrow> nat" where
  "tree_len t = length t"

definition tree_is_empty :: "Tree \<Rightarrow> bool" where
  "tree_is_empty t \<longleftrightarrow> t = []"

definition tree_iter :: "Tree \<Rightarrow> (EntryName \<times> Node) list" where
  "tree_iter t = t"

definition blob_digests :: "Tree \<Rightarrow> digest list" where
  "blob_digests t =
     List.map_filter (\<lambda>(_, n). case n of NodeFile d _ _ \<Rightarrow> Some d | _ \<Rightarrow> None) t"

definition subtree_digests :: "Tree \<Rightarrow> digest list" where
  "subtree_digests t =
     List.map_filter (\<lambda>(_, n). case n of NodeDir d \<Rightarrow> Some d | _ \<Rightarrow> None) t"

section \<open>Encoding\<close>

fun encode_payload :: "Node \<Rightarrow> bytes" where
  "encode_payload (NodeFile d sz executable) =
     as_bytes d @ u64_le sz @ [if executable then FLAG_EXECUTABLE else 0]"
| "encode_payload (NodeDir d) = as_bytes d"
| "encode_payload (NodeSymlink target) =
     (let tb = bytes_of target in u16_le (of_nat (length tb)) @ tb)"

fun encode_entry :: "EntryName \<times> Node \<Rightarrow> bytes" where
  "encode_entry (name, node) =
     (let nb = bytes_of (en_str name) in
      [node_tag node] @ u16_le (of_nat (length nb)) @ nb @ encode_payload node)"

definition tree_encode :: "Tree \<Rightarrow> bytes" where
  "tree_encode t =
     u16_le TREE_FORMAT_VERSION @ u32_le (of_nat (length t)) @ concat (map encode_entry t)"

section \<open>The reader\<close>

record reader =
  rd_b :: bytes
  rd_at :: nat

text \<open>\<open>checked_add\<close> on \<open>usize\<close>, then the bounds-checked slice.\<close>

definition usize_overflows :: "nat \<Rightarrow> bool" where
  "usize_overflows n \<longleftrightarrow> (2 :: int) ^ 64 \<le> int n"

lemma usize_overflows_iff [simp]: "usize_overflows n \<longleftrightarrow> 2 ^ 64 \<le> n"
  unfolding usize_overflows_def by (metis of_nat_le_iff of_nat_numeral of_nat_power)

definition rd_take :: "reader \<Rightarrow> nat \<Rightarrow> TreeError + bytes \<times> reader" where
  "rd_take r n =
     (let e = rd_at r + n in
      if usize_overflows e then Inl Truncated
      else if e \<le> length (rd_b r)
           then Inr (take n (drop (rd_at r) (rd_b r)), r\<lparr>rd_at := e\<rparr>)
           else Inl Truncated)"

definition rd_u8 :: "reader \<Rightarrow> TreeError + byte \<times> reader" where
  "rd_u8 r = rbind (rd_take r 1) (\<lambda>(s, r'). Inr (s ! 0, r'))"

definition rd_u16 :: "reader \<Rightarrow> TreeError + 16 word \<times> reader" where
  "rd_u16 r = rbind (rd_take r 2) (\<lambda>(s, r'). Inr (le_u16 s, r'))"

definition rd_u32 :: "reader \<Rightarrow> TreeError + 32 word \<times> reader" where
  "rd_u32 r = rbind (rd_take r 4) (\<lambda>(s, r'). Inr (le_u32 s, r'))"

definition rd_u64 :: "reader \<Rightarrow> TreeError + 64 word \<times> reader" where
  "rd_u64 r = rbind (rd_take r 8) (\<lambda>(s, r'). Inr (le_u64 s, r'))"

definition rd_remaining :: "reader \<Rightarrow> nat" where
  "rd_remaining r = length (rd_b r) - rd_at r"

definition rd_is_exhausted :: "reader \<Rightarrow> bool" where
  "rd_is_exhausted r \<longleftrightarrow> rd_at r = length (rd_b r)"

section \<open>Decoding\<close>

definition decode_node :: "byte \<Rightarrow> reader \<Rightarrow> TreeError + Node \<times> reader" where
  "decode_node tag r =
     (if tag = TAG_FILE then
        rbind (rd_take r DIGEST_LEN) (\<lambda>(d, r1).
        rbind (rd_u64 r1) (\<lambda>(sz, r2).
        rbind (rd_u8 r2) (\<lambda>(flags, r3).
        Inr (NodeFile (Digest d) sz (flags AND FLAG_EXECUTABLE \<noteq> 0), r3))))
      else if tag = TAG_DIR then
        rbind (rd_take r DIGEST_LEN) (\<lambda>(d, r1). Inr (NodeDir (Digest d), r1))
      else if tag = TAG_SYMLINK then
        rbind (rd_u16 r) (\<lambda>(n, r1).
        rbind (rd_take r1 (unat n)) (\<lambda>(tb, r2).
        rbind (ok_or (from_utf8 tb) NameNotUtf8) (\<lambda>target.
        if target = [] then Inl EmptySymlinkTarget else Inr (NodeSymlink target, r2))))
      else Inl (UnknownTag tag))"

definition decode_entry :: "reader \<Rightarrow> TreeError + (EntryName \<times> Node) \<times> reader" where
  "decode_entry r =
     rbind (rd_u8 r) (\<lambda>(tag, r1).
     rbind (rd_u16 r1) (\<lambda>(name_len, r2).
     rbind (rd_take r2 (unat name_len)) (\<lambda>(nb, r3).
     rbind (ok_or (from_utf8 nb) NameNotUtf8) (\<lambda>s.
     rbind (entry_name_new s) (\<lambda>name.
     rbind (decode_node tag r3) (\<lambda>(node, r4).
     Inr ((name, node), r4)))))))"

fun decode_entries :: "nat \<Rightarrow> reader \<Rightarrow> Tree \<Rightarrow> TreeError + Tree \<times> reader" where
  "decode_entries 0 r acc = Inr (acc, r)"
| "decode_entries (Suc n) r acc =
     rbind (decode_entry r) (\<lambda>((name, node), r').
     if map_of acc name \<noteq> None then Inl (DuplicateName (en_str name))
     else decode_entries n r' (bt_insert name node acc))"

definition tree_decode :: "bytes \<Rightarrow> TreeError + Tree" where
  "tree_decode bs =
     rbind (rd_u16 \<lparr>rd_b = bs, rd_at = 0\<rparr>) (\<lambda>(version, r1).
     if version \<noteq> TREE_FORMAT_VERSION then Inl (UnsupportedVersion version)
     else rbind (rd_u32 r1) (\<lambda>(count, r2).
     if unat count > rd_remaining r2 then Inl Truncated
     else rbind (decode_entries (unat count) r2 []) (\<lambda>(entries, r3).
     if \<not> rd_is_exhausted r3 then Inl (TrailingBytes (rd_remaining r3))
     else Inr entries)))"

definition tree_digest :: "'h blake3_crate \<Rightarrow> Tree \<Rightarrow> digest" where
  "tree_digest b t = hasher_finalize b (hasher_update b (hasher_keyed b ctx_TREE) (tree_encode t))"

section \<open>Well-formedness\<close>

definition safe_name :: "string \<Rightarrow> bool" where
  "safe_name s \<longleftrightarrow> s \<noteq> [] \<and> length s \<le> NAME_MAX \<and> s \<noteq> ''.'' \<and> s \<noteq> ''..'' \<and>
     CHR ''/'' \<notin> set s \<and> CHR 0x00 \<notin> set s"

text \<open>What the Rust types guarantee of a tree: validated names, UTF-8 strings, 32-byte
  digests, strictly increasing keys.\<close>

fun wf_node :: "Node \<Rightarrow> bool" where
  "wf_node (NodeFile d _ _) = wf_digest d"
| "wf_node (NodeDir d) = wf_digest d"
| "wf_node (NodeSymlink target) = utf8_valid (bytes_of target)"

definition wf_entry :: "EntryName \<times> Node \<Rightarrow> bool" where
  "wf_entry e \<longleftrightarrow> safe_name (en_str (fst e)) \<and> utf8_valid (bytes_of (en_str (fst e))) \<and>
     wf_node (snd e)"

definition wf_tree :: "Tree \<Rightarrow> bool" where
  "wf_tree t \<longleftrightarrow> bt_sorted t \<and> (\<forall>e \<in> set t. wf_entry e)"

text \<open>What the encoding needs beyond that: a symlink target is not empty and its length fits
  the 16-bit prefix (the kernel's limit is 4096 bytes).\<close>

fun target_fits :: "Node \<Rightarrow> bool" where
  "target_fits (NodeSymlink target) = (target \<noteq> [] \<and> length target < 2 ^ 16)"
| "target_fits _ = True"

definition good_entry :: "EntryName \<times> Node \<Rightarrow> bool" where
  "good_entry e \<longleftrightarrow> wf_entry e \<and> target_fits (snd e)"

definition good_tree :: "Tree \<Rightarrow> bool" where
  "good_tree t \<longleftrightarrow> wf_tree t \<and> (\<forall>e \<in> set t. target_fits (snd e)) \<and> length t < 2 ^ 32"

section \<open>The cursor contract\<close>

text \<open>A reader in the middle of its input: \<open>p\<close> was consumed, \<open>q\<close> is left.\<close>

definition rd :: "bytes \<Rightarrow> bytes \<Rightarrow> reader" where
  "rd p q = \<lparr>rd_b = p @ q, rd_at = length p\<rparr>"

locale cursor_codec =
  fixes enc :: "'a \<Rightarrow> bytes"
    and dec :: "reader \<Rightarrow> TreeError + 'a \<times> reader"
    and good :: "'a \<Rightarrow> bool"
  assumes dec_enc: "good x \<Longrightarrow> length (p @ enc x @ q) < 2 ^ 64 \<Longrightarrow>
      dec (rd p (enc x @ q)) = Inr (x, rd (p @ enc x) q)"
    and dec_sound: "dec (rd p q) = Inr (x, r') \<Longrightarrow>
      good x \<and> (\<exists>s q'. q = s @ q' \<and> r' = rd (p @ s) q' \<and> length s = length (enc x))"
begin

lemma enc_prefix_free:
  assumes "good x" "good y" "enc x @ p = enc y @ q" "length (enc x @ p) < 2 ^ 64"
  shows "x = y \<and> p = q"
proof -
  have "dec (rd [] (enc x @ p)) = Inr (x, rd (enc x) p)"
    using dec_enc [of x "[]" p] assms by simp
  moreover have "dec (rd [] (enc y @ q)) = Inr (y, rd (enc y) q)"
    using dec_enc [of y "[]" q] assms by simp
  ultimately have "x = y" using assms(3) by simp
  with assms(3) show ?thesis by simp
qed

lemma enc_inject:
  "good x \<Longrightarrow> good y \<Longrightarrow> enc x = enc y \<Longrightarrow> length (enc x) < 2 ^ 64 \<Longrightarrow> x = y"
  using enc_prefix_free [of x y "[]" "[]"] by simp

end

lemma rd_take_exact:
  "length s = n \<Longrightarrow> length (p @ s @ q) < 2 ^ 64 \<Longrightarrow> rd_take (rd p (s @ q)) n = Inr (s, rd (p @ s) q)"
  by (auto simp: rd_take_def rd_def Let_def)

lemma rd_take_sound:
  assumes "rd_take (rd p q) n = Inr (s, r')"
  shows "length s = n \<and> (\<exists>q'. q = s @ q' \<and> r' = rd (p @ s) q')"
proof -
  from assms have n: "n \<le> length q" and s: "s = take n q" and r': "r' = (rd p q)\<lparr>rd_at := length p + n\<rparr>"
    by (auto simp: rd_take_def rd_def Let_def split: if_splits)
  then have "q = s @ drop n q" "r' = rd (p @ s) (drop n q)" "length s = n"
    by (simp_all add: rd_def)
  then show ?thesis by blast
qed

interpretation u8: cursor_codec "\<lambda>b. [b]" rd_u8 "\<lambda>_. True"
proof
  fix p q and x :: byte assume "length (p @ [x] @ q) < 2 ^ 64"
  then show "rd_u8 (rd p ([x] @ q)) = Inr (x, rd (p @ [x]) q)"
    using rd_take_exact [of "[x]" 1 p q] by (simp add: rd_u8_def)
next
  fix p q r' and x :: byte assume "rd_u8 (rd p q) = Inr (x, r')"
  then show "True \<and> (\<exists>s q'. q = s @ q' \<and> r' = rd (p @ s) q' \<and> length s = length [x])"
    by (auto simp: rd_u8_def jet_simps dest!: rd_take_sound)
qed

interpretation u16: cursor_codec u16_le rd_u16 "\<lambda>_. True"
proof
  fix p q x assume "length (p @ u16_le x @ q) < 2 ^ 64"
  then show "rd_u16 (rd p (u16_le x @ q)) = Inr (x, rd (p @ u16_le x) q)"
    using rd_take_exact [of "u16_le x" 2 p q] by (simp add: rd_u16_def)
next
  fix p q r' x assume "rd_u16 (rd p q) = Inr (x, r')"
  then show "True \<and> (\<exists>s q'. q = s @ q' \<and> r' = rd (p @ s) q' \<and> length s = length (u16_le x))"
    by (auto simp: rd_u16_def jet_simps dest!: rd_take_sound)
qed

interpretation u32: cursor_codec u32_le rd_u32 "\<lambda>_. True"
proof
  fix p q x assume "length (p @ u32_le x @ q) < 2 ^ 64"
  then show "rd_u32 (rd p (u32_le x @ q)) = Inr (x, rd (p @ u32_le x) q)"
    using rd_take_exact [of "u32_le x" 4 p q] by (simp add: rd_u32_def)
next
  fix p q r' x assume "rd_u32 (rd p q) = Inr (x, r')"
  then show "True \<and> (\<exists>s q'. q = s @ q' \<and> r' = rd (p @ s) q' \<and> length s = length (u32_le x))"
    by (auto simp: rd_u32_def jet_simps dest!: rd_take_sound)
qed

interpretation u64: cursor_codec u64_le rd_u64 "\<lambda>_. True"
proof
  fix p q x assume "length (p @ u64_le x @ q) < 2 ^ 64"
  then show "rd_u64 (rd p (u64_le x @ q)) = Inr (x, rd (p @ u64_le x) q)"
    using rd_take_exact [of "u64_le x" 8 p q] by (simp add: rd_u64_def)
next
  fix p q r' x assume "rd_u64 (rd p q) = Inr (x, r')"
  then show "True \<and> (\<exists>s q'. q = s @ q' \<and> r' = rd (p @ s) q' \<and> length s = length (u64_le x))"
    by (auto simp: rd_u64_def jet_simps dest!: rd_take_sound)
qed

section \<open>Entries\<close>

lemma entry_name_new_Inr [jet_simps]:
  "entry_name_new s = Inr n \<longleftrightarrow> n = EntryName s \<and> safe_name s"
  by (auto simp: entry_name_new_def safe_name_def split: if_splits)

lemma flag_roundtrip: "(if e then FLAG_EXECUTABLE else 0) AND FLAG_EXECUTABLE \<noteq> 0 \<longleftrightarrow> e"
  by (simp add: FLAG_EXECUTABLE_def)

lemma length_DIGEST: "wf_digest d \<Longrightarrow> length (as_bytes d) = DIGEST_LEN"
  by (simp add: wf_digest_def)

lemma unat_of_length: "length xs < 2 ^ 16 \<Longrightarrow> unat (of_nat (length xs) :: 16 word) = length xs"
  by (simp add: unat_of_nat take_bit_eq_mod)

lemma decode_node_encode:
  assumes "wf_node n" "target_fits n" "length (p @ encode_payload n @ q) < 2 ^ 64"
  shows "decode_node (node_tag n) (rd p (encode_payload n @ q)) = Inr (n, rd (p @ encode_payload n) q)"
proof (cases n)
  case (NodeFile d sz e)
  let ?f = "[if e then FLAG_EXECUTABLE else 0]"
  have d: "length (as_bytes d) = DIGEST_LEN"
    using assms(1) NodeFile by (simp add: length_DIGEST)
  have "rd_take (rd p (as_bytes d @ u64_le sz @ ?f @ q)) DIGEST_LEN
      = Inr (as_bytes d, rd (p @ as_bytes d) (u64_le sz @ ?f @ q))"
    using assms(3) NodeFile d by (intro rd_take_exact) simp_all
  moreover have "rd_u64 (rd (p @ as_bytes d) (u64_le sz @ ?f @ q))
      = Inr (sz, rd ((p @ as_bytes d) @ u64_le sz) (?f @ q))"
    using assms(3) NodeFile by (intro u64.dec_enc) simp_all
  moreover have "rd_u8 (rd ((p @ as_bytes d) @ u64_le sz) (?f @ q))
      = Inr (if e then FLAG_EXECUTABLE else 0, rd (((p @ as_bytes d) @ u64_le sz) @ ?f) q)"
    using assms(3) NodeFile by (intro u8.dec_enc) simp_all
  ultimately show ?thesis
    by (simp add: decode_node_def NodeFile FLAG_EXECUTABLE_def)
next
  case (NodeDir d)
  have "rd_take (rd p (as_bytes d @ q)) DIGEST_LEN = Inr (as_bytes d, rd (p @ as_bytes d) q)"
    using assms NodeDir by (intro rd_take_exact) (simp_all add: length_DIGEST)
  then show ?thesis
    by (simp add: decode_node_def NodeDir tag_defs)
next
  case (NodeSymlink t)
  let ?l = "u16_le (of_nat (length t))"
  have len: "length t < 2 ^ 16" and t: "t \<noteq> []" and u: "from_utf8 (bytes_of t) = Some t"
    using assms(1,2) NodeSymlink by (simp_all add: from_utf8_bytes_of)
  have "rd_u16 (rd p (?l @ bytes_of t @ q)) = Inr (of_nat (length t), rd (p @ ?l) (bytes_of t @ q))"
    using assms(3) NodeSymlink by (intro u16.dec_enc) (simp_all add: Let_def)
  moreover have "rd_take (rd (p @ ?l) (bytes_of t @ q)) (unat (of_nat (length t) :: 16 word))
      = Inr (bytes_of t, rd ((p @ ?l) @ bytes_of t) q)"
    using assms(3) NodeSymlink len by (intro rd_take_exact) (simp_all add: unat_of_length Let_def)
  ultimately show ?thesis
    using t u by (simp add: decode_node_def NodeSymlink tag_defs Let_def)
qed

lemma decode_node_sound:
  assumes "decode_node tag (rd p q) = Inr (n, r')"
  shows "tag = node_tag n \<and> wf_node n \<and> target_fits n \<and>
    (\<exists>s q'. q = s @ q' \<and> r' = rd (p @ s) q' \<and> length s = length (encode_payload n))"
proof -
  consider "tag = TAG_FILE" | "tag = TAG_DIR" | "tag = TAG_SYMLINK"
    using assms by (auto simp: decode_node_def split: if_splits)
  then show ?thesis
  proof cases
    case 1
    with assms obtain d r1 sz r2 f r3 where
      d: "rd_take (rd p q) DIGEST_LEN = Inr (d, r1)" and sz: "rd_u64 r1 = Inr (sz, r2)" and
      f: "rd_u8 r2 = Inr (f, r3)" and
      n: "n = NodeFile (Digest d) sz (f AND FLAG_EXECUTABLE \<noteq> 0)" "r' = r3"
      by (auto simp: decode_node_def jet_simps)
    obtain q1 where q: "length d = DIGEST_LEN" "q = d @ q1" "r1 = rd (p @ d) q1"
      using rd_take_sound [OF d] by blast
    obtain s2 q2 where q1: "q1 = s2 @ q2" "r2 = rd ((p @ d) @ s2) q2" "length s2 = 8"
      using u64.dec_sound [OF sz [unfolded q(3)]] by auto
    obtain s3 q3 where q2: "q2 = s3 @ q3" "r3 = rd (((p @ d) @ s2) @ s3) q3" "length s3 = 1"
      using u8.dec_sound [OF f [unfolded q1(2)]] by auto
    have "q = (d @ s2 @ s3) @ q3 \<and> r' = rd (p @ (d @ s2 @ s3)) q3 \<and>
        length (d @ s2 @ s3) = length (encode_payload n)"
      using q q1 q2 n by simp
    moreover have "tag = node_tag n \<and> wf_node n \<and> target_fits n"
      using 1 n q(1) by (simp add: wf_digest_def)
    ultimately show ?thesis by blast
  next
    case 2
    with assms obtain d where d: "rd_take (rd p q) DIGEST_LEN = Inr (d, r')" and n: "n = NodeDir (Digest d)"
      by (auto simp: decode_node_def jet_simps tag_defs)
    show ?thesis using rd_take_sound [OF d] n 2 by (auto simp: wf_digest_def)
  next
    case 3
    with assms obtain l r1 tb t where
      l: "rd_u16 (rd p q) = Inr (l, r1)" and tb: "rd_take r1 (unat l) = Inr (tb, r')" and
      t: "from_utf8 tb = Some t" "t \<noteq> []" "n = NodeSymlink t"
      by (auto simp: decode_node_def jet_simps tag_defs split: if_splits)
    obtain s1 q1 where q: "q = s1 @ q1" "r1 = rd (p @ s1) q1" "length s1 = 2"
      using u16.dec_sound [OF l] by auto
    obtain q2 where q1: "length tb = unat l" "q1 = tb @ q2" "r' = rd ((p @ s1) @ tb) q2"
      using rd_take_sound [OF tb [unfolded q(2)]] by blast
    have tb': "tb = bytes_of t" "utf8_valid (bytes_of t)"
      using t(1) by (simp_all add: from_utf8_Some_iff)
    then have "length t < 2 ^ 16"
      using q1(1) unat_uN_less(1) [of l] by simp
    moreover have "q = (s1 @ tb) @ q2 \<and> r' = rd (p @ (s1 @ tb)) q2 \<and>
        length (s1 @ tb) = length (encode_payload n)"
      using q q1 tb' t by (simp add: Let_def)
    moreover have "tag = node_tag n \<and> wf_node n"
      using 3 t tb' by simp
    ultimately show ?thesis using t by (metis target_fits.simps(1))
  qed
qed

interpretation entry: cursor_codec encode_entry decode_entry good_entry
proof
  fix x :: "EntryName \<times> Node" and p q :: bytes
  assume g: "good_entry x" and len: "length (p @ encode_entry x @ q) < 2 ^ 64"
  obtain nm n where x: "x = (nm, n)" by (cases x)
  let ?s = "en_str nm" and ?l = "u16_le (of_nat (length (en_str nm)))"
  let ?p1 = "p @ [node_tag n]" and ?q1 = "bytes_of (en_str nm) @ encode_payload n @ q"
  have s: "safe_name ?s" "from_utf8 (bytes_of ?s) = Some ?s" and n: "wf_node n" "target_fits n"
    using g by (simp_all add: good_entry_def wf_entry_def x from_utf8_bytes_of)
  then have nm: "entry_name_new ?s = Inr nm" and ls: "length ?s < 2 ^ 16"
    by (simp_all add: entry_name_new_Inr safe_name_def NAME_MAX_def)
  have "rd_u8 (rd p ([node_tag n] @ ?l @ ?q1)) = Inr (node_tag n, rd ?p1 (?l @ ?q1))"
    using len x by (intro u8.dec_enc) (simp_all add: Let_def)
  moreover have "rd_u16 (rd ?p1 (?l @ ?q1)) = Inr (of_nat (length ?s), rd (?p1 @ ?l) ?q1)"
    using len x by (intro u16.dec_enc) (simp_all add: Let_def)
  moreover have "rd_take (rd (?p1 @ ?l) ?q1) (unat (of_nat (length ?s) :: 16 word))
      = Inr (bytes_of ?s, rd ((?p1 @ ?l) @ bytes_of ?s) (encode_payload n @ q))"
    using len x ls by (intro rd_take_exact) (simp_all add: unat_of_length Let_def)
  moreover have "decode_node (node_tag n) (rd ((?p1 @ ?l) @ bytes_of ?s) (encode_payload n @ q))
      = Inr (n, rd (((?p1 @ ?l) @ bytes_of ?s) @ encode_payload n) q)"
    using len x n by (intro decode_node_encode) (simp_all add: Let_def)
  ultimately show "decode_entry (rd p (encode_entry x @ q)) = Inr (x, rd (p @ encode_entry x) q)"
    using s nm by (simp add: decode_entry_def x Let_def)
next
  fix x :: "EntryName \<times> Node" and p q :: bytes and r' :: reader
  assume "decode_entry (rd p q) = Inr (x, r')"
  then obtain tag r1 l r2 nb r3 s nm n where
    tag: "rd_u8 (rd p q) = Inr (tag, r1)" and l: "rd_u16 r1 = Inr (l, r2)" and
    nb: "rd_take r2 (unat l) = Inr (nb, r3)" and s: "from_utf8 nb = Some s" and
    nm: "entry_name_new s = Inr nm" and n: "decode_node tag r3 = Inr (n, r')" and x: "x = (nm, n)"
    by (auto simp: decode_entry_def jet_simps)
  obtain s1 q1 where q: "q = s1 @ q1" "r1 = rd (p @ s1) q1" "length s1 = 1"
    using u8.dec_sound [OF tag] by auto
  obtain s2 q2 where q1: "q1 = s2 @ q2" "r2 = rd ((p @ s1) @ s2) q2" "length s2 = 2"
    using u16.dec_sound [OF l [unfolded q(2)]] by auto
  obtain q3 where q2: "length nb = unat l" "q2 = nb @ q3" "r3 = rd (((p @ s1) @ s2) @ nb) q3"
    using rd_take_sound [OF nb [unfolded q1(2)]] by blast
  obtain s4 q4 where q3: "wf_node n" "target_fits n" "q3 = s4 @ q4"
      "r' = rd ((((p @ s1) @ s2) @ nb) @ s4) q4" "length s4 = length (encode_payload n)"
    using decode_node_sound [OF n [unfolded q2(3)]] by blast
  have nbs: "nb = bytes_of s" "utf8_valid (bytes_of s)" "nm = EntryName s" "safe_name s"
    using s nm by (simp_all add: from_utf8_Some_iff entry_name_new_Inr)
  have "q = (s1 @ s2 @ nb @ s4) @ q4 \<and> r' = rd (p @ (s1 @ s2 @ nb @ s4)) q4 \<and>
      length (s1 @ s2 @ nb @ s4) = length (encode_entry x)"
    using q q1 q2 q3 nbs x by (simp add: Let_def)
  moreover have "good_entry x"
    using nbs q3 x by (auto simp: good_entry_def wf_entry_def)
  ultimately show "good_entry x \<and>
      (\<exists>s q'. q = s @ q' \<and> r' = rd (p @ s) q' \<and> length s = length (encode_entry x))"
    by blast
qed

section \<open>Whole manifests\<close>

lemma mset_bt_insert_new: "map_of m k = None \<Longrightarrow> mset (bt_insert k v m) = add_mset (k, v) (mset m)"
  by (induction k v m rule: bt_insert.induct) (auto split: if_splits)

lemma length_entries_mset:
  "length (concat (map encode_entry t)) = (\<Sum>e \<in># mset t. length (encode_entry e))"
  by (induction t) simp_all

lemma decode_entries_encode:
  "bt_sorted (acc @ t) \<Longrightarrow> \<forall>e \<in> set t. good_entry e \<Longrightarrow>
   length (p @ concat (map encode_entry t) @ q) < 2 ^ 64 \<Longrightarrow>
   decode_entries (length t) (rd p (concat (map encode_entry t) @ q)) acc
     = Inr (acc @ t, rd (p @ concat (map encode_entry t)) q)"
proof (induction t arbitrary: p acc)
  case Nil
  then show ?case by simp
next
  case (Cons e t)
  obtain k v where e: "e = (k, v)" by (cases e)
  have below: "\<forall>x \<in> fst ` set acc. x < k"
    using Cons.prems(1) e by (auto simp: sorted_wrt_append)
  then have "map_of acc k = None" "bt_insert k v acc = acc @ [(k, v)]"
    by (auto simp: map_of_eq_None_iff bt_insert_snoc)
  moreover have "decode_entry (rd p (encode_entry e @ concat (map encode_entry t) @ q))
      = Inr (e, rd (p @ encode_entry e) (concat (map encode_entry t) @ q))"
    using Cons.prems by (intro entry.dec_enc) simp_all
  ultimately show ?case
    using Cons.IH [of "acc @ [e]" "p @ encode_entry e"] Cons.prems e by simp
qed

lemma decode_entries_sound:
  "decode_entries n (rd p q) acc = Inr (t, r') \<Longrightarrow> bt_sorted acc \<Longrightarrow> \<forall>e \<in> set acc. good_entry e \<Longrightarrow>
   bt_sorted t \<and> (\<forall>e \<in> set t. good_entry e) \<and> length t = length acc + n \<and>
   (\<exists>s q'. q = s @ q' \<and> r' = rd (p @ s) q' \<and>
     length (concat (map encode_entry t)) = length (concat (map encode_entry acc)) + length s)"
proof (induction n arbitrary: p q acc)
  case 0
  then show ?case by auto
next
  case (Suc n)
  from Suc.prems(1) obtain k v r1 where e: "decode_entry (rd p q) = Inr ((k, v), r1)"
    and new: "map_of acc k = None" and rest: "decode_entries n r1 (bt_insert k v acc) = Inr (t, r')"
    by (auto simp: jet_simps split: if_splits)
  obtain s1 q1 where q: "good_entry (k, v)" "q = s1 @ q1" "r1 = rd (p @ s1) q1"
      "length s1 = length (encode_entry (k, v))"
    using entry.dec_sound [OF e] by blast
  have ms: "mset (bt_insert k v acc) = add_mset (k, v) (mset acc)"
    by (rule mset_bt_insert_new [OF new])
  then have "length (bt_insert k v acc) = Suc (length acc)"
    by (metis size_add_mset size_mset)
  moreover have "\<forall>e \<in> set (bt_insert k v acc). good_entry e"
    using Suc.prems(2,3) q(1) by (auto simp: set_bt_insert)
  moreover note Suc.IH [OF rest [unfolded q(3)] bt_sorted_insert [OF Suc.prems(2)]]
  moreover have "length (concat (map encode_entry (bt_insert k v acc)))
      = length (concat (map encode_entry acc)) + length s1"
    unfolding length_entries_mset ms using q(4) by simp
  ultimately obtain s2 q2 where t: "bt_sorted t" "\<forall>e \<in> set t. good_entry e" "length t = length acc + Suc n"
    and q1: "q1 = s2 @ q2" "r' = rd ((p @ s1) @ s2) q2"
      "length (concat (map encode_entry t)) = length (concat (map encode_entry acc)) + length s1 + length s2"
    by auto
  have "q = (s1 @ s2) @ q2 \<and> r' = rd (p @ (s1 @ s2)) q2 \<and>
     length (concat (map encode_entry t)) = length (concat (map encode_entry acc)) + length (s1 @ s2)"
    using q q1 by simp
  with t show ?case by blast
qed

lemma good_tree_iff:
  "good_tree t \<longleftrightarrow> bt_sorted t \<and> (\<forall>e \<in> set t. good_entry e) \<and> length t < 2 ^ 32"
  by (auto simp: good_tree_def wf_tree_def good_entry_def)

lemma length_encode_entry_pos: "0 < length (encode_entry e)"
  by (cases e) (simp add: Let_def)

lemma length_le_entries: "length t \<le> length (concat (map encode_entry t))"
  by (induction t) (simp_all, metis One_nat_def Suc_leI add_mono length_encode_entry_pos plus_1_eq_Suc)

lemma tree_decode_encode:
  assumes "good_tree t" "length (tree_encode t) < 2 ^ 64"
  shows "tree_decode (tree_encode t) = Inr t"
proof -
  let ?v = "u16_le TREE_FORMAT_VERSION" and ?n = "u32_le (of_nat (length t))"
  let ?es = "concat (map encode_entry t)"
  have g: "bt_sorted t" "\<forall>e \<in> set t. good_entry e" and n: "unat (of_nat (length t) :: 32 word) = length t"
    using assms(1) by (simp_all add: good_tree_iff unat_of_nat take_bit_eq_mod)
  have "rd_u16 (rd [] (?v @ ?n @ ?es)) = Inr (TREE_FORMAT_VERSION, rd ([] @ ?v) (?n @ ?es))"
    using assms(2) by (intro u16.dec_enc) (simp_all add: tree_encode_def)
  moreover have "rd_u32 (rd ([] @ ?v) (?n @ ?es)) = Inr (of_nat (length t), rd (([] @ ?v) @ ?n) ?es)"
    using assms(2) by (intro u32.dec_enc) (simp_all add: tree_encode_def)
  moreover have "decode_entries (length t) (rd (([] @ ?v) @ ?n) (?es @ [])) []
      = Inr ([] @ t, rd ((([] @ ?v) @ ?n) @ ?es) [])"
    using g assms(2) by (intro decode_entries_encode) (simp_all add: tree_encode_def)
  moreover have "\<lparr>rd_b = tree_encode t, rd_at = 0\<rparr> = rd [] (?v @ ?n @ ?es)"
    by (simp add: rd_def tree_encode_def)
  moreover have "rd_remaining (rd (([] @ ?v) @ ?n) ?es) = length ?es"
    "rd_is_exhausted (rd ((([] @ ?v) @ ?n) @ ?es) [])"
    by (simp_all add: rd_remaining_def rd_is_exhausted_def rd_def)
  ultimately show ?thesis
    using n length_le_entries [of t] by (simp add: tree_decode_def)
qed

lemma tree_decode_sound:
  assumes "tree_decode bs = Inr t"
  shows "good_tree t \<and> length (tree_encode t) = length bs"
proof -
  have start: "\<lparr>rd_b = bs, rd_at = 0\<rparr> = rd [] bs" by (simp add: rd_def)
  from assms obtain v r1 c r2 r3 where v: "rd_u16 (rd [] bs) = Inr (v, r1)" and
    c: "rd_u32 r1 = Inr (c, r2)" and es: "decode_entries (unat c) r2 [] = Inr (t, r3)" and
    fin: "rd_is_exhausted r3"
    by (auto simp: tree_decode_def jet_simps start split: if_splits)
  obtain s1 q1 where q: "bs = s1 @ q1" "r1 = rd s1 q1" "length s1 = 2"
    using u16.dec_sound [OF v] by auto
  obtain s2 q2 where q1: "q1 = s2 @ q2" "r2 = rd (s1 @ s2) q2" "length s2 = 4"
    using u32.dec_sound [OF c [unfolded q(2)]] by auto
  have D: "bt_sorted t \<and> (\<forall>e \<in> set t. good_entry e) \<and> length t = length ([] :: Tree) + unat c \<and>
     (\<exists>s q'. q2 = s @ q' \<and> r3 = rd ((s1 @ s2) @ s) q' \<and>
       length (concat (map encode_entry t)) = length (concat (map encode_entry [])) + length s)"
    by (rule decode_entries_sound [OF es [unfolded q1(2)]]) simp_all
  then have t: "bt_sorted t" "\<forall>e \<in> set t. good_entry e" "length t = unat c"
    by simp_all
  from D obtain s3 q3 where q2: "q2 = s3 @ q3" "r3 = rd ((s1 @ s2) @ s3) q3"
      "length (concat (map encode_entry t)) = length s3"
    by (elim conjE exE) (simp del: length_concat)
  have "q3 = []" using fin q2(2) by (simp add: rd_is_exhausted_def rd_def)
  then have "length (tree_encode t) = length bs"
    using q q1 q2 by (simp add: tree_encode_def)
  moreover have "good_tree t"
    using t unat_uN_less(2) [of c] by (simp add: good_tree_iff)
  ultimately show ?thesis by simp
qed

lemma bt_insert_commute:
  "bt_sorted m \<Longrightarrow> j \<noteq> k \<Longrightarrow> bt_insert j u (bt_insert k v m) = bt_insert k v (bt_insert j u m)"
  by (rule bt_sorted_map_of_inject) (simp_all add: bt_sorted_insert fun_upd_twist)

definition tree_of_list :: "(EntryName \<times> Node) list \<Rightarrow> Tree" where
  "tree_of_list es = foldl (\<lambda>t (name, node). snd (tree_insert name node t)) tree_new es"

lemma foldl_insert:
  "bt_sorted t \<Longrightarrow> bt_sorted (foldl (\<lambda>t (name, node). snd (tree_insert name node t)) t es) \<and>
   map_of (foldl (\<lambda>t (name, node). snd (tree_insert name node t)) t es) = map_of t ++ map_of (rev es)"
proof (induction es arbitrary: t)
  case Nil
  then show ?case by simp
next
  case (Cons e es)
  obtain k v where e: "e = (k, v)" by (cases e)
  have "map_of t ++ map_of (rev (e # es)) = map_of (bt_insert k v t) ++ map_of (rev es)"
    by (simp add: e)
  then show ?case
    using Cons.IH [OF bt_sorted_insert [OF Cons.prems, of k v]] e
    by (simp add: tree_insert_def del: map_of_bt_insert map_of_append)
qed

lemma bt_sorted_tree_of_list: "bt_sorted (tree_of_list es)"
  using foldl_insert [of "[]" es] by (simp add: tree_of_list_def tree_new_def)

lemma map_of_tree_of_list: "map_of (tree_of_list es) = map_of (rev es)"
  using foldl_insert [of "[]" es] by (simp add: tree_of_list_def tree_new_def)

lemma mset_foldl_insert:
  "distinct (map fst es) \<Longrightarrow> fst ` set es \<inter> fst ` set t = {} \<Longrightarrow>
   mset (foldl (\<lambda>t (name, node). snd (tree_insert name node t)) t es) = mset t + mset es"
proof (induction es arbitrary: t)
  case Nil
  then show ?case by simp
next
  case (Cons e es)
  obtain k v where e: "e = (k, v)" by (cases e)
  have "map_of t k = None" using Cons.prems e by (auto simp: map_of_eq_None_iff)
  then have "mset (bt_insert k v t) = add_mset (k, v) (mset t)" by (rule mset_bt_insert_new)
  moreover have "fst ` set es \<inter> fst ` set (bt_insert k v t) = {}"
    using Cons.prems e by (auto simp: set_bt_insert_keys)
  ultimately show ?case
    using Cons.IH [of "bt_insert k v t"] Cons.prems(1) e by (simp add: tree_insert_def)
qed

lemma mset_tree_of_list: "distinct (map fst es) \<Longrightarrow> mset (tree_of_list es) = mset es"
  using mset_foldl_insert [of es "[]"] by (simp add: tree_of_list_def tree_new_def)

lemma map_of_rev_distinct: "distinct (map fst es) \<Longrightarrow> map_of (rev es) = map_of es"
  by (intro map_of_eqI) (auto simp: rev_map [symmetric] map_of_eq_Some_iff)

lemma tree_get_eq: "tree_get t s = map_of t (EntryName s)"
  by (induction t) (auto simp: tree_get_def EntryName.expand)

lemma small_le:
  "u16_le 0 = [0, 0]" "u16_le 1 = [1, 0]" "u32_le 1 = [1, 0, 0, 0]"
proof -
  have "(4 :: nat) = Suc (Suc (Suc (Suc 0)))" by simp
  then show "u32_le 1 = [1, 0, 0, 0]" by (simp only: u32_le_def le_bytes.simps) simp
qed (simp_all add: u16_le_def numeral_2_eq_2)

lemma wrapped_target_rejected:
  assumes "length s = 65536"
  shows "tree_decode (tree_encode [(EntryName ''a'', NodeSymlink s)]) = Inl EmptySymlinkTarget"
proof -
  have "(of_nat (length s) :: 16 word) = 0" using assms by simp
  then have "tree_encode [(EntryName ''a'', NodeSymlink s)]
     = [1, 0] @ [1, 0, 0, 0] @ [3] @ [1, 0] @ [97] @ [0, 0] @ bytes_of s"
    by (simp add: tree_encode_def Let_def TREE_FORMAT_VERSION_def tag_defs small_le bytes_of_def)
  moreover have "rd_u16 \<lparr>rd_b = [1, 0] @ q, rd_at = 0\<rparr> = Inr (1, \<lparr>rd_b = [1, 0] @ q, rd_at = 2\<rparr>)" for q
    by (simp add: rd_u16_def rd_take_def le_u16_def)
  moreover have "string_of [97] = ''a''" "string_of [] = []"
    using string_of_bytes_of [of "''a''"] by (simp_all add: bytes_of_def string_of_def)
  ultimately show ?thesis
    using assms
    by (simp add: tree_decode_def decode_entry_def decode_node_def rd_u16_def rd_u32_def rd_u8_def
      rd_take_def rd_remaining_def le_u16_def le_u32_def TREE_FORMAT_VERSION_def tag_defs from_utf8_def
      entry_name_new_def NAME_MAX_def)
qed

section \<open>Properties\<close>

text \<open>C33: Decoding the canonical encoding of a directory manifest returns the manifest, for every
  manifest whose symlink targets are non-empty and fit the 16-bit length prefix.\<close>

theorem tree_roundtrip:
  assumes "good_tree t" and "length (tree_encode t) < 2 ^ 64"
  shows "tree_decode (tree_encode t) = Inr t"
  using assms by (rule tree_decode_encode)

definition example_tree :: Tree where
  "example_tree =
     [(EntryName ''a'', NodeSymlink ''b''), (EntryName ''run'', NodeFile ZERO 7 True),
      (EntryName ''src'', NodeDir ZERO)]"

lemma example_tree_good: "good_tree example_tree"
  by (simp add: good_tree_def wf_tree_def wf_entry_def example_tree_def less_EntryName_def
      safe_name_def NAME_MAX_def wf_digest_def ZERO_def bytes_of_def DIGEST_LEN_def)

lemma example_tree_size: "length (tree_encode example_tree) = 98"
  by (simp add: tree_encode_def example_tree_def ZERO_def DIGEST_LEN_def Let_def)

theorem tree_roundtrip_witness: "tree_decode (tree_encode example_tree) = Inr example_tree"
  by (rule tree_roundtrip) (simp_all add: example_tree_good example_tree_size)

text \<open>C32: Whatever bytes a peer sends, a manifest that decodes is well formed: every name is a
  single safe path component (not empty, not a dot name, no separator, no NUL, at most 255
  bytes), names are strictly sorted and unique, digests are 32 bytes, symlink targets are
  non-empty UTF-8; and the decoder consumed exactly the input, no byte is left over.\<close>

theorem tree_decode_is_safe:
  assumes "tree_decode bs = Inr t"
  shows "good_tree t \<and> (\<forall>(name, node) \<in> set t. safe_name (en_str name)) \<and>
    distinct (map fst t) \<and> length (tree_encode t) = length bs"
  using tree_decode_sound [OF assms]
  by (auto simp: good_tree_def wf_tree_def wf_entry_def bt_sorted_distinct)

theorem tree_decode_is_safe_witness:
  "tree_decode (tree_encode example_tree) = Inr example_tree \<and> distinct (map fst example_tree)"
  using tree_decode_is_safe [of "tree_encode example_tree" example_tree]
    tree_decode_encode [OF example_tree_good] example_tree_size by simp

text \<open>No two distinct manifests have the same canonical encoding, so the digest of the
  encoding names one directory structure.\<close>

theorem tree_encode_injective:
  assumes "good_tree t" "good_tree u" "length (tree_encode t) < 2 ^ 64"
  shows "tree_encode t = tree_encode u \<longleftrightarrow> t = u"
  using tree_decode_encode [OF assms(1,3)] tree_decode_encode [OF assms(2)] assms(3) by auto

theorem tree_encode_injective_witness: "tree_encode example_tree \<noteq> tree_encode []"
  using tree_encode_injective [of example_tree "[]"] example_tree_good example_tree_size
  by (simp add: good_tree_def wf_tree_def example_tree_def)

text \<open>The order in which entries are inserted does not show: any two insertion orders of the
  same distinctly named entries give the same manifest, encoding and digest.\<close>

theorem tree_insertion_order_irrelevant:
  assumes "set es = set fs" "distinct (map fst es)" "distinct (map fst fs)"
  shows "tree_of_list es = tree_of_list fs \<and>
    tree_digest b (tree_of_list es) = tree_digest b (tree_of_list fs)"
proof -
  have "map_of (rev es) = map_of (rev fs)"
    using assms by (intro map_of_eqI) (auto simp: rev_map [symmetric] map_of_eq_Some_iff)
  then have "tree_of_list es = tree_of_list fs"
    by (intro bt_sorted_map_of_inject) (simp_all add: bt_sorted_tree_of_list map_of_tree_of_list)
  then show ?thesis by simp
qed

theorem tree_insertion_order_irrelevant_witness:
  "tree_of_list [(EntryName ''b'', NodeDir ZERO), (EntryName ''a'', NodeSymlink ''b'')]
   = tree_of_list [(EntryName ''a'', NodeSymlink ''b''), (EntryName ''b'', NodeDir ZERO)]"
  using tree_insertion_order_irrelevant
    [of "[(EntryName ''b'', NodeDir ZERO), (EntryName ''a'', NodeSymlink ''b'')]"
        "[(EntryName ''a'', NodeSymlink ''b''), (EntryName ''b'', NodeDir ZERO)]" blake3_ref]
  by auto

text \<open>A symlink target of 65536 bytes wraps the 16-bit length prefix to zero: its manifest
  encodes without an error and its encoding is rejected on decode. The bound in
  \<^const>\<open>good_tree\<close> is needed.\<close>

theorem symlink_prefix_wraps:
  "tree_decode (tree_encode [(EntryName ''a'', NodeSymlink (replicate 65536 CHR ''x''))])
   = Inl EmptySymlinkTarget"
  by (rule wrapped_target_rejected) simp

end
