(* ===== verification/Jet_Store.thy ===== *)
theory Jet_Store
  imports Jet_Link Jet_Tree "HOL-Library.Sublist"
begin

text \<open>
  The on-disk object store (\<open>crates/jet-cas/src/store.rs\<close>): insertion of blobs and manifests
  through a staging file and a rename, reads, ingestion of a directory and materialization of
  a manifest. Garbage collection is in the theory \<open>Jet_Gc\<close>. The record \<open>ObjectStore\<close>
  carries the crates the store hashes and names with; the reflink capability is in the world.
\<close>

section \<open>Types\<close>

datatype CasError =
    CasIo string path errno
  | Missing digest
  | Corrupt digest digest
  | NotAFile path
  | UnsupportedFileType path
  | NonUtf8Name path
  | DestinationExists path
  | TreeTooDeep nat
  | CasTree TreeError

definition cas_io :: "string \<Rightarrow> path \<Rightarrow> (errno, 'a) prog \<Rightarrow> (CasError, 'a) prog" where
  "cas_io op p = map_err (CasIo op p)"

datatype Durability = Relaxed | Synced

record 'h ObjectStore =
  os_root :: path
  os_objects :: path
  os_tmp :: path
  os_durability :: Durability
  os_hex :: hex_crate
  os_b3 :: "'h blake3_crate"

record MaterializeStats =
  reflinked :: "64 word"
  hardlinked :: "64 word"
  copied :: "64 word"
  dirs :: "64 word"
  symlinks :: "64 word"
  bytes_placed :: "64 word"

definition SMALL_FILE_LIMIT :: "64 word" where "SMALL_FILE_LIMIT = push_bit 20 1"
definition STREAM_CHUNK :: nat where "STREAM_CHUNK = 256 * 2 ^ 10"
definition MAX_DEPTH :: nat where "MAX_DEPTH = 128"

definition stats_default :: MaterializeStats where
  "stats_default = \<lparr>reflinked = 0, hardlinked = 0, copied = 0, dirs = 0, symlinks = 0, bytes_placed = 0\<rparr>"

definition stats_files :: "MaterializeStats \<Rightarrow> 64 word" where
  "stats_files s = reflinked s + hardlinked s + copied s"

definition stats_record :: "MaterializeStats \<Rightarrow> LinkMode \<Rightarrow> 64 word \<Rightarrow> MaterializeStats" where
  "stats_record s mode sz =
     (let s' = (case mode of
          Reflink \<Rightarrow> s\<lparr>reflinked := reflinked s + 1\<rparr>
        | Hardlink \<Rightarrow> s\<lparr>hardlinked := hardlinked s + 1\<rparr>
        | Copy \<Rightarrow> s\<lparr>copied := copied s + 1\<rparr>)
      in s'\<lparr>bytes_placed := bytes_placed s' + sz\<rparr>)"

section \<open>Opening and paths\<close>

definition store_open_with ::
  "hex_crate \<Rightarrow> 'h blake3_crate \<Rightarrow> path \<Rightarrow> Durability \<Rightarrow> (CasError, 'h ObjectStore) prog" where
  "store_open_with h b root durability =
     (let objects = root @ [''objects'']; tmp = root @ [''tmp''] in
      bnd (cas_io ''create objects dir'' objects (create_dir_all objects)) (\<lambda>_.
      bnd (cas_io ''create tmp dir'' tmp (create_dir_all tmp)) (\<lambda>_.
      bnd capabilities_new (\<lambda>_.
      bnd (ignore (probe tmp)) (\<lambda>_.
      ret \<lparr>os_root = root, os_objects = objects, os_tmp = tmp, os_durability = durability,
           os_hex = h, os_b3 = b\<rparr>)))))"

definition object_path :: "'h ObjectStore \<Rightarrow> digest \<Rightarrow> path" where
  "object_path st d = os_objects st @ [fanout d, to_hex (os_hex st) d]"

definition staging_path :: "'h ObjectStore \<Rightarrow> digest \<Rightarrow> path" where
  "staging_path st d = os_tmp st @ [to_hex (os_hex st) d @ ''.staging'']"

definition has :: "'h ObjectStore \<Rightarrow> digest \<Rightarrow> (CasError, bool) prog" where
  "has st d = exists_path (object_path st d)"

primrec missing :: "'h ObjectStore \<Rightarrow> digest list \<Rightarrow> (CasError, digest list) prog" where
  "missing st [] = ret []"
| "missing st (d # ds) =
     bnd (has st d) (\<lambda>present.
     bnd (missing st ds) (\<lambda>rest.
     ret (if present then rest else d # rest)))"

definition blob_digest :: "'h blake3_crate \<Rightarrow> bytes \<Rightarrow> digest" where
  "blob_digest b bs = hasher_finalize b (hasher_update b (hasher_keyed b ctx_BLOB) bs)"

section \<open>Insertion\<close>

definition open_dir :: "path \<Rightarrow> (errno, unit) prog" where
  "open_dir p = sys (\<lambda>w. (if ent w p = Some DDir then Inr () else Inl ENOENT, w))"

text \<open>The rename of \<open>seal_and_commit\<close> and the directory sync after it.\<close>

definition commit_object :: "'h ObjectStore \<Rightarrow> digest \<Rightarrow> path \<Rightarrow> (CasError, unit) prog" where
  "commit_object st d staged =
     (let final_path = object_path st d; parent = butlast final_path in
      try_with (rename staged final_path) (\<lambda>r. case r of
        Inl e \<Rightarrow> bnd (ignore (remove_file staged)) (\<lambda>_. throw (CasIo ''commit object'' final_path e))
      | Inr _ \<Rightarrow>
        if os_durability st = Synced then
          try_with (open_dir parent) (\<lambda>dir. case dir of
            Inl _ \<Rightarrow> ret () | Inr _ \<Rightarrow> ignore (sync_all 0))
        else ret ()))"

definition seal_and_commit :: "'h ObjectStore \<Rightarrow> digest \<Rightarrow> path \<Rightarrow> (CasError, unit) prog" where
  "seal_and_commit st d staged =
     bnd (cas_io ''stat staging file'' staged (fs_metadata staged)) (\<lambda>_.
     bnd (cas_io ''seal staging file'' staged (set_permissions staged OBJECT_MODE)) (\<lambda>_.
     let parent = butlast (object_path st d) in
     bnd (cas_io ''create fanout dir'' parent (create_dir_all parent)) (\<lambda>_.
     commit_object st d staged)))"

definition insert_staged ::
  "'h ObjectStore \<Rightarrow> digest \<Rightarrow> (nat \<Rightarrow> (errno, unit) prog) \<Rightarrow> (CasError, unit) prog" where
  "insert_staged st d write =
     (let staged = staging_path st d in
      bnd (cas_io ''create staging file'' staged (open_truncate staged)) (\<lambda>f.
      bnd (cas_io ''write staging file'' staged (write f)) (\<lambda>_.
      bnd (if os_durability st = Synced then cas_io ''fsync staging file'' staged (sync_all f) else ret ()) (\<lambda>_.
      seal_and_commit st d staged))))"

definition put_bytes :: "'h ObjectStore \<Rightarrow> bytes \<Rightarrow> (CasError, digest) prog" where
  "put_bytes st bs =
     (let d = blob_digest (os_b3 st) bs in
      bnd (has st d) (\<lambda>present.
      if present then ret d
      else bnd (insert_staged st d (\<lambda>f. write_all f bs)) (\<lambda>_. ret d)))"

text \<open>The read loop of \<open>hash_file\<close>. It ends at the first empty read; a file of \<open>n\<close> bytes gives at
  most \<open>n\<close> reads that are not, so the fuel \<open>Suc n\<close> is enough (\<open>hash_stream_run\<close>).\<close>

primrec hash_stream :: "'h blake3_crate \<Rightarrow> path \<Rightarrow> nat \<Rightarrow> nat \<Rightarrow> nat \<Rightarrow> 'h \<Rightarrow> (CasError, digest) prog" where
  "hash_stream b p 0 f off s = ret (hasher_finalize b s)"
| "hash_stream b p (Suc n) f off s =
     bnd (cas_io ''read for hashing'' p (read_at f off STREAM_CHUNK)) (\<lambda>buf.
     if buf = [] then ret (hasher_finalize b s)
     else hash_stream b p n f (off + length buf) (hasher_update b s buf))"

definition hash_file :: "'h blake3_crate \<Rightarrow> path \<Rightarrow> 64 word \<Rightarrow> (CasError, digest) prog" where
  "hash_file b p sz =
     (if sz \<le> SMALL_FILE_LIMIT then
        bnd (cas_io ''read for hashing'' p (fs_read p)) (\<lambda>bs. ret (blob_digest b bs))
      else
        bnd (cas_io ''open for hashing'' p (fs_open p)) (\<lambda>f.
        bnd get_world (\<lambda>w.
        hash_stream b p (Suc (length (ino_data (inos w f)))) f 0 (hasher_keyed b ctx_BLOB))))"

text \<open>\<open>io::copy\<close> between two open files.\<close>

definition io_copy :: "nat \<Rightarrow> nat \<Rightarrow> (errno, unit) prog" where
  "io_copy src dst = bnd get_world (\<lambda>w. write_all dst (ino_data (inos w src)))"

text \<open>\<open>put_file\<close> after the hash: place the file in staging and commit it, or copy it there.\<close>

definition put_placed :: "'h ObjectStore \<Rightarrow> path \<Rightarrow> digest \<Rightarrow> 64 word \<Rightarrow> (CasError, digest \<times> 64 word) prog" where
  "put_placed st p d sz =
     (let staged = staging_path st d in
      try_with (link_materialize p staged PrivateInode) (\<lambda>placed. case placed of
        Inr _ \<Rightarrow> bnd (seal_and_commit st d staged) (\<lambda>_. ret (d, sz))
      | Inl _ \<Rightarrow>
        bnd (ignore (remove_file staged)) (\<lambda>_.
        bnd (cas_io ''open for ingest'' p (fs_open p)) (\<lambda>src.
        bnd (insert_staged st d (\<lambda>dst. io_copy src dst)) (\<lambda>_.
        ret (d, sz))))))"

definition put_file :: "'h ObjectStore \<Rightarrow> path \<Rightarrow> (CasError, digest \<times> 64 word) prog" where
  "put_file st p =
     bnd (cas_io ''stat for ingest'' p (lstat p)) (\<lambda>meta.
     bnd get_world (\<lambda>w.
     case meta of
       DFile i \<Rightarrow>
       (let sz = of_nat (length (ino_data (inos w i))) in
        bnd (hash_file (os_b3 st) p sz) (\<lambda>d.
        bnd (has st d) (\<lambda>present.
        if present then ret (d, sz) else put_placed st p d sz)))
     | _ \<Rightarrow> throw (NotAFile p)))"

section \<open>Reads and manifests\<close>

definition get_bytes :: "'h ObjectStore \<Rightarrow> digest \<Rightarrow> (CasError, bytes) prog" where
  "get_bytes st d =
     (let p = object_path st d in
      try_with (fs_read p) (\<lambda>r. case r of
        Inr bs \<Rightarrow> ret bs
      | Inl e \<Rightarrow> if e = ENOENT then throw (Missing d) else throw (CasIo ''read object'' p e)))"

definition get_bytes_verified :: "'h ObjectStore \<Rightarrow> digest \<Rightarrow> (CasError, bytes) prog" where
  "get_bytes_verified st d =
     bnd (get_bytes st d) (\<lambda>bs.
     let actual = blob_digest (os_b3 st) bs in
     if actual \<noteq> d then throw (Corrupt d actual) else ret bs)"

definition put_tree :: "'h ObjectStore \<Rightarrow> Tree \<Rightarrow> (CasError, digest) prog" where
  "put_tree st t =
     (let encoded = tree_encode t; d = tree_digest (os_b3 st) t in
      bnd (has st d) (\<lambda>present.
      if present then ret d
      else bnd (insert_staged st d (\<lambda>f. write_all f encoded)) (\<lambda>_. ret d)))"

definition get_tree :: "'h ObjectStore \<Rightarrow> digest \<Rightarrow> (CasError, Tree) prog" where
  "get_tree st d =
     bnd (get_bytes st d) (\<lambda>bs.
     bnd (map_err CasTree (lift_res (tree_decode bs))) (\<lambda>t.
     let actual = tree_digest (os_b3 st) t in
     if actual \<noteq> d then throw (Corrupt d actual) else ret t))"

section \<open>Ingestion\<close>

text \<open>One directory entry; \<open>sub\<close> ingests a subdirectory.\<close>

definition ingest_node ::
  "'h ObjectStore \<Rightarrow> (path \<Rightarrow> (CasError, Tree) prog) \<Rightarrow> path \<Rightarrow> (CasError, Node) prog" where
  "ingest_node st sub p =
     bnd (cas_io ''stat entry'' p (lstat p)) (\<lambda>ft.
     bnd get_world (\<lambda>w.
     case ft of
       DLink _ \<Rightarrow>
       bnd (cas_io ''read_link'' p (read_link p)) (\<lambda>target.
       if utf8_valid (bytes_of target) then ret (NodeSymlink target) else throw (NonUtf8Name p))
     | DDir \<Rightarrow>
       bnd (sub p) (\<lambda>t.
       bnd (put_tree st t) (\<lambda>d.
       ret (NodeDir d)))
     | DFile i \<Rightarrow>
       bnd (put_file st p) (\<lambda>(d, sz).
       ret (NodeFile d sz (ino_mode (inos w i) AND 0x40 \<noteq> 0)))
     | DSpecial \<Rightarrow> throw (UnsupportedFileType p)))"

definition ingest_entry ::
  "'h ObjectStore \<Rightarrow> (path \<Rightarrow> (CasError, Tree) prog) \<Rightarrow> path \<Rightarrow> string \<Rightarrow> Tree \<Rightarrow> (CasError, Tree) prog" where
  "ingest_entry st sub dir raw t =
     bnd (cas_io ''read_dir entry'' dir (next_entry raw)) (\<lambda>file_name.
     let p = dir @ [file_name] in
     if \<not> utf8_valid (bytes_of file_name) then throw (NonUtf8Name p)
     else
       bnd (map_err CasTree (lift_res (entry_name_new file_name))) (\<lambda>name.
       bnd (ingest_node st sub p) (\<lambda>node.
       ret (snd (tree_insert name node t)))))"

text \<open>The first argument bounds the nesting; \<open>ingest_dir\<close> passes one more than the longest path the
  walk can meet, so the bound is never reached (\<open>ingest_never_out_of_fuel\<close>).\<close>

primrec ingest_dir_inner :: "nat \<Rightarrow> 'h ObjectStore \<Rightarrow> path \<Rightarrow> (CasError, Tree) prog" where
  "ingest_dir_inner 0 st dir = throw (TreeTooDeep 0)"
| "ingest_dir_inner (Suc n) st dir =
     bnd (cas_io ''read_dir'' dir (read_dir dir)) (\<lambda>rd.
     fold_prog (ingest_entry st (ingest_dir_inner n st) dir) rd tree_new)"

definition path_bound :: "'h ObjectStore \<Rightarrow> world \<Rightarrow> nat" where
  "path_bound st w = Max (insert (length (os_objects st) + 2) (insert (length (os_tmp st) + 1)
     (length ` fst ` set (ents w))))"

definition ingest_dir :: "'h ObjectStore \<Rightarrow> path \<Rightarrow> (CasError, digest) prog" where
  "ingest_dir st dir =
     bnd get_world (\<lambda>w.
     bnd (ingest_dir_inner (Suc (path_bound st w)) st dir) (\<lambda>t.
     put_tree st t))"

section \<open>Materialization\<close>

fun want_mode :: "Intent \<Rightarrow> bool \<Rightarrow> 32 word" where
  "want_mode PrivateInode False = 0x1A4"
| "want_mode PrivateInode True = 0x1ED"
| "want_mode OverlayLower False = 0x124"
| "want_mode OverlayLower True = 0x16D"

definition materialize_file ::
  "'h ObjectStore \<Rightarrow> Intent \<Rightarrow> path \<Rightarrow> digest \<Rightarrow> 64 word \<Rightarrow> bool \<Rightarrow> MaterializeStats
   \<Rightarrow> (CasError, MaterializeStats) prog" where
  "materialize_file st intent child d sz executable stats =
     (let src = object_path st d in
      bnd (exists_path src) (\<lambda>present.
      if \<not> present then throw (Missing d)
      else
        let place = (if executable then PrivateInode else intent) in
        bnd (cas_io ''materialize file'' child (link_materialize src child place)) (\<lambda>mode.
        let stats' = stats_record stats mode sz in
        if mode \<noteq> Hardlink then
          bnd (cas_io ''stat for chmod'' child (fs_metadata child)) (\<lambda>_.
          bnd (cas_io ''chmod'' child (set_permissions child (want_mode intent executable))) (\<lambda>_.
          ret stats'))
        else ret stats')))"

definition materialize_node ::
  "'h ObjectStore \<Rightarrow> (digest \<Rightarrow> path \<Rightarrow> MaterializeStats \<Rightarrow> (CasError, MaterializeStats) prog)
   \<Rightarrow> Intent \<Rightarrow> path \<Rightarrow> EntryName \<times> Node \<Rightarrow> MaterializeStats \<Rightarrow> (CasError, MaterializeStats) prog" where
  "materialize_node st sub intent dest e stats =
     (let child = join dest (en_str (fst e)) in
      case snd e of
        NodeFile d sz executable \<Rightarrow> materialize_file st intent child d sz executable stats
      | NodeDir d \<Rightarrow> sub d child stats
      | NodeSymlink target \<Rightarrow>
        bnd (cas_io ''symlink'' child (symlink target child)) (\<lambda>_.
        ret (stats\<lparr>symlinks := symlinks stats + 1\<rparr>)))"

text \<open>The first argument is the number of levels left, \<open>MAX_DEPTH + 1 - depth\<close>.\<close>

primrec materialize_into ::
  "nat \<Rightarrow> 'h ObjectStore \<Rightarrow> Intent \<Rightarrow> digest \<Rightarrow> path \<Rightarrow> MaterializeStats \<Rightarrow> (CasError, MaterializeStats) prog" where
  "materialize_into 0 st intent d dest stats = throw (TreeTooDeep MAX_DEPTH)"
| "materialize_into (Suc n) st intent d dest stats =
     bnd (cas_io ''create dir'' dest (create_dir dest)) (\<lambda>_.
     let stats' = stats\<lparr>dirs := dirs stats + 1\<rparr> in
     bnd (get_tree st d) (\<lambda>t.
     fold_prog (materialize_node st (materialize_into n st intent) intent dest) (tree_iter t) stats'))"

definition materialize_tree ::
  "'h ObjectStore \<Rightarrow> digest \<Rightarrow> path \<Rightarrow> Intent \<Rightarrow> (CasError, MaterializeStats) prog" where
  "materialize_tree st d dest intent =
     try_with (lstat dest) (\<lambda>r. case r of
       Inr _ \<Rightarrow> throw (DestinationExists dest)
     | Inl _ \<Rightarrow> materialize_into (Suc MAX_DEPTH) st intent d dest stats_default)"

text \<open>A validated name joins as one component: the result cannot leave the directory.\<close>

lemma join_safe: "safe_name n \<Longrightarrow> join p n = p @ [n]"
proof -
  assume s: "safe_name n"
  then have "\<not> starts_with ''/'' n" by (auto simp: starts_with_iff safe_name_def)
  then show ?thesis using s by (simp add: join_def safe_name_def split_char_single)
qed

section \<open>The store invariant\<close>

definition store_wf :: "'h ObjectStore \<Rightarrow> bool" where
  "store_wf st \<longleftrightarrow> os_objects st = os_root st @ [''objects''] \<and> os_tmp st = os_root st @ [''tmp''] \<and>
     hex_ok (os_hex st) \<and> blake3_ok (os_b3 st)"

text \<open>Bytes may be stored under the digest of a blob or of an encoded manifest.\<close>

definition tree_hash :: "'h blake3_crate \<Rightarrow> bytes \<Rightarrow> digest" where
  "tree_hash b bs = hasher_finalize b (hasher_update b (hasher_keyed b ctx_TREE) bs)"

definition object_hash :: "'h blake3_crate \<Rightarrow> bytes \<Rightarrow> digest \<Rightarrow> bool" where
  "object_hash b bs d \<longleftrightarrow> d = blob_digest b bs \<or> d = tree_hash b bs"

definition good_object :: "'h ObjectStore \<Rightarrow> world \<Rightarrow> digest \<Rightarrow> bool" where
  "good_object st w d \<longleftrightarrow>
     (case ent w (object_path st d) of
        None \<Rightarrow> True
      | Some (DFile i) \<Rightarrow> object_hash (os_b3 st) (ino_data (inos w i)) d \<and> ino_mode (inos w i) = OBJECT_MODE
      | Some _ \<Rightarrow> False)"

definition store_inv :: "'h ObjectStore \<Rightarrow> world \<Rightarrow> bool" where
  "store_inv st w \<longleftrightarrow> wf_world w \<and> ent w (os_objects st) = Some DDir \<and> ent w (os_tmp st) = Some DDir \<and>
     (\<forall>d. wf_digest d \<longrightarrow> good_object st w d) \<and>
     (\<forall>d i p. wf_digest d \<longrightarrow> ent w (staging_path st d) = Some (DFile i) \<longrightarrow> ent w p = Some (DFile i) \<longrightarrow>
        p = staging_path st d)"

text \<open>What a store operation leaves alone: everything outside the store's directory, and the
  presence of every object.\<close>

definition evolves :: "'h ObjectStore \<Rightarrow> world \<Rightarrow> world \<Rightarrow> bool" where
  "evolves st w w' \<longleftrightarrow> next_ino w \<le> next_ino w' \<and> fault w' = fault w \<and> now w' = now w \<and>
     create_mode w' = create_mode w \<and>
     (\<forall>p. \<not> prefix (os_root st) p \<longrightarrow> ent w' p = ent w p \<and>
        (\<forall>i. ent w p = Some (DFile i) \<longrightarrow> inos w' i = inos w i)) \<and>
     (\<forall>d. ent w (object_path st d) \<noteq> None \<longrightarrow> ent w' (object_path st d) \<noteq> None)"

lemma evolves_refl [simp]: "evolves st w w" "evolves st w (w\<lparr>tick := n\<rparr>)"
  by (simp_all add: evolves_def)

lemma evolves_tick [simp]:
  "evolves st w (w1\<lparr>tick := n\<rparr>) = evolves st w w1" "evolves st (w\<lparr>tick := n\<rparr>) w1 = evolves st w w1"
  by (simp_all add: evolves_def)

lemma evolves_trans: "evolves st w w1 \<Longrightarrow> evolves st w1 w2 \<Longrightarrow> evolves st w w2"
  by (auto simp: evolves_def)

lemma evolves_present:
  "evolves st w w' \<Longrightarrow> ent w (object_path st d) \<noteq> None \<Longrightarrow> ent w' (object_path st d) \<noteq> None"
  by (simp add: evolves_def)

lemma store_inv_tick [simp]: "store_inv st (w\<lparr>tick := n\<rparr>) = store_inv st w"
  by (simp add: store_inv_def good_object_def cong: option.case_cong dirent.case_cong)

lemma store_inv_wf: "store_inv st w \<Longrightarrow> wf_world w"
  by (simp add: store_inv_def)

lemma object_path_inject:
  assumes "store_wf st" "wf_digest d" "wf_digest d'" "object_path st d = object_path st d'"
  shows "d = d'"
  using assms to_hex_inject [of "os_hex st" d d'] by (simp add: object_path_def store_wf_def)

lemma staging_path_inject:
  assumes "store_wf st" "wf_digest d" "wf_digest d'" "staging_path st d = staging_path st d'"
  shows "d = d'"
  using assms to_hex_inject [of "os_hex st" d d'] by (simp add: staging_path_def store_wf_def)

lemma store_paths:
  assumes "store_wf st"
  shows "staging_path st d \<noteq> object_path st d'" "staging_path st d \<noteq> butlast (object_path st d')"
    "butlast (object_path st d) \<noteq> object_path st d'" "butlast (object_path st d) \<noteq> staging_path st d'"
    "butlast (object_path st d) = os_objects st @ [fanout d]"
    "prefix (os_root st) (staging_path st d)" "prefix (os_root st) (object_path st d)"
    "prefix (os_root st) (butlast (object_path st d))"
    "os_objects st \<noteq> staging_path st d" "os_tmp st \<noteq> staging_path st d"
    "os_objects st \<noteq> object_path st d" "os_tmp st \<noteq> object_path st d"
    "os_objects st \<noteq> butlast (object_path st d)" "os_tmp st \<noteq> butlast (object_path st d)"
    "object_path st d \<noteq> []" "staging_path st d \<noteq> []"
  using assms by (auto simp: store_wf_def staging_path_def object_path_def butlast_append)

lemma wf_prefix_dir:
  assumes "wf_world w" "ent w p \<noteq> None" "prefix q p" "q \<noteq> p"
  shows "ent w q = Some DDir"
  using assms(2-4)
proof (induction p rule: rev_induct)
  case Nil
  then show ?case by simp
next
  case (snoc x p)
  have p: "ent w p = Some DDir"
    using wf_parent [OF assms(1), of "p @ [x]"] snoc.prems(1) by simp
  show ?case
  proof (cases "q = p")
    case True
    then show ?thesis using p by simp
  next
    case False
    with snoc.prems have "prefix q p" by simp
    then show ?thesis using snoc.IH p False by simp
  qed
qed

section \<open>Steps before the commit\<close>

definition staging_step :: "'h ObjectStore \<Rightarrow> digest \<Rightarrow> world \<Rightarrow> world \<Rightarrow> bool" where
  "staging_step st d w w' \<longleftrightarrow> wf_world w' \<and> next_ino w \<le> next_ino w' \<and>
     fault w' = fault w \<and> now w' = now w \<and> create_mode w' = create_mode w \<and>
     (\<forall>p. p \<noteq> staging_path st d \<longrightarrow> p \<noteq> butlast (object_path st d) \<longrightarrow> ent w' p = ent w p) \<and>
     (ent w' (butlast (object_path st d)) = ent w (butlast (object_path st d)) \<or>
      ent w (butlast (object_path st d)) = None \<and> ent w' (butlast (object_path st d)) = Some DDir) \<and>
     (ent w' (staging_path st d) = ent w (staging_path st d) \<or> ent w' (staging_path st d) = None \<or>
      (\<exists>j. ent w' (staging_path st d) = Some (DFile j) \<and> next_ino w \<le> j)) \<and>
     (\<forall>i. i < next_ino w \<longrightarrow> ent w (staging_path st d) \<noteq> Some (DFile i) \<longrightarrow> inos w' i = inos w i)"

lemma staging_step_tick: "wf_world w \<Longrightarrow> staging_step st d w (w\<lparr>tick := n\<rparr>)"
  by (simp add: staging_step_def)

lemma staging_step_trans:
  assumes "staging_step st d w w1" "staging_step st d w1 w2"
  shows "staging_step st d w w2"
proof -
  have "inos w2 i = inos w i" if "i < next_ino w" "ent w (staging_path st d) \<noteq> Some (DFile i)" for i
  proof -
    have "ent w1 (staging_path st d) \<noteq> Some (DFile i)"
      using assms(1) that by (auto simp: staging_step_def)
    then show ?thesis using assms that by (auto simp: staging_step_def)
  qed
  moreover have "next_ino w \<le> next_ino w1" "next_ino w1 \<le> next_ino w2"
    using assms by (simp_all add: staging_step_def)
  ultimately show ?thesis using assms unfolding staging_step_def
    by (elim conjE) (intro conjI allI impI, auto intro: order_trans)
qed

lemma staging_step_store_inv:
  assumes "store_wf st" "wf_digest d" "store_inv st w" "staging_step st d w w'"
  shows "store_inv st w' \<and> evolves st w w'"
proof -
  let ?s = "staging_path st d" and ?f = "butlast (object_path st d)"
  have wf: "wf_world w" using assms(3) by (rule store_inv_wf)
  have same: "ent w' p = ent w p" if "p \<noteq> ?s" "p \<noteq> ?f" for p
    using assms(4) that by (simp add: staging_step_def)
  have obj: "ent w' (object_path st e) = ent w (object_path st e)" for e
    using same store_paths [OF assms(1)] by metis
  have excl: "p = ?s" if "ent w ?s = Some (DFile i)" "ent w p = Some (DFile i)" for p i
    using assms(2,3) that by (auto simp: store_inv_def)
  have ino: "inos w' i = inos w i" if "ent w p = Some (DFile i)" "p \<noteq> ?s" for p i
    using assms(4) that excl wf_file [OF wf that(1)] by (auto simp: staging_step_def)
  have fan: "ent w' ?f \<noteq> Some (DFile i)" if "ent w ?f \<noteq> Some (DFile i)" for i
    using assms(4) that by (auto simp: staging_step_def)
  have old: "ent w p = Some (DFile i)" if "ent w' p = Some (DFile i)" "p \<noteq> ?s" for p i
    using that same fan by metis
  have new: "ent w ?s = Some (DFile i) \<or> next_ino w \<le> i" if "ent w' ?s = Some (DFile i)" for i
    using assms(4) that by (auto simp: staging_step_def)
  have unique: "p = staging_path st e"
    if e: "wf_digest e" and st: "ent w' (staging_path st e) = Some (DFile i)" and p: "ent w' p = Some (DFile i)" for e i p
  proof (cases "e = d")
    case True
    then show ?thesis
      using new st p old excl wf_file [OF wf] by (metis leD)
  next
    case False
    then have ne: "staging_path st e \<noteq> ?s"
      using staging_path_inject [OF assms(1) e assms(2)] by auto
    then have i: "ent w (staging_path st e) = Some (DFile i)" using old st by blast
    have "p \<noteq> ?s"
      using new p i wf_file [OF wf i] excl ne by (metis leD)
    then have "ent w p = Some (DFile i)" using old p by blast
    then show ?thesis using assms(3) e i by (auto simp: store_inv_def)
  qed
  have good: "good_object st w' e" if "wf_digest e" for e
  proof -
    have "good_object st w e" using assms(3) that by (simp add: store_inv_def)
    moreover have "inos w' i = inos w i" if "ent w (object_path st e) = Some (DFile i)" for i
      using ino [OF that] store_paths(1) [OF assms(1)] by metis
    ultimately show ?thesis by (auto simp: good_object_def obj split: option.splits dirent.splits)
  qed
  have "store_inv st w'"
    unfolding store_inv_def
    using assms(3,4) good unique same store_paths [OF assms(1)]
    by (metis staging_step_def store_inv_def)
  moreover have "evolves st w w'"
    unfolding evolves_def
    using assms(4) same ino obj store_paths(6,8) [OF assms(1)] unfolding staging_step_def by metis
  ultimately show ?thesis ..
qed

text \<open>The commit: the sealed staging file becomes the object.\<close>

lemma commit_store_inv:
  assumes "store_wf st" "wf_digest d" "store_inv st w"
    and stg: "ent w (staging_path st d) = Some (DFile i)"
    and hash: "object_hash (os_b3 st) (ino_data (inos w i)) d" "ino_mode (inos w i) = OBJECT_MODE"
    and w': "wf_world w'" "frame {staging_path st d, object_path st d} {} w w'" "inos w' = inos w"
      "ent w' (object_path st d) = Some (DFile i)" "ent w' (staging_path st d) = None"
  shows "store_inv st w' \<and> evolves st w w'"
proof -
  let ?s = "staging_path st d" and ?o = "object_path st d"
  have same: "ent w' p = ent w p" if "p \<noteq> ?s" "p \<noteq> ?o" for p
    using frame_ent [OF w'(2)] that by blast
  have good: "good_object st w' e" if "wf_digest e" for e
  proof (cases "e = d")
    case True
    then show ?thesis using w'(3,4) hash by (simp add: good_object_def)
  next
    case False
    then have "ent w' (object_path st e) = ent w (object_path st e)"
      using same object_path_inject [OF assms(1) that assms(2)] store_paths(1) [OF assms(1)] by metis
    moreover have "good_object st w e" using assms(3) that by (simp add: store_inv_def)
    ultimately show ?thesis
      by (simp add: good_object_def w'(3) split: option.splits dirent.splits)
  qed
  have unique: "p = staging_path st e"
    if e: "wf_digest e" and s: "ent w' (staging_path st e) = Some (DFile k)" and p: "ent w' p = Some (DFile k)" for e k p
  proof -
    have ne: "staging_path st e \<noteq> ?s" using s w'(5) by auto
    then have k: "ent w (staging_path st e) = Some (DFile k)"
      using s same store_paths(1) [OF assms(1)] by metis
    have ex: "q = staging_path st e" if "ent w q = Some (DFile k)" for q
      using assms(3) e k that by (auto simp: store_inv_def)
    have "k \<noteq> i" using ex stg ne by metis
    then have "p \<noteq> ?o" using p w'(4) by auto
    moreover have "p \<noteq> ?s" using p w'(5) by auto
    ultimately show ?thesis using ex p same by metis
  qed
  have "store_inv st w'"
    unfolding store_inv_def
    using assms(3) w'(1) good unique same store_paths [OF assms(1)] by (metis store_inv_def)
  moreover have "evolves st w w'"
    using w'(2,3,4) same store_paths [OF assms(1)] unfolding evolves_def frame_def
    by (metis option.distinct(1))
  ultimately show ?thesis ..
qed

section \<open>Runs of the internal operations\<close>

definition dirs_added :: "path \<Rightarrow> world \<Rightarrow> world \<Rightarrow> bool" where
  "dirs_added p w w' \<longleftrightarrow> wf_world w' \<and> inos w' = inos w \<and> next_ino w' = next_ino w \<and>
     fault w' = fault w \<and> now w' = now w \<and> create_mode w' = create_mode w \<and>
     (\<forall>q. ent w' q = ent w q \<or> ent w q = None \<and> ent w' q = Some DDir \<and> prefix q p)"

lemma dirs_added_trans:
  assumes "dirs_added p w w1" "dirs_added q w1 w2" "prefix p r" "prefix q r"
  shows "dirs_added r w w2"
proof -
  have "ent w2 x = ent w x \<or> ent w x = None \<and> ent w2 x = Some DDir \<and> prefix x r" for x
    using assms unfolding dirs_added_def by (metis prefix_order.trans)
  then show ?thesis using assms unfolding dirs_added_def by simp
qed

lemma create_dir_added: "wf_world w \<Longrightarrow> create_dir p w = (r, w') \<Longrightarrow> dirs_added p w w'"
  using create_dir_run [of w p r w'] unfolding dirs_added_def frame_def
  by (cases r) (auto, metis+)

lemma mkdir_or_exists_added:
  "wf_world w \<Longrightarrow> mkdir_or_exists p w = (r, w') \<Longrightarrow> dirs_added p w w'"
  by (auto simp: mkdir_or_exists_def is_dir_def bnd_def ret_def throw_def try_with_def
      dest!: create_dir_added split: sum.splits prod.splits if_splits)

lemma create_dirs_added:
  "wf_world w \<Longrightarrow> create_dirs n p w = (r, w') \<Longrightarrow> dirs_added p w w'"
proof (induction n arbitrary: p w r w')
  case 0
  then show ?case by (simp add: mkdir_or_exists_added)
next
  case (Suc n)
  obtain q w1 where q: "create_dir p w = (q, w1)"
    by (cases "create_dir p w")
  note c = create_dir_added [OF Suc.prems(1) q]
  have wf1: "wf_world w1" using c by (simp add: dirs_added_def)
  show ?case
  proof (cases "q = Inl ENOENT \<and> p \<noteq> []")
    case False
    then have "w' = w1"
      using Suc.prems(2) q
      by (auto simp: try_with_def is_dir_def bnd_def ret_def throw_def split: sum.splits errno.splits if_splits)
    then show ?thesis using c by simp
  next
    case True
    then have "bnd (create_dirs n (butlast p)) (\<lambda>_. mkdir_or_exists p) w1 = (r, w')"
      using Suc.prems(2) q by (simp add: try_with_def)
    then show ?thesis
    proof (cases rule: bndE)
      case (err e)
      have "dirs_added (butlast p) w1 w'" using Suc.IH [OF wf1 err(1)] .
      then show ?thesis using dirs_added_trans [OF c] by (simp add: prefixeq_butlast)
    next
      case (ok x w2)
      have b: "dirs_added (butlast p) w1 w2" using Suc.IH [OF wf1 ok(1)] .
      then have "dirs_added p w w2" using dirs_added_trans [OF c] by (simp add: prefixeq_butlast)
      moreover have "dirs_added p w2 w'"
        using mkdir_or_exists_added [OF _ ok(2)] b by (simp add: dirs_added_def)
      ultimately show ?thesis using dirs_added_trans by blast
    qed
  qed
qed

lemma cas_ioE:
  assumes "cas_io op p m w = (r, w')"
  obtains (err) e where "m w = (Inl e, w')" "r = Inl (CasIo op p e)"
  | (ok) x where "m w = (Inr x, w')" "r = Inr x"
  using assms unfolding cas_io_def by (cases rule: map_errE) auto

lemma frame_staging_step:
  assumes "wf_world w'" "frame {staging_path st d} {i. ent w (staging_path st d) = Some (DFile i)} w w'"
    "ent w' (staging_path st d) = ent w (staging_path st d) \<or> ent w' (staging_path st d) = None \<or>
      (\<exists>j. ent w' (staging_path st d) = Some (DFile j) \<and> next_ino w \<le> j)"
    "store_wf st"
  shows "staging_step st d w w'"
  using assms store_paths(4) [OF assms(4), of d d] by (auto simp: staging_step_def frame_def)

lemma set_permissions_staging:
  "wf_world w \<Longrightarrow> store_wf st \<Longrightarrow> set_permissions (staging_path st d) m w = (r, w') \<Longrightarrow> staging_step st d w w'"
  using set_permissions_run [of w "staging_path st d" m r w']
  by (intro frame_staging_step) (auto elim: frame_mono simp: frame_ent)

lemma remove_file_staging:
  "wf_world w \<Longrightarrow> store_wf st \<Longrightarrow> remove_file (staging_path st d) w = (r, w') \<Longrightarrow> staging_step st d w w'"
  using remove_file_run [of w "staging_path st d" r w']
  by (intro frame_staging_step) (auto elim: frame_mono split: sum.splits)

lemma create_fanout_staging:
  assumes "store_wf st" "store_inv st w" "create_dir_all (butlast (object_path st d)) w = (r, w')"
  shows "staging_step st d w w' \<and> ent w' (staging_path st d) = ent w (staging_path st d) \<and> inos w' = inos w"
proof -
  let ?f = "butlast (object_path st d)"
  have wf: "wf_world w" and o: "ent w (os_objects st) = Some DDir"
    using assms(2) by (simp_all add: store_inv_def)
  have a: "dirs_added ?f w w'"
    using create_dirs_added [OF wf] assms(3) by (simp add: create_dir_all_def)
  have "ent w q = Some DDir" if "prefix q ?f" "q \<noteq> ?f" for q
  proof (cases "q = os_objects st")
    case False
    then have "prefix q (os_objects st)"
      using that store_paths(5) [OF assms(1), of d] by simp
    then show ?thesis using wf_prefix_dir [OF wf, of "os_objects st" q] o False by simp
  qed (simp add: o)
  then have "ent w' q = ent w q" if "q \<noteq> ?f" for q
    using a that by (fastforce simp: dirs_added_def)
  moreover have "ent w' ?f = ent w ?f \<or> ent w ?f = None \<and> ent w' ?f = Some DDir"
    using a by (auto simp: dirs_added_def)
  ultimately show ?thesis
    using a store_paths(2) [OF assms(1), of d d] by (auto simp: staging_step_def dirs_added_def)
qed

lemma sync_parent_looks:
  "(if b then try_with (open_dir p) (\<lambda>dir. case dir of Inl _ \<Rightarrow> ret () | Inr _ \<Rightarrow> ignore (sync_all 0)) else ret ()) w
     = (r, w') \<Longrightarrow> r = Inr () \<and> (\<exists>n. w' = w\<lparr>tick := n\<rparr>)"
  by (auto simp: try_with_def open_dir_def ignore_def sync_all_def syscall_def ret_def throw_def Let_def
      split: if_splits option.splits prod.splits sum.splits)
    (metis world.surjective world.update_convs(4))+

lemma commit_object_run:
  assumes st: "store_wf st" "wf_digest d" and inv: "store_inv st w"
    and i: "ent w (staging_path st d) = Some (DFile i)"
    and hash: "object_hash (os_b3 st) (ino_data (inos w i)) d" "ino_mode (inos w i) = OBJECT_MODE"
    and run: "commit_object st d (staging_path st d) w = (r, w')"
  shows "store_inv st w' \<and> evolves st w w' \<and>
    (r = Inr () \<longrightarrow> content w' (object_path st d) = Some (ino_data (inos w i)))"
proof -
  let ?s = "staging_path st d" and ?o = "object_path st d"
  have wf: "wf_world w" using inv by (rule store_inv_wf)
  obtain q w1 where q: "rename ?s ?o w = (q, w1)" and
    rest: "(case q of
        Inl e \<Rightarrow> bnd (ignore (remove_file ?s)) (\<lambda>_. throw (CasIo ''commit object'' ?o e))
      | Inr _ \<Rightarrow> if os_durability st = Synced then
          try_with (open_dir (butlast ?o)) (\<lambda>dir. case dir of Inl _ \<Rightarrow> ret () | Inr _ \<Rightarrow> ignore (sync_all 0))
        else ret ()) w1 = (r, w')"
    using run [unfolded commit_object_def Let_def] by (rule try_withE)
  note rn = rename_run [OF wf store_paths(1) [OF st(1)] q]
  show ?thesis
  proof (cases q)
    case (Inl e)
    then obtain q' where rm: "remove_file ?s w1 = (q', w')" and r: "r \<noteq> Inr ()"
      using rest by (auto simp: ignore_def ret_def throw_def bnd_def elim!: try_withE)
    have "ent w1 p = ent w p" for p
      using rn Inl by (cases "p = ?s \<or> p = ?o") (auto simp: frame_def)
    then have "staging_step st d w w1"
      using rn by (simp add: staging_step_def frame_def)
    moreover have "staging_step st d w1 w'"
      using remove_file_staging [OF _ st(1) rm] rn by blast
    ultimately show ?thesis
      using staging_step_store_inv [OF st inv] staging_step_trans r by blast
  next
    case (Inr u)
    obtain k where r: "r = Inr ()" and w': "w' = w1\<lparr>tick := k\<rparr>"
      using sync_parent_looks [OF rest [unfolded Inr sum.case]] by blast
    have "store_inv st w1 \<and> evolves st w w1"
      using rn Inr i by (intro commit_store_inv [OF st inv i hash]) auto
    then have "store_inv st w'" "evolves st w w'"
      using w' by simp_all
    moreover have "content w' ?o = Some (ino_data (inos w i))"
      using rn Inr w' i by (simp add: content_def)
    ultimately show ?thesis by simp
  qed
qed

lemma seal_and_commit_run:
  assumes st: "store_wf st" "wf_digest d" and inv: "store_inv st w"
    and stg: "\<And>bs. content w (staging_path st d) = Some bs \<Longrightarrow> object_hash (os_b3 st) bs d"
    and run: "seal_and_commit st d (staging_path st d) w = (r, w')"
  shows "store_inv st w' \<and> evolves st w w' \<and>
    (r = Inr () \<longrightarrow> content w (staging_path st d) \<noteq> None \<and>
       content w' (object_path st d) = content w (staging_path st d))"
proof -
  let ?s = "staging_path st d" and ?o = "object_path st d"
  note SI = staging_step_store_inv [OF st inv]
  from run [unfolded seal_and_commit_def] show ?thesis
  proof (cases rule: bndE)
    case (err e)
    then show ?thesis using inv
      by (auto simp: cas_io_def elim!: map_errE looksE [OF _ looks_calls(5)])
  next
    case (ok x w1)
    then obtain n i where w1: "w1 = w\<lparr>tick := n\<rparr>" and i: "ent w ?s = Some (DFile i)"
      by (auto simp: cas_io_def elim!: map_errE looksE [OF _ looks_calls(5)])
    have wf1: "wf_world w1" using inv w1 store_inv_wf by auto
    have s1: "staging_step st d w w1" using staging_step_tick store_inv_wf inv w1 by blast
    from ok(2) show ?thesis
    proof (cases rule: bndE)
      case (err e)
      then obtain e' where "set_permissions ?s OBJECT_MODE w1 = (Inl e', w')" "r = Inl e"
        by (auto simp: cas_io_def elim!: map_errE)
      then show ?thesis
        using SI [OF staging_step_trans [OF s1 set_permissions_staging [OF wf1 st(1)]]] by auto
    next
      case (ok y w2)
      then have p: "set_permissions ?s OBJECT_MODE w1 = (Inr y, w2)"
        by (auto simp: cas_io_def elim!: map_errE)
      have s2: "staging_step st d w w2"
        using staging_step_trans [OF s1 set_permissions_staging [OF wf1 st(1) p]] .
      have i2: "ent w2 ?s = Some (DFile i)" "ino_mode (inos w2 i) = OBJECT_MODE"
          "ino_data (inos w2 i) = ino_data (inos w i)"
        using set_permissions_run [OF wf1 p] i w1 by (auto simp: frame_ent)
      have inv2: "store_inv st w2" using SI [OF s2] by simp
      from ok(2) [unfolded Let_def] show ?thesis
      proof (cases rule: bndE)
        case (err e)
        then obtain e' where "create_dir_all (butlast ?o) w2 = (Inl e', w')" "r = Inl e"
          by (auto simp: cas_io_def elim!: map_errE)
        then show ?thesis
          using SI [OF staging_step_trans [OF s2]] create_fanout_staging [OF st(1) inv2] by auto
      next
        case (ok z w3)
        then have "create_dir_all (butlast ?o) w2 = (Inr z, w3)"
          by (auto simp: cas_io_def elim!: map_errE)
        note c = create_fanout_staging [OF st(1) inv2 this]
        have inv3: "store_inv st w3" "evolves st w w3"
          using SI staging_step_trans [OF s2] c by blast+
        have ci: "content w ?s = Some (ino_data (inos w i))" using i by (simp add: content_def)
        show ?thesis
          using commit_object_run [OF st inv3(1) _ _ _ ok(2)] c i2 stg [OF ci] ci
            evolves_trans [OF inv3(2)] by simp
      qed
    qed
  qed
qed

section \<open>Insertion keeps the invariant\<close>

lemma blob_digest_keyed: "blake3_ok b \<Longrightarrow> blob_digest b bs = digest_keyed b ctx_BLOB bs"
  by (simp add: blob_digest_def hasher_one_update)

lemma tree_hash_keyed: "blake3_ok b \<Longrightarrow> tree_hash b bs = digest_keyed b ctx_TREE bs"
  by (simp add: tree_hash_def hasher_one_update)

lemma tree_digest_hash: "tree_digest b t = tree_hash b (tree_encode t)"
  by (simp add: tree_digest_def tree_hash_def)

lemma wf_object_digests [simp]:
  assumes "store_wf st"
  shows "wf_digest (blob_digest (os_b3 st) bs)" "wf_digest (tree_digest (os_b3 st) t)"
  using assms
  by (simp_all add: store_wf_def blob_digest_keyed tree_digest_hash tree_hash_keyed wf_digest_keyed)

lemma open_truncate_staging:
  "wf_world w \<Longrightarrow> store_wf st \<Longrightarrow> open_truncate (staging_path st d) w = (r, w') \<Longrightarrow> staging_step st d w w'"
  using open_truncate_run [of w "staging_path st d" r w']
  by (intro frame_staging_step) (auto split: sum.splits simp: frame_ent)

lemma frame_writes_staging:
  assumes "wf_world w'" "frame {} {f} w w'" "ent w (staging_path st d) = Some (DFile f)" "store_wf st"
  shows "staging_step st d w w'"
  using assms by (intro frame_staging_step) (auto elim: frame_mono simp: frame_ent)

lemma insert_staged_run:
  assumes st: "store_wf st" "wf_digest d" and inv: "store_inv st w" and hash: "object_hash (os_b3 st) bs d"
    and wr: "\<And>f w1 q w2. staging_step st d w w1 \<Longrightarrow> ent w1 (staging_path st d) = Some (DFile f) \<Longrightarrow>
        ino_data (inos w1 f) = [] \<Longrightarrow> write f w1 = (q, w2) \<Longrightarrow>
        wf_world w2 \<and> frame {} {f} w1 w2 \<and> (q = Inr () \<longrightarrow> ino_data (inos w2 f) = bs)"
    and run: "insert_staged st d write w = (r, w')"
  shows "store_inv st w' \<and> evolves st w w' \<and> (r = Inr () \<longrightarrow> content w' (object_path st d) = Some bs)"
proof -
  let ?s = "staging_path st d"
  note SI = staging_step_store_inv [OF st inv]
  have wf: "wf_world w" using inv by (rule store_inv_wf)
  from run [unfolded insert_staged_def Let_def] show ?thesis
  proof (cases rule: bndE)
    case (err e)
    then show ?thesis
      using SI [OF open_truncate_staging [OF wf st(1)]] by (auto elim!: cas_ioE)
  next
    case (ok f w1)
    then have o: "open_truncate ?s w = (Inr f, w1)" by (auto elim!: cas_ioE)
    have s1: "staging_step st d w w1" by (rule open_truncate_staging [OF wf st(1) o])
    have f: "ent w1 ?s = Some (DFile f)" "ino_data (inos w1 f) = []"
      using open_truncate_run [OF wf o] by auto
    note W = wr [OF s1 f]
    have s2: "staging_step st d w w2" if "write f w1 = (q, w2)" for q w2
      using staging_step_trans [OF s1 frame_writes_staging] W [OF that] f(1) st(1) by blast
    from ok(2) show ?thesis
    proof (cases rule: bndE)
      case (err e)
      then show ?thesis using SI [OF s2] by (auto elim!: cas_ioE)
    next
      case (ok x w2)
      then have q: "write f w1 = (Inr (), w2)" by (auto elim!: cas_ioE)
      have c2: "content w2 ?s = Some bs"
        using W [OF q] f(1) by (simp add: content_def frame_def)
      from ok(2) show ?thesis
      proof (cases rule: bndE)
        case (err e)
        then obtain n where "w' = w2\<lparr>tick := n\<rparr>" "r = Inl e"
          by (auto simp: ret_def split: if_splits elim!: cas_ioE looksE [OF _ looks_calls(6)])
        then show ?thesis
          using SI [OF s2 [OF q]] evolves_trans [of st w w2 w'] by simp
      next
        case (ok y w3)
        then obtain n where w3: "w3 = w2\<lparr>tick := n\<rparr> \<or> w3 = w2"
          by (auto simp: ret_def split: if_splits elim!: cas_ioE looksE [OF _ looks_calls(6)])
        have inv3: "store_inv st w3" "evolves st w w3" "content w3 ?s = Some bs"
          using SI [OF s2 [OF q]] evolves_trans [of st w w2 w3] w3 c2 by auto
        show ?thesis
          using seal_and_commit_run [OF st inv3(1) _ ok(2)] inv3(3) hash evolves_trans [OF inv3(2)] by auto
      qed
    qed
  qed
qed

lemma has_run:
  assumes "has st d w = (r, w')"
  obtains n b where "w' = w\<lparr>tick := n\<rparr>" "r = Inr b" "b \<Longrightarrow> ent w (object_path st d) \<noteq> None"
proof -
  have "wp (has st d) (\<lambda>r w'. \<exists>n b. w' = w\<lparr>tick := n\<rparr> \<and> r = Inr b \<and> (b \<longrightarrow> ent w (object_path st d) \<noteq> None)) w"
    unfolding has_def by (rule exists_path_wp) blast
  with assms that show ?thesis by (auto dest: wpD)
qed

lemma write_all_writes:
  assumes "wf_world w" "ino_data (inos w f) = []" "write_all f bs w = (q, w')"
  shows "wf_world w' \<and> frame {} {f} w w' \<and> (q = Inr () \<longrightarrow> ino_data (inos w' f) = bs)"
  using write_all_run [OF assms(1,3)] assms(2) by simp

text \<open>The two insertions of bytes share their shape: look, then stage and commit.\<close>

definition put_object :: "'h ObjectStore \<Rightarrow> digest \<Rightarrow> bytes \<Rightarrow> (CasError, digest) prog" where
  "put_object st d bs =
     bnd (has st d) (\<lambda>present.
     if present then ret d
     else bnd (insert_staged st d (\<lambda>f. write_all f bs)) (\<lambda>_. ret d))"

lemma put_bytes_object: "put_bytes st bs = put_object st (blob_digest (os_b3 st) bs) bs"
  by (simp add: put_bytes_def put_object_def Let_def)

lemma put_tree_object: "put_tree st t = put_object st (tree_digest (os_b3 st) t) (tree_encode t)"
  by (simp add: put_tree_def put_object_def Let_def)

lemma put_object_run:
  assumes st: "store_wf st" "wf_digest d" and inv: "store_inv st w" and hash: "object_hash (os_b3 st) bs d"
    and run: "put_object st d bs w = (r, w')"
  shows "store_inv st w' \<and> evolves st w w' \<and>
    (\<forall>x. r = Inr x \<longrightarrow> x = d \<and> ent w' (object_path st d) \<noteq> None \<and>
       (ent w (object_path st d) = None \<longrightarrow> content w' (object_path st d) = Some bs))"
proof -
  obtain n b where h: "has st d w = (Inr b, w\<lparr>tick := n\<rparr>)" "b \<Longrightarrow> ent w (object_path st d) \<noteq> None"
    by (metis has_run prod.exhaust_sel)
  let ?w = "w\<lparr>tick := n\<rparr>"
  have run': "(if b then ret d else bnd (insert_staged st d (\<lambda>f. write_all f bs)) (\<lambda>_. ret d)) ?w = (r, w')"
    using run h(1) by (simp add: put_object_def bnd_def try_with_def)
  show ?thesis
  proof (cases b)
    case True
    then show ?thesis using run' inv h(2) by (auto simp: ret_def)
  next
    case False
    have inv': "store_inv st ?w" using inv by simp
    obtain q where q: "insert_staged st d (\<lambda>f. write_all f bs) ?w = (q, w')"
      and r: "r = (case q of Inl e \<Rightarrow> Inl e | Inr _ \<Rightarrow> Inr d)"
      using run' False by (auto simp: ret_def elim!: bndE)
    have i: "store_inv st w' \<and> evolves st ?w w' \<and> (q = Inr () \<longrightarrow> content w' (object_path st d) = Some bs)"
      by (rule insert_staged_run [OF st inv' hash _ q], rule write_all_writes) (auto simp: staging_step_def)
    have "ent w' (object_path st d) \<noteq> None" if "content w' (object_path st d) = Some bs"
      using that by (auto simp: content_def split: option.splits)
    then show ?thesis
      using i r evolves_trans [of st w ?w w'] by (cases q) auto
  qed
qed

section \<open>Files\<close>

lemma hash_stream_run:
  assumes "blake3_ok b" "length (ino_data (inos w f)) - off < n" "concat ms = take off (ino_data (inos w f))"
    "hash_stream b p n f off (foldl (b3_update b) (hasher_keyed b ctx_BLOB) ms) w = (r, w')"
  shows "(\<exists>k. w' = w\<lparr>tick := k\<rparr>) \<and> (\<forall>d. r = Inr d \<longrightarrow> d = blob_digest b (ino_data (inos w f)))"
  using assms(2-)
proof (induction n arbitrary: off ms w)
  case 0
  then show ?case by simp
next
  case (Suc n)
  let ?data = "ino_data (inos w f)"
  from Suc.prems(3) [unfolded hash_stream.simps] show ?case
  proof (cases rule: bndE)
    case (err e)
    then show ?thesis by (auto elim!: cas_ioE looksE [OF _ looks_calls(3)])
  next
    case (ok buf w1)
    then obtain k where w1: "w1 = w\<lparr>tick := k\<rparr>" and buf: "buf = take STREAM_CHUNK (drop off ?data)"
      by (auto elim!: cas_ioE looksE [OF _ looks_calls(3)])
    show ?thesis
    proof (cases "buf = []")
      case True
      then have "length ?data \<le> off" using buf by (simp add: STREAM_CHUNK_def)
      then have "concat ms = ?data" using Suc.prems(2) by simp
      then have "hasher_finalize b (foldl (b3_update b) (hasher_keyed b ctx_BLOB) ms) = blob_digest b ?data"
        using assms(1) by (simp add: hasher_finalize_def hasher_keyed_def blob_digest_keyed digest_keyed_def blake3_ok_def Let_def)
      then show ?thesis using ok(2) True w1 by (auto simp: ret_def)
    next
      case False
      then have "0 < length buf" by simp
      moreover have "concat (ms @ [buf]) = take (off + length buf) ?data"
        using Suc.prems(2) buf by (simp add: take_add min_def)
      moreover have "hash_stream b p n f (off + length buf) (foldl (b3_update b) (hasher_keyed b ctx_BLOB) (ms @ [buf])) w1 = (r, w')"
        using ok(2) False by (simp add: hasher_update_def)
      moreover have "length buf \<le> length ?data - off" using buf by simp
      then have "length (ino_data (inos w1 f)) - (off + length buf) < n"
        using Suc.prems(1) \<open>0 < length buf\<close> w1 by (simp del: length_greater_0_conv)
      ultimately show ?thesis
        using Suc.IH [of w1 "off + length buf" "ms @ [buf]"] w1 by auto
    qed
  qed
qed

lemma hash_file_run:
  assumes "blake3_ok b" "hash_file b p sz w = (r, w')"
  shows "(\<exists>k. w' = w\<lparr>tick := k\<rparr>) \<and> (\<forall>d. r = Inr d \<longrightarrow> (\<exists>bs. content w p = Some bs \<and> d = blob_digest b bs))"
proof (cases "sz \<le> SMALL_FILE_LIMIT")
  case True
  then show ?thesis
    using assms(2) by (auto simp: hash_file_def ret_def content_def elim!: bndE cas_ioE looksE [OF _ looks_calls(2)])
next
  case False
  then have "bnd (cas_io ''open for hashing'' p (fs_open p)) (\<lambda>f. bnd get_world (\<lambda>w.
        hash_stream b p (Suc (length (ino_data (inos w f)))) f 0 (hasher_keyed b ctx_BLOB))) w = (r, w')"
    using assms(2) by (simp add: hash_file_def)
  then show ?thesis
  proof (cases rule: bndE)
    case (err e)
    then show ?thesis by (auto elim!: cas_ioE looksE [OF _ looks_calls(1)])
  next
    case (ok f w1)
    then obtain k where w1: "w1 = w\<lparr>tick := k\<rparr>" and f: "ent w p = Some (DFile f)"
      by (auto elim!: cas_ioE looksE [OF _ looks_calls(1)])
    have run: "hash_stream b p (Suc (length (ino_data (inos w1 f)))) f 0
        (foldl (b3_update b) (hasher_keyed b ctx_BLOB) []) w1 = (r, w')"
      using ok(2) by simp
    show ?thesis
      using hash_stream_run [OF assms(1) _ _ run] w1 f by (auto simp: content_def)
  qed
qed

lemma store_inv_source:
  assumes "store_wf st" "wf_digest d" "store_inv st w" "staging_step st d w w1"
    and p: "\<not> prefix (os_root st) p" "ent w p = Some (DFile i)"
  shows "ent w1 p = Some (DFile i)" "inos w1 i = inos w i" "ent w1 (staging_path st d) \<noteq> Some (DFile i)"
proof -
  have inv1: "store_inv st w1" and ev: "evolves st w w1"
    using staging_step_store_inv [OF assms(1-4)] by auto
  then show e: "ent w1 p = Some (DFile i)" "inos w1 i = inos w i" using p by (auto simp: evolves_def)
  show "ent w1 (staging_path st d) \<noteq> Some (DFile i)"
    using inv1 e(1) assms(2) p(1) store_paths(6) [OF assms(1), of d] unfolding store_inv_def by metis
qed

lemma place_staging:
  assumes "wf_world w" "store_wf st" "\<not> prefix (os_root st) p"
    "link_materialize p (staging_path st d) PrivateInode w = (r, w')"
  shows "staging_step st d w w' \<and> (\<forall>m. r = Inr m \<longrightarrow> content w' (staging_path st d) = content w p)"
proof -
  have ne: "p \<noteq> staging_path st d" using assms(2,3) store_paths(6) by metis
  note m = link_materialize_run [OF assms(1) ne assms(4)]
  have f: "frame {staging_path st d} {i. ent w (staging_path st d) = Some (DFile i)} w w'"
    using m by (auto elim: frame_mono)
  have "staging_step st d w w'"
    using m assms(2) by (intro frame_staging_step [OF _ f]) (auto simp: placed_def fresh_at_def split: sum.splits if_splits)
  then show ?thesis using m by (auto simp: placed_def)
qed

lemma io_copy_writes:
  assumes "wf_world w" "ino_data (inos w f) = []" "io_copy i f w = (q, w')"
  shows "wf_world w' \<and> frame {} {f} w w' \<and> (q = Inr () \<longrightarrow> ino_data (inos w' f) = ino_data (inos w i))"
  using write_all_run [of w f "ino_data (inos w i)" q w'] assms by (simp add: io_copy_def)

lemma put_copied_run:
  assumes st: "store_wf st" "wf_digest d" and inv: "store_inv st w" and p: "\<not> prefix (os_root st) p"
    and i: "ent w p = Some (DFile i)" "object_hash (os_b3 st) (ino_data (inos w i)) d"
    and run: "bnd (ignore (remove_file (staging_path st d))) (\<lambda>_.
        bnd (cas_io ''open for ingest'' p (fs_open p)) (\<lambda>src.
        bnd (insert_staged st d (\<lambda>dst. io_copy src dst)) (\<lambda>_. ret (d, sz)))) w = (r, w')"
  shows "store_inv st w' \<and> evolves st w w' \<and>
    (\<forall>x. r = Inr x \<longrightarrow> x = (d, sz) \<and> ent w' (object_path st d) \<noteq> None)"
proof -
  obtain q w1 where rm: "remove_file (staging_path st d) w = (q, w1)"
    and rest: "bnd (cas_io ''open for ingest'' p (fs_open p)) (\<lambda>src.
        bnd (insert_staged st d (\<lambda>dst. io_copy src dst)) (\<lambda>_. ret (d, sz))) w1 = (r, w')"
    using run by (auto simp: bnd_def ignore_def try_with_def ret_def split: prod.splits)
  have s1: "staging_step st d w w1" using remove_file_staging [OF store_inv_wf [OF inv] st(1) rm] .
  note inv1 = staging_step_store_inv [OF st inv s1]
  note src1 = store_inv_source [OF st inv s1 p i(1)]
  from rest show ?thesis
  proof (cases rule: bndE)
    case (err e)
    then show ?thesis using inv1 by (auto elim!: cas_ioE looksE [OF _ looks_calls(1)])
  next
    case (ok j w2)
    then obtain k where w2: "w2 = w1\<lparr>tick := k\<rparr>" and j: "j = i"
      using src1(1) by (auto elim!: cas_ioE looksE [OF _ looks_calls(1)])
    obtain q' where ins: "insert_staged st d (\<lambda>dst. io_copy i dst) w2 = (q', w')"
      and r: "r = (case q' of Inl e \<Rightarrow> Inl e | Inr _ \<Rightarrow> Inr (d, sz))"
      using ok(2) j by (auto simp: ret_def elim!: bndE)
    have inv2: "store_inv st w2" using inv1 w2 by simp
    have i2: "ent w2 p = Some (DFile i)" "inos w2 i = inos w i" using src1 w2 by simp_all
    have "store_inv st w' \<and> evolves st w2 w' \<and>
        (q' = Inr () \<longrightarrow> content w' (object_path st d) = Some (ino_data (inos w i)))"
    proof (rule insert_staged_run [OF st inv2 i(2) _ ins])
      fix f w3 q3 w4
      assume s3: "staging_step st d w2 w3" and f: "ent w3 (staging_path st d) = Some (DFile f)"
        "ino_data (inos w3 f) = []" and c: "io_copy i f w3 = (q3, w4)"
      have "wf_world w3" using s3 by (simp add: staging_step_def)
      then show "wf_world w4 \<and> frame {} {f} w3 w4 \<and> (q3 = Inr () \<longrightarrow> ino_data (inos w4 f) = ino_data (inos w i))"
        using io_copy_writes [OF _ f(2) c] store_inv_source(2) [OF st inv2 s3 p i2(1)] i2(2) by simp
    qed
    then show ?thesis
      using r inv1 w2 evolves_trans [of st w w1 w'] by (cases q') (auto simp: content_def split: option.splits)
  qed
qed

lemma put_placed_run:
  assumes st: "store_wf st" "wf_digest d" and inv: "store_inv st w" and p: "\<not> prefix (os_root st) p"
    and i: "ent w p = Some (DFile i)" "object_hash (os_b3 st) (ino_data (inos w i)) d"
    and run: "put_placed st p d sz w = (r, w')"
  shows "store_inv st w' \<and> evolves st w w' \<and>
    (\<forall>x. r = Inr x \<longrightarrow> x = (d, sz) \<and> ent w' (object_path st d) \<noteq> None)"
proof -
  let ?s = "staging_path st d"
  obtain q w1 where m: "link_materialize p ?s PrivateInode w = (q, w1)" and
    rest: "(case q of
        Inr _ \<Rightarrow> bnd (seal_and_commit st d ?s) (\<lambda>_. ret (d, sz))
      | Inl _ \<Rightarrow>
        bnd (ignore (remove_file ?s)) (\<lambda>_.
        bnd (cas_io ''open for ingest'' p (fs_open p)) (\<lambda>src.
        bnd (insert_staged st d (\<lambda>dst. io_copy src dst)) (\<lambda>_.
        ret (d, sz))))) w1 = (r, w')"
    using run [unfolded put_placed_def Let_def] by (rule try_withE)
  note pl = place_staging [OF store_inv_wf [OF inv] st(1) p m]
  note inv1 = staging_step_store_inv [OF st inv conjunct1 [OF pl]]
  note src1 = store_inv_source [OF st inv conjunct1 [OF pl] p i(1)]
  show ?thesis
  proof (cases q)
    case (Inl e)
    then show ?thesis
      using put_copied_run [OF st _ p src1(1), of sz r w'] rest inv1 src1(2) i(2)
        evolves_trans [of st w w1 w'] by auto
  next
    case (Inr mode)
    then obtain q' where sc: "seal_and_commit st d ?s w1 = (q', w')"
      and r: "r = (case q' of Inl e \<Rightarrow> Inl e | Inr _ \<Rightarrow> Inr (d, sz))"
      using rest by (auto simp: ret_def elim!: bndE)
    have "content w1 ?s = Some (ino_data (inos w i))"
      using pl Inr i(1) by (simp add: content_def)
    then show ?thesis
      using seal_and_commit_run [OF st _ _ sc] inv1 i(2) r evolves_trans [of st w w1 w']
      by (cases q') (auto simp: content_def split: option.splits)
  qed
qed

lemma put_file_run:
  assumes st: "store_wf st" and inv: "store_inv st w" and p: "\<not> prefix (os_root st) p"
    and run: "put_file st p w = (r, w')"
  shows "store_inv st w' \<and> evolves st w w' \<and>
    (\<forall>d sz. r = Inr (d, sz) \<longrightarrow> (\<exists>bs. content w p = Some bs \<and> d = blob_digest (os_b3 st) bs \<and>
       sz = of_nat (length bs) \<and> ent w' (object_path st d) \<noteq> None))"
  using run [unfolded put_file_def]
proof (cases rule: bndE)
  case (err e)
  then show ?thesis using inv by (auto elim!: cas_ioE looksE [OF _ looks_calls(4)])
next
  case (ok meta w1)
  then obtain n where w1: "w1 = w\<lparr>tick := n\<rparr>" and meta: "ent w p = Some meta"
    by (auto elim!: cas_ioE looksE [OF _ looks_calls(4)])
  show ?thesis
  proof (cases "\<exists>i. meta = DFile i")
    case False
    then have "w' = w1 \<and> (\<exists>e. r = Inl e)"
      using ok(2) by (cases meta) (auto simp: throw_def)
    then show ?thesis using inv w1 by auto
  next
    case True
    then obtain i where i: "ent w p = Some (DFile i)" "meta = DFile i" using meta by auto
    let ?bs = "ino_data (inos w i)" and ?b = "os_b3 st"
    have b: "blake3_ok ?b" using st by (simp add: store_wf_def)
    have "bnd (hash_file ?b p (of_nat (length ?bs))) (\<lambda>d. bnd (has st d) (\<lambda>present.
        if present then ret (d, of_nat (length ?bs)) else put_placed st p d (of_nat (length ?bs)))) w1 = (r, w')"
      using ok(2) i w1 by (simp add: Let_def cong: if_cong)
    then show ?thesis
    proof (cases rule: bndE)
      case (err e)
      then show ?thesis using hash_file_run [OF b err(1)] inv w1 by auto
    next
      case (ok d w2)
      obtain k where w2: "w2 = w\<lparr>tick := k\<rparr>" and d: "d = blob_digest ?b ?bs"
        using hash_file_run [OF b ok(1)] w1 i by (auto simp: content_def)
      obtain m present where h: "has st d w2 = (Inr present, w\<lparr>tick := m\<rparr>)" "present \<Longrightarrow> ent w (object_path st d) \<noteq> None"
      proof -
        obtain x w3 where hx: "has st d w2 = (x, w3)" by (cases "has st d w2")
        from has_run [OF hx] obtain m b where "w3 = w2\<lparr>tick := m\<rparr>" "x = Inr b" "b \<Longrightarrow> ent w2 (object_path st d) \<noteq> None"
          by blast
        then show thesis using that [of b m] hx w2 by simp
      qed
      then have run2: "(if present then ret (d, of_nat (length ?bs)) else put_placed st p d (of_nat (length ?bs)))
          (w\<lparr>tick := m\<rparr>) = (r, w')"
        using ok(2) by (simp add: bnd_def try_with_def)
      have c: "content w p = Some ?bs" using i by (simp add: content_def)
      show ?thesis
      proof (cases present)
        case True
        then show ?thesis using run2 inv h(2) c d by (auto simp: ret_def)
      next
        case False
        have "object_hash ?b (ino_data (inos (w\<lparr>tick := m\<rparr>) i)) d" using d by (simp add: object_hash_def)
        then show ?thesis
          using put_placed_run [OF st _ _ p, of d "w\<lparr>tick := m\<rparr>" i "of_nat (length ?bs)" r w'] False run2 inv i(1) c d st
          by auto
      qed
    qed
  qed
qed

section \<open>Reads\<close>

lemma get_bytes_run:
  assumes "get_bytes st d w = (r, w')"
  shows "(\<exists>n. w' = w\<lparr>tick := n\<rparr>) \<and> (\<forall>bs. r = Inr bs \<longrightarrow> content w (object_path st d) = Some bs)"
  using assms unfolding get_bytes_def Let_def
  by (auto simp: ret_def throw_def content_def split: sum.splits if_splits
      elim!: try_withE looksE [OF _ looks_calls(2)])

lemma get_tree_run:
  assumes "get_tree st d w = (r, w')"
  shows "(\<exists>n. w' = w\<lparr>tick := n\<rparr>) \<and> (\<forall>t. r = Inr t \<longrightarrow> tree_digest (os_b3 st) t = d \<and>
    (\<exists>bs. content w (object_path st d) = Some bs \<and> tree_decode bs = Inr t))"
  using assms [unfolded get_tree_def]
proof (cases rule: bndE)
  case (err e)
  then show ?thesis using get_bytes_run [OF err(1)] by auto
next
  case (ok bs w1)
  then show ?thesis
    using get_bytes_run [OF ok(1)]
    by (auto simp: bnd_def try_with_def map_err_def lift_res_def ret_def throw_def Let_def split: sum.splits if_splits)
qed

section \<open>The contract of a content store\<close>

text \<open>A value is put under its digest and read back by it. Blobs and manifests are two instances.\<close>

locale content_store =
  fixes put :: "'h ObjectStore \<Rightarrow> 'x \<Rightarrow> (CasError, digest) prog"
    and get :: "'h ObjectStore \<Rightarrow> digest \<Rightarrow> (CasError, 'x) prog"
    and dig :: "'h ObjectStore \<Rightarrow> 'x \<Rightarrow> digest"
  assumes put_law: "store_wf st \<Longrightarrow> store_inv st w \<Longrightarrow> put st x w = (r, w') \<Longrightarrow>
      store_inv st w' \<and> evolves st w w' \<and>
      (\<forall>d. r = Inr d \<longrightarrow> d = dig st x \<and> ent w' (object_path st d) \<noteq> None)"
    and get_law: "get st d w = (q, w') \<Longrightarrow> (\<exists>n. w' = w\<lparr>tick := n\<rparr>) \<and> (\<forall>x. q = Inr x \<longrightarrow> dig st x = d)"
begin

lemma put_all:
  assumes "store_wf st"
  shows "store_inv st w \<Longrightarrow> fold_prog (\<lambda>x ds. bnd (put st x) (\<lambda>d. ret (d # ds))) xs ds w = (r, w') \<Longrightarrow>
    store_inv st w' \<and> evolves st w w' \<and>
    (is_ok r \<longrightarrow> (\<forall>x \<in> set xs. ent w' (object_path st (dig st x)) \<noteq> None))"
proof (induction xs arbitrary: w ds)
  case Nil
  then show ?case by (auto simp: ret_def)
next
  case (Cons x xs)
  from Cons.prems(2) [unfolded fold_prog.simps] show ?case
  proof (cases rule: bndE)
    case (err e)
    then show ?thesis using put_law [OF assms Cons.prems(1)] by (auto simp: ret_def elim!: bndE)
  next
    case (ok ds1 w1)
    then obtain d where p: "put st x w = (Inr d, w1)" by (auto simp: ret_def elim!: bndE)
    note P = put_law [OF assms Cons.prems(1) p]
    have R: "store_inv st w' \<and> evolves st w1 w' \<and>
        (is_ok r \<longrightarrow> (\<forall>x \<in> set xs. ent w' (object_path st (dig st x)) \<noteq> None))"
      using Cons.IH [OF _ ok(2)] P by blast
    then have "ent w' (object_path st (dig st x)) \<noteq> None" using P evolves_present by blast
    then show ?thesis using P R evolves_trans by auto
  qed
qed

lemma get_same_digest:
  "get st (dig st x) w = (Inr y, w') \<Longrightarrow> dig st y = dig st x \<and> (\<exists>n. w' = w\<lparr>tick := n\<rparr>)"
  using get_law by blast

end

lemma put_bytes_run:
  assumes "store_wf st" "store_inv st w" "put_bytes st bs w = (r, w')"
  shows "store_inv st w' \<and> evolves st w w' \<and>
    (\<forall>d. r = Inr d \<longrightarrow> d = blob_digest (os_b3 st) bs \<and> ent w' (object_path st d) \<noteq> None \<and>
       (ent w (object_path st d) = None \<longrightarrow> content w' (object_path st d) = Some bs))"
proof -
  have "object_hash (os_b3 st) bs (blob_digest (os_b3 st) bs)" by (simp add: object_hash_def)
  from put_object_run [OF assms(1) wf_object_digests(1) [OF assms(1)] assms(2) this assms(3) [unfolded put_bytes_object]]
  show ?thesis by blast
qed

lemma put_tree_run:
  assumes "store_wf st" "store_inv st w" "put_tree st t w = (r, w')"
  shows "store_inv st w' \<and> evolves st w w' \<and>
    (\<forall>d. r = Inr d \<longrightarrow> d = tree_digest (os_b3 st) t \<and> ent w' (object_path st d) \<noteq> None)"
proof -
  have "object_hash (os_b3 st) (tree_encode t) (tree_digest (os_b3 st) t)"
    by (simp add: object_hash_def tree_digest_hash)
  from put_object_run [OF assms(1) wf_object_digests(2) [OF assms(1)] assms(2) this assms(3) [unfolded put_tree_object]]
  show ?thesis by blast
qed

lemma get_bytes_verified_run:
  assumes "get_bytes_verified st d w = (r, w')"
  shows "(\<exists>n. w' = w\<lparr>tick := n\<rparr>) \<and> (\<forall>bs. r = Inr bs \<longrightarrow> blob_digest (os_b3 st) bs = d)"
  using assms unfolding get_bytes_verified_def
  by (auto simp: ret_def throw_def Let_def split: if_splits elim!: bndE dest!: get_bytes_run)

interpretation blobs: content_store put_bytes get_bytes_verified "\<lambda>st. blob_digest (os_b3 st)"
  by unfold_locales (use put_bytes_run get_bytes_verified_run in blast)+

interpretation trees: content_store put_tree get_tree "\<lambda>st. tree_digest (os_b3 st)"
  by unfold_locales (use put_tree_run get_tree_run in blast)+

section \<open>An example store\<close>

text \<open>A store and a source directory with an executable file and a link.\<close>

definition example_store :: "(bytes \<times> bytes) ObjectStore" where
  "example_store = \<lparr>os_root = [''s''], os_objects = [''s'', ''objects''], os_tmp = [''s'', ''tmp''],
     os_durability = Relaxed, os_hex = hex_ref, os_b3 = blake3_ref\<rparr>"

definition example_src_world :: world where
  "example_src_world = \<lparr>
     ents = [([''s''], DDir), ([''s'', ''objects''], DDir), ([''s'', ''tmp''], DDir), ([''src''], DDir),
       ([''src'', ''run''], DFile 0), ([''src'', ''ln''], DLink ''run'')],
     inos = (\<lambda>_. \<lparr>ino_data = [104, 105], ino_mode = 0x1ED, ino_mtime = 5\<rparr>),
     next_ino = 1, tick = 0, fault = (\<lambda>_. None), now = 9,
     create_mode = 0x1A4, reflink_cap = CAP_UNKNOWN\<rparr>"

lemma example_store_ok: "store_wf example_store" "store_inv example_store example_src_world"
proof -
  show "store_wf example_store"
    by (simp add: store_wf_def example_store_def hex_ref_ok blake3_ref_ok)
  have "wf_world example_src_world"
    by (auto simp: wf_world_def example_src_world_def ent_def split: if_splits)
  moreover have "ent example_src_world (object_path example_store d) = None"
    "ent example_src_world (staging_path example_store d) = None" for d
    by (auto simp: ent_def object_path_def staging_path_def example_store_def example_src_world_def)
  ultimately show "store_inv example_store example_src_world"
    by (simp add: store_inv_def good_object_def) (simp add: example_store_def example_src_world_def ent_def)
qed

section \<open>Properties\<close>

text \<open>C2: Storing a batch of blobs, with any call failing at any point (a write after a prefix of the
  bytes, a rename, a full disk): every object in the store still has the bytes its name is the
  digest of and is read-only, nothing outside the store's directory changes, no object
  disappears. If the batch succeeds every blob is present, and a verified read under a digest
  returns only bytes that hash to it.\<close>

theorem blob_batch_is_atomic:
  assumes "store_wf st" "store_inv st w"
    "fold_prog (\<lambda>x ds. bnd (put_bytes st x) (\<lambda>d. ret (d # ds))) bss [] w = (r, w')"
  shows "store_inv st w' \<and> evolves st w w' \<and>
    (is_ok r \<longrightarrow> (\<forall>bs \<in> set bss. ent w' (object_path st (blob_digest (os_b3 st) bs)) \<noteq> None)) \<and>
    (\<forall>d bs w''. get_bytes_verified st d w' = (Inr bs, w'') \<longrightarrow> blob_digest (os_b3 st) bs = d)"
  using blobs.put_all [OF assms] blobs.get_law by blast

lemma example_batch:
  "is_ok (fst (fold_prog (\<lambda>x ds. bnd (put_bytes example_store x) (\<lambda>d. ret (d # ds))) [[1], [2, 3]] [] example_src_world))"
  by code_simp

theorem blob_batch_is_atomic_witness:
  "\<exists>w'. store_inv example_store w' \<and> ent w' (object_path example_store (blob_digest blake3_ref [2, 3])) \<noteq> None"
proof -
  let ?m = "fold_prog (\<lambda>x ds. bnd (put_bytes example_store x) (\<lambda>d. ret (d # ds))) [[1], [2, 3]] [] example_src_world"
  have "?m = (fst ?m, snd ?m)" by simp
  from blob_batch_is_atomic [OF example_store_ok this] show ?thesis
    using example_batch by (auto simp: example_store_def [THEN arg_cong [of _ _ os_b3]])
qed

text \<open>Storing a file never aliases it: whatever fails, the source keeps its name, its inode, its
  bytes and its mode, the store stays consistent, and the digest returned is that of the
  file's contents, which the store then holds.\<close>

theorem put_file_keeps_source:
  assumes "store_wf st" "store_inv st w" "\<not> prefix (os_root st) p" "put_file st p w = (r, w')"
  shows "store_inv st w' \<and> ent w' p = ent w p \<and> (\<forall>i. ent w p = Some (DFile i) \<longrightarrow> inos w' i = inos w i) \<and>
    (\<forall>d sz. r = Inr (d, sz) \<longrightarrow> (\<exists>bs. content w p = Some bs \<and> d = blob_digest (os_b3 st) bs \<and>
       sz = of_nat (length bs) \<and> ent w' (object_path st d) \<noteq> None))"
  using put_file_run [OF assms] assms(3) by (auto simp: evolves_def)

lemma example_put_file: "is_ok (fst (put_file example_store [''src'', ''run''] example_src_world))"
  by code_simp

theorem put_file_keeps_source_witness:
  "\<exists>d sz w'. put_file example_store [''src'', ''run''] example_src_world = (Inr (d, sz), w') \<and>
     d = blob_digest blake3_ref [104, 105] \<and> sz = 2 \<and> inos w' 0 = inos example_src_world 0"
proof -
  obtain d sz w' where run: "put_file example_store [''src'', ''run''] example_src_world = (Inr (d, sz), w')"
    using example_put_file by (auto simp: is_ok_iff) (metis prod.collapse)
  have c: "content example_src_world [''src'', ''run''] = Some [104, 105]"
    "ent example_src_world [''src'', ''run''] = Some (DFile 0)"
    by (simp_all add: content_def ent_def example_src_world_def)
  have p: "\<not> prefix (os_root example_store) [''src'', ''run'']" by (simp add: example_store_def)
  have b: "os_b3 example_store = blake3_ref" by (simp add: example_store_def)
  show ?thesis
    using put_file_keeps_source [OF example_store_ok p run] run c b by auto
qed

text \<open>Reading back a manifest by its digest yields a well-formed tree with that digest, or an error;
  reading changes nothing.\<close>

theorem get_tree_is_sound:
  assumes "get_tree st d w = (r, w')"
  shows "(\<exists>n. w' = w\<lparr>tick := n\<rparr>) \<and>
    (\<forall>t. r = Inr t \<longrightarrow> tree_digest (os_b3 st) t = d \<and> good_tree t)"
  using get_tree_run [OF assms] tree_decode_sound by blast

lemma example_get_tree:
  "case put_tree example_store [(EntryName ''a'', NodeSymlink ''b'')] example_src_world of
     (Inr d, w) \<Rightarrow> is_ok (fst (get_tree example_store d w)) | _ \<Rightarrow> False"
  by code_simp

theorem get_tree_is_sound_witness:
  "\<exists>d w t w'. get_tree example_store d w = (Inr t, w') \<and> tree_digest blake3_ref t = d \<and> good_tree t"
proof -
  obtain d w t w' where run: "get_tree example_store d w = (Inr t, w')"
    using example_get_tree by (auto simp: is_ok_iff split: prod.splits sum.splits) (metis prod.collapse)
  have b: "os_b3 example_store = blake3_ref" by (simp add: example_store_def)
  show ?thesis using get_tree_is_sound [OF run] run b by auto
qed

end
