(* ===== verification/Jet_Workspace.thy ===== *)
theory Jet_Workspace
  imports Jet_Store
begin

text \<open>
  What ingestion and materialization mean for a directory as a whole. \<open>src_tree\<close> is a directory
  without its place in a file system, \<open>holds\<close> says that a world has it at a path, \<open>merkle\<close> is the
  node the store gives it. Ingestion computes \<open>merkle\<close> whatever the world, materialization
  rebuilds the directory, and neither touches anything else.
\<close>

section \<open>Directories\<close>

datatype src_tree =
    SFile bytes bool
  | SLink string
  | SDir "(string \<times> src_tree) list"

definition is_exec :: "32 word \<Rightarrow> bool" where
  "is_exec m \<longleftrightarrow> m AND 0x40 \<noteq> 0"

lemma size_snd_mem [termination_simp]: "e \<in> set es \<Longrightarrow> size (snd e) < Suc (size_list (size_prod (\<lambda>_. 0) size) es)"
  by (induction es) auto

fun holds :: "world \<Rightarrow> path \<Rightarrow> src_tree \<Rightarrow> bool" where
  "holds w p (SFile c x) \<longleftrightarrow>
     (\<exists>i. ent w p = Some (DFile i) \<and> ino_data (inos w i) = c \<and> is_exec (ino_mode (inos w i)) = x)"
| "holds w p (SLink t) \<longleftrightarrow> ent w p = Some (DLink t)"
| "holds w p (SDir es) \<longleftrightarrow> ent w p = Some DDir \<and> distinct (map fst es) \<and>
     (\<forall>n. ent w (p @ [n]) \<noteq> None \<longleftrightarrow> n \<in> fst ` set es) \<and>
     list_all (\<lambda>e. holds w (p @ [fst e]) (snd e)) es"

fun merkle :: "'h blake3_crate \<Rightarrow> src_tree \<Rightarrow> Node" where
  "merkle b (SFile c x) = NodeFile (blob_digest b c) (of_nat (length c)) x"
| "merkle b (SLink t) = NodeSymlink t"
| "merkle b (SDir es) =
     NodeDir (tree_digest b (tree_of_list (map (\<lambda>e. (EntryName (fst e), merkle b (snd e))) es)))"

definition manifest :: "'h blake3_crate \<Rightarrow> (string \<times> src_tree) list \<Rightarrow> Tree" where
  "manifest b es = tree_of_list (map (\<lambda>e. (EntryName (fst e), merkle b (snd e))) es)"

lemma merkle_dir: "merkle b (SDir es) = NodeDir (tree_digest b (manifest b es))"
  by (simp add: manifest_def)

lemma map_of_entries:
  "map_of (map (\<lambda>e. (EntryName (fst e), f (snd e))) es) (EntryName n) = map_option f (map_of es n)"
  by (induction es) auto

lemma map_of_manifest:
  "distinct (map fst es) \<Longrightarrow> map_of (manifest b es) (EntryName n) = map_option (merkle b) (map_of es n)"
proof -
  assume "distinct (map fst es)"
  then have d: "distinct (map fst (map (\<lambda>e. (EntryName (fst e), merkle b (snd e))) es))"
    by (simp add: comp_def distinct_map inj_on_def)
  note map_of_rev_distinct [OF d]
  then show ?thesis by (simp add: manifest_def map_of_tree_of_list map_of_entries)
qed

text \<open>Every object a directory needs is in the store.\<close>

fun present_all :: "'h ObjectStore \<Rightarrow> world \<Rightarrow> src_tree \<Rightarrow> bool" where
  "present_all st w (SFile c x) \<longleftrightarrow> ent w (object_path st (blob_digest (os_b3 st) c)) \<noteq> None"
| "present_all st w (SLink t) \<longleftrightarrow> True"
| "present_all st w (SDir es) \<longleftrightarrow>
     ent w (object_path st (tree_digest (os_b3 st) (manifest (os_b3 st) es))) \<noteq> None \<and>
     list_all (\<lambda>e. present_all st w (snd e)) es"

lemma present_all_evolves: "evolves st w w' \<Longrightarrow> present_all st w s \<Longrightarrow> present_all st w' s"
  by (induction st w s rule: present_all.induct) (auto simp: evolves_def list_all_iff)

lemma parallel_below:
  assumes "parallel r p"
  shows "\<not> prefix r (p @ q)"
  using assms prefix_append by (metis parallelD1 parallelD2 prefix_same_cases prefixI)

lemma parallel_snoc: "parallel r p \<Longrightarrow> parallel r (p @ q)"
  using parallel_append [of r p "[]" q] by simp

lemma holds_evolves:
  "parallel (os_root st) p \<Longrightarrow> evolves st w w' \<Longrightarrow> holds w p s \<Longrightarrow> holds w' p s"
proof (induction w p s rule: holds.induct)
  case (1 w p c x)
  then show ?case by (auto simp: evolves_def parallel_def)
next
  case (2 w p t)
  then show ?case by (auto simp: evolves_def parallel_def)
next
  case (3 w p es)
  have out: "\<not> prefix (os_root st) (p @ q)" for q using 3(2) by (rule parallel_below)
  have same: "ent w' (p @ q) = ent w (p @ q)" for q using out 3(3) by (simp add: evolves_def)
  have "parallel (os_root st) (p @ [n])" for n
    using 3(2) by (rule parallel_snoc)
  then have "list_all (\<lambda>e. holds w' (p @ [fst e]) (snd e)) es"
    using 3 by (auto simp: list_all_iff)
  then show ?case using 3(4) same [of "[]"] same by simp
qed

section \<open>Ingestion\<close>

text \<open>What ingesting \<open>s\<close> at \<open>p\<close> does, for the node and for the tree of a directory.\<close>

definition ingests_node ::
  "'h ObjectStore \<Rightarrow> (CasError, Node) prog \<Rightarrow> path \<Rightarrow> src_tree \<Rightarrow> bool" where
  "ingests_node st m p s \<longleftrightarrow> (\<forall>w r w'. store_inv st w \<longrightarrow> holds w p s \<longrightarrow> m w = (r, w') \<longrightarrow>
     store_inv st w' \<and> evolves st w w' \<and>
     (\<forall>x. r = Inr x \<longrightarrow> x = merkle (os_b3 st) s \<and> present_all st w' s))"

definition ingests_dir ::
  "'h ObjectStore \<Rightarrow> (CasError, Tree) prog \<Rightarrow> path \<Rightarrow> (string \<times> src_tree) list \<Rightarrow> bool" where
  "ingests_dir st m p es \<longleftrightarrow> (\<forall>w r w'. store_inv st w \<longrightarrow> holds w p (SDir es) \<longrightarrow> m w = (r, w') \<longrightarrow>
     store_inv st w' \<and> evolves st w w' \<and>
     (\<forall>t. r = Inr t \<longrightarrow> t = manifest (os_b3 st) es \<and> list_all (\<lambda>e. present_all st w' (snd e)) es))"

lemma ingest_file_node:
  assumes "store_wf st" "parallel (os_root st) p" "store_inv st w" "ent w p = Some (DFile i)" "inos w0 = inos w"
    "bnd (put_file st p) (\<lambda>(d, sz). ret (NodeFile d sz (ino_mode (inos w0 i) AND 0x40 \<noteq> 0))) w = (r, w')"
  shows "store_inv st w' \<and> evolves st w w' \<and>
    (\<forall>x. r = Inr x \<longrightarrow> x = merkle (os_b3 st) (SFile (ino_data (inos w i)) (is_exec (ino_mode (inos w i)))) \<and>
       present_all st w' (SFile (ino_data (inos w i)) (is_exec (ino_mode (inos w i)))))"
proof -
  obtain q where q: "put_file st p w = (q, w')"
    and r: "r = (case q of Inl e \<Rightarrow> Inl e | Inr (d, sz) \<Rightarrow> Inr (NodeFile d sz (ino_mode (inos w i) AND 0x40 \<noteq> 0)))"
    using assms(5,6) by (auto simp: ret_def elim!: bndE split: prod.splits)
  have "\<not> prefix (os_root st) p" using assms(2) by (simp add: parallel_def)
  note f = put_file_run [OF assms(1,3) this q]
  show ?thesis
    using f r assms(4) by (cases q) (auto simp: content_def is_exec_def)
qed

lemma ingest_node_ok:
  assumes st: "store_wf st" "parallel (os_root st) p"
    and sub: "\<And>es. s = SDir es \<Longrightarrow> ingests_dir st (sub p) p es"
  shows "ingests_node st (ingest_node st sub p) p s"
  unfolding ingests_node_def
proof (intro allI impI)
  fix w r w'
  assume inv: "store_inv st w" and h: "holds w p s" and run: "ingest_node st sub p w = (r, w')"
  from run [unfolded ingest_node_def]
  show "store_inv st w' \<and> evolves st w w' \<and>
     (\<forall>x. r = Inr x \<longrightarrow> x = merkle (os_b3 st) s \<and> present_all st w' s)"
  proof (cases rule: bndE)
    case (err e)
    then show ?thesis using inv by (auto elim!: cas_ioE looksE [OF _ looks_calls(4)])
  next
    case (ok ft w1)
    then obtain n where w1: "w1 = w\<lparr>tick := n\<rparr>" and ft: "ent w p = Some ft"
      by (auto elim!: cas_ioE looksE [OF _ looks_calls(4)])
    have inv1: "store_inv st w1" using inv w1 by simp
    show ?thesis
    proof (cases s)
      case (SFile c x)
      then obtain i where i: "ft = DFile i" "ino_data (inos w i) = c" "is_exec (ino_mode (inos w i)) = x"
        using h ft by auto
      then show ?thesis
        using ingest_file_node [OF st inv1, of i w1 r w'] ok(2) ft w1 SFile by (simp add: is_exec_def)
    next
      case (SLink t)
      then have "ft = DLink t" using h ft by simp
      then have "bnd (cas_io ''read_link'' p (read_link p)) (\<lambda>target.
          if utf8_valid (bytes_of target) then ret (NodeSymlink target) else throw (NonUtf8Name p)) w1 = (r, w')"
        using ok(2) by simp
      then show ?thesis using inv1 w1 h SLink
        by (auto simp: ret_def throw_def split: if_splits elim!: bndE cas_ioE looksE [OF _ looks_calls(7)])
    next
      case (SDir es)
      then have "ft = DDir" using h ft by simp
      then have "bnd (sub p) (\<lambda>t. bnd (put_tree st t) (\<lambda>d. ret (NodeDir d))) w1 = (r, w')"
        using ok(2) by simp
      moreover have h1: "holds w1 p (SDir es)"
        using holds_evolves [OF st(2), of w w1 s] h w1 SDir by simp
      note S = sub [OF SDir, unfolded ingests_dir_def, rule_format, OF inv1 h1]
      ultimately show ?thesis
      proof (cases rule: bndE)
        case (err e)
        then show ?thesis using S [OF err(1)] w1 by auto
      next
        case (ok t w2)
        then have s2: "store_inv st w2" "evolves st w w2" "t = manifest (os_b3 st) es"
            "list_all (\<lambda>e. present_all st w2 (snd e)) es"
          using S [OF ok(1)] w1 by auto
        obtain q where q: "put_tree st t w2 = (q, w')" and r: "r = (case q of Inl e \<Rightarrow> Inl e | Inr d \<Rightarrow> Inr (NodeDir d))"
          using ok(2) by (auto simp: ret_def elim!: bndE)
        note T = put_tree_run [OF st(1) s2(1) q]
        then have "list_all (\<lambda>e. present_all st w' (snd e)) es"
          using s2(4) present_all_evolves unfolding list_all_iff by blast
        then show ?thesis
          using T r s2(2,3) evolves_trans [of st w w2 w'] SDir by (cases q) (auto simp: merkle_dir simp del: merkle.simps(3))
      qed
    qed
  qed
qed

lemma set_children:
  assumes "wf_world w"
  shows "set (children w p) = {n. ent w (p @ [n]) \<noteq> None}" "distinct (children w p)"
proof -
  have "n \<in> set (children w p) \<longleftrightarrow> ent w (p @ [n]) \<noteq> None" for n
  proof -
    have "n \<in> set (children w p) \<longleftrightarrow> p @ [n] \<in> fst ` set (ents w)"
      by (force simp: children_def image_iff butlast_append dest: append_butlast_last_id)
    also have "\<dots> \<longleftrightarrow> ent w (p @ [n]) \<noteq> None" by (simp add: ent_def map_of_eq_None_iff)
    finally show ?thesis .
  qed
  then show "set (children w p) = {n. ent w (p @ [n]) \<noteq> None}" by blast
  have "x = p @ [last x]" if "x \<noteq> [] \<and> butlast x = p" for x :: path
    using that append_butlast_last_id [of x] by simp
  then have "inj_on last {q :: path. q \<noteq> [] \<and> butlast q = p}"
    by (intro inj_onI) (metis (mono_tags, lifting) mem_Collect_eq)
  then have "inj_on last (set (filter (\<lambda>q. q \<noteq> [] \<and> butlast q = p) (map fst (ents w))))"
    by (rule inj_on_subset) auto
  moreover have "distinct (filter (\<lambda>q. q \<noteq> [] \<and> butlast q = p) (map fst (ents w)))"
    using assms by (intro distinct_filter) (simp add: wf_world_def)
  ultimately show "distinct (children w p)"
    unfolding children_def by (subst distinct_map) blast
qed

text \<open>The loop over the directory: the tree has the entries seen so far.\<close>

definition covers :: "'h ObjectStore \<Rightarrow> (string \<times> src_tree) list \<Rightarrow> string set \<Rightarrow> world \<Rightarrow> Tree \<Rightarrow> bool" where
  "covers st es N w t \<longleftrightarrow> bt_sorted t \<and>
     (\<forall>n. map_of t (EntryName n) = (if n \<in> N then map_option (merkle (os_b3 st)) (map_of es n) else None)) \<and>
     (\<forall>n \<in> N. \<forall>s. map_of es n = Some s \<longrightarrow> present_all st w s)"

lemma covers_evolves: "covers st es N w t \<Longrightarrow> evolves st w w' \<Longrightarrow> covers st es N w' t"
  by (auto simp: covers_def dest: present_all_evolves)

lemma covers_all:
  assumes "covers st es (fst ` set es) w t" "distinct (map fst es)"
  shows "t = manifest (os_b3 st) es \<and> list_all (\<lambda>e. present_all st w (snd e)) es"
proof -
  have "map_of t k = map_of (manifest (os_b3 st) es) k" for k
    using assms map_of_eq_None_iff [of es "en_str k"]
    by (cases k) (auto simp: covers_def map_of_manifest)
  then have "t = manifest (os_b3 st) es"
    using assms(1) by (intro bt_sorted_map_of_inject)
      (auto simp: covers_def manifest_def bt_sorted_tree_of_list)
  moreover have "present_all st w s" if "(n, s) \<in> set es" for n s
    using assms that by (force simp: covers_def)
  ultimately show ?thesis by (auto simp: list_all_iff)
qed

lemma ingest_entry_ok:
  assumes st: "store_wf st" "parallel (os_root st) dir" and inv: "store_inv st w"
    and h: "holds w (dir @ [n]) s" "map_of es n = Some s"
    and sub: "ingests_node st (ingest_node st sub (dir @ [n])) (dir @ [n]) s"
    and cov: "covers st es N w t" and run: "ingest_entry st sub dir n t w = (r, w')"
  shows "store_inv st w' \<and> evolves st w w' \<and> (\<forall>t'. r = Inr t' \<longrightarrow> covers st es (insert n N) w' t')"
  using run [unfolded ingest_entry_def]
proof (cases rule: bndE)
  case (err e)
  then show ?thesis using inv by (auto elim!: cas_ioE looksE [OF _ looks_calls(9)])
next
  case (ok x w1)
  then obtain k where w1: "w1 = w\<lparr>tick := k\<rparr>" and x: "x = n"
    by (auto elim!: cas_ioE looksE [OF _ looks_calls(9)])
  have inv1: "store_inv st w1" using inv w1 by simp
  have h1: "holds w1 (dir @ [n]) s"
    using holds_evolves [OF parallel_snoc [OF st(2)], of w w1 "[n]" s] h(1) w1 by simp
  show ?thesis
  proof (cases "utf8_valid (bytes_of n) \<and> (\<exists>name. entry_name_new n = Inr name)")
    case False
    then have "w' = w1 \<and> (\<exists>e. r = Inl e)"
      using ok(2) x by (cases "entry_name_new n")
        (auto simp: Let_def throw_def bnd_def try_with_def map_err_def lift_res_def split: if_splits)
    then show ?thesis using inv1 w1 by auto
  next
    case True
    then have nm: "entry_name_new n = Inr (EntryName n)" by (auto simp: entry_name_new_Inr)
    then have "bnd (ingest_node st sub (dir @ [n])) (\<lambda>node. ret (snd (tree_insert (EntryName n) node t))) w1 = (r, w')"
      using ok(2) x True by (simp add: Let_def bnd_def try_with_def map_err_def lift_res_def ret_def)
    then obtain q where q: "ingest_node st sub (dir @ [n]) w1 = (q, w')"
      and r: "r = (case q of Inl e \<Rightarrow> Inl e | Inr node \<Rightarrow> Inr (snd (tree_insert (EntryName n) node t)))"
      by (auto simp: ret_def elim!: bndE)
    have S: "store_inv st w' \<and> evolves st w w' \<and> (\<forall>x. q = Inr x \<longrightarrow> x = merkle (os_b3 st) s \<and> present_all st w' s)"
      using sub [unfolded ingests_node_def, rule_format, OF inv1 h1 q] w1 by simp
    then have cov': "covers st es N w' t" using cov covers_evolves by blast
    show ?thesis
      using S r cov' h(2) by (cases q) (auto simp: covers_def tree_insert_def bt_sorted_insert)
  qed
qed

lemma ingest_loop_ok:
  assumes st: "store_wf st" "parallel (os_root st) dir"
    and sub: "\<And>n s. map_of es n = Some s \<Longrightarrow> ingests_node st (ingest_node st sub (dir @ [n])) (dir @ [n]) s"
  shows "store_inv st w \<Longrightarrow> holds w dir (SDir es) \<Longrightarrow> set ns \<subseteq> fst ` set es \<Longrightarrow> covers st es N w t \<Longrightarrow>
    fold_prog (ingest_entry st sub dir) ns t w = (r, w') \<Longrightarrow>
    store_inv st w' \<and> evolves st w w' \<and> (\<forall>t'. r = Inr t' \<longrightarrow> covers st es (N \<union> set ns) w' t')"
proof (induction ns arbitrary: N w t)
  case Nil
  then show ?case by (auto simp: ret_def)
next
  case (Cons n ns)
  obtain s where s: "map_of es n = Some s" and mem: "(n, s) \<in> set es"
    using Cons.prems(3) by (metis (no_types, opaque_lifting) image_iff list.set_intros(1) map_of_SomeD
      option.exhaust subset_iff weak_map_of_SomeI prod.collapse)
  have h: "holds w (dir @ [n]) s" using Cons.prems(2) mem by (auto simp: list_all_iff)
  from Cons.prems(5) [unfolded fold_prog.simps] show ?case
  proof (cases rule: bndE)
    case (err e)
    then show ?thesis
      using ingest_entry_ok [OF st Cons.prems(1) h s sub [OF s] Cons.prems(4) err(1)] by simp
  next
    case (ok t1 w1)
    note E = ingest_entry_ok [OF st Cons.prems(1) h s sub [OF s] Cons.prems(4) ok(1)]
    have h1: "holds w1 dir (SDir es)" using holds_evolves [OF st(2)] E Cons.prems(2) by blast
    have "store_inv st w' \<and> evolves st w1 w' \<and> (\<forall>t'. r = Inr t' \<longrightarrow> covers st es (insert n N \<union> set ns) w' t')"
      using Cons.IH [where N = "insert n N", OF _ h1 _ _ ok(2)] E Cons.prems(3) by simp
    then show ?thesis using E evolves_trans by auto
  qed
qed

lemma ingest_dir_inner_ok:
  assumes st: "store_wf st"
  shows "parallel (os_root st) dir \<Longrightarrow> ingests_dir st (ingest_dir_inner n st dir) dir es"
proof (induction n arbitrary: dir es)
  case 0
  then show ?case by (auto simp: ingests_dir_def throw_def)
next
  case (Suc n dir es)
  have sub: "ingests_node st (ingest_node st (ingest_dir_inner n st) (dir @ [m])) (dir @ [m]) s" for m s
    using Suc by (intro ingest_node_ok st) (simp_all add: parallel_snoc)
  have "store_inv st w' \<and> evolves st w w' \<and>
     (\<forall>t. r = Inr t \<longrightarrow> t = manifest (os_b3 st) es \<and> list_all (\<lambda>e. present_all st w' (snd e)) es)"
    if inv: "store_inv st w" and h: "holds w dir (SDir es)" and run: "ingest_dir_inner (Suc n) st dir w = (r, w')"
    for w r w'
    using run [unfolded ingest_dir_inner.simps]
  proof (cases rule: bndE)
    case (err e)
    then show ?thesis using inv by (auto elim!: cas_ioE looksE [OF _ looks_calls(8)])
  next
    case (ok ns w1)
    then obtain k where w1: "w1 = w\<lparr>tick := k\<rparr>" and ns: "ns = children w dir"
      by (auto elim!: cas_ioE looksE [OF _ looks_calls(8)])
    have set_ns: "set ns = fst ` set es"
      using set_children(1) [OF store_inv_wf [OF inv]] h ns by auto
    have "evolves st w w1" using w1 by simp
    then have h1: "holds w1 dir (SDir es)" using holds_evolves [OF Suc.prems] h by blast
    have "covers st es {} w1 tree_new" by (simp add: covers_def tree_new_def)
    then have "store_inv st w' \<and> evolves st w1 w' \<and> (\<forall>t'. r = Inr t' \<longrightarrow> covers st es ({} \<union> set ns) w' t')"
      using ingest_loop_ok [where N = "{}", OF st Suc.prems sub _ h1 _ _ ok(2)] inv w1 set_ns by simp
    then show ?thesis using w1 set_ns covers_all [of st es w'] h by auto
  qed
  then show ?case unfolding ingests_dir_def by blast
qed

lemma ingest_dir_run:
  assumes "store_wf st" "parallel (os_root st) dir" "store_inv st w" "holds w dir (SDir es)"
    "ingest_dir st dir w = (r, w')"
  shows "store_inv st w' \<and> evolves st w w' \<and>
    (\<forall>d. r = Inr d \<longrightarrow> d = tree_digest (os_b3 st) (manifest (os_b3 st) es) \<and> present_all st w' (SDir es))"
proof -
  have I: "ingests_node st (ingest_node st (ingest_dir_inner (Suc (path_bound st w)) st) dir) dir (SDir es)"
    using assms(1,2) by (intro ingest_node_ok ingest_dir_inner_ok)
  have "bnd (ingest_dir_inner (Suc (path_bound st w)) st dir) (put_tree st) w = (r, w')"
    using assms(5) by (simp add: ingest_dir_def)
  then show ?thesis
  proof (cases rule: bndE)
    case (err e)
    then show ?thesis
      using ingest_dir_inner_ok [OF assms(1,2), unfolded ingests_dir_def, rule_format, OF assms(3,4) err(1)] by simp
  next
    case (ok t w1)
    note D = ingest_dir_inner_ok [OF assms(1,2), unfolded ingests_dir_def, rule_format, OF assms(3,4) ok(1)]
    note T = put_tree_run [OF assms(1) conjunct1 [OF D] ok(2)]
    have "list_all (\<lambda>e. present_all st w' (snd e)) es"
      using D T present_all_evolves unfolding list_all_iff by blast
    then show ?thesis using D T evolves_trans [of st w w1 w'] by auto
  qed
qed

section \<open>The fuel of ingestion\<close>

text \<open>No call but the recursion itself reports the exhausted bound, and the bound exceeds the depth of
  the directory.\<close>

definition no_deep :: "(CasError, 'a) prog \<Rightarrow> bool" where
  "no_deep m \<longleftrightarrow> (\<forall>w k. fst (m w) \<noteq> Inl (TreeTooDeep k))"

lemma no_deepD: "no_deep m \<Longrightarrow> m w = (Inl (TreeTooDeep k), w') \<Longrightarrow> P"
  unfolding no_deep_def by (metis fst_conv)

lemma no_deep_calls [intro!]:
  "no_deep (ret x)" "no_deep get_world" "no_deep (ignore m1)" "no_deep (cas_io s p m2)"
  "(\<And>k. e \<noteq> TreeTooDeep k) \<Longrightarrow> no_deep (throw e)" "no_deep (map_err CasTree m3)" "no_deep (exists_path p)"
  by (auto simp: no_deep_def ret_def get_world_def ignore_def cas_io_def map_err_def try_with_def throw_def exists_path_def
      split: prod.splits sum.splits)

lemma no_deep_bnd [intro!]: "no_deep m \<Longrightarrow> (\<And>x. no_deep (f x)) \<Longrightarrow> no_deep (bnd m f)"
  by (auto simp: no_deep_def bnd_def try_with_def throw_def split: prod.splits sum.splits) (metis fst_conv)+

lemma no_deep_try [intro!]: "(\<And>r. no_deep (f r)) \<Longrightarrow> no_deep (try_with m f)"
  by (auto simp: no_deep_def try_with_def split: prod.splits)

lemma no_deep_seal: "no_deep (seal_and_commit st d p)"
  unfolding seal_and_commit_def commit_object_def Let_def
  by (auto split: sum.splits)

lemma no_deep_insert_staged: "no_deep (insert_staged st d f)"
  unfolding insert_staged_def Let_def by (auto intro!: no_deep_seal)

lemma no_deep_put_tree: "no_deep (put_tree st t)"
  unfolding put_tree_def Let_def has_def by (auto intro!: no_deep_insert_staged)

lemma no_deep_hash_stream: "no_deep (hash_stream b p n f off s)"
  by (induction n arbitrary: off s) (auto simp: Let_def)

lemma no_deep_put_file: "no_deep (put_file st p)"
  unfolding put_file_def put_placed_def hash_file_def has_def Let_def
  by (auto intro!: no_deep_insert_staged no_deep_seal no_deep_hash_stream split: dirent.splits sum.splits)


fun sdepth :: "src_tree \<Rightarrow> nat" where
  "sdepth (SFile c x) = 0"
| "sdepth (SLink t) = 0"
| "sdepth (SDir es) = Suc (fold (\<lambda>e. max (sdepth (snd e))) es 0)"

lemma fold_max_ge: "(k :: nat) \<le> fold (\<lambda>e. max (f e)) es k"
proof (induction es arbitrary: k)
  case (Cons a es)
  show ?case using Cons [of "max (f a) k"] by simp
qed simp

lemma fold_max_mem: "e \<in> set es \<Longrightarrow> f e \<le> fold (\<lambda>e. max (f e)) es (k :: nat)"
proof (induction es arbitrary: k)
  case (Cons a es)
  then show ?case using fold_max_ge [of "max (f a) k" f es] by auto
qed simp

lemma fold_max_cases: "fold (\<lambda>e. max (f e)) es (k :: nat) = k \<or> (\<exists>e \<in> set es. fold (\<lambda>e. max (f e)) es k = f e)"
proof (induction es arbitrary: k)
  case (Cons a es)
  show ?case using Cons [of "max (f a) k"] by (auto simp: max_def)
qed simp

lemma holds_tick [simp]: "holds (w\<lparr>tick := n\<rparr>) p s = holds w p s"
  by (induction w p s rule: holds.induct) (auto simp: list_all_iff)

lemma holds_deep_path: "holds w p s \<Longrightarrow> \<exists>q. ent w (p @ q) \<noteq> None \<and> sdepth s \<le> Suc (length q)"
proof (induction w p s rule: holds.induct)
  case (3 w p es)
  show ?case
  proof (cases "\<exists>e \<in> set es. fold (\<lambda>e. max (sdepth (snd e))) es 0 = sdepth (snd e)")
    case True
    then obtain e where e: "e \<in> set es" "sdepth (SDir es) = Suc (sdepth (snd e))" by auto
    then have "holds w (p @ [fst e]) (snd e)" using 3(2) by (auto simp: list_all_iff)
    from 3(1) [OF e(1) this] obtain q where "ent w ((p @ [fst e]) @ q) \<noteq> None" "sdepth (snd e) \<le> Suc (length q)"
      by blast
    then show ?thesis using e(2) by (intro exI [of _ "fst e # q"]) simp
  next
    case False
    then have "sdepth (SDir es) = 1" using fold_max_cases [of "\<lambda>e. sdepth (snd e)" es 0] by auto
    then show ?thesis using 3(2) by (intro exI [of _ "[]"]) simp
  qed
qed (auto intro: exI [of _ "[]"])

lemma sdepth_path_bound:
  assumes "holds w p s"
  shows "sdepth s \<le> Suc (path_bound st w)"
proof -
  obtain q where q: "ent w (p @ q) \<noteq> None" "sdepth s \<le> Suc (length q)" using holds_deep_path [OF assms] by blast
  then have "p @ q = [] \<or> p @ q \<in> fst ` set (ents w)"
    by (auto simp: ent_def map_of_eq_None_iff simp del: not_None_eq split: if_splits)
  moreover have "length x \<le> path_bound st w" if "x \<in> fst ` set (ents w)" for x
    unfolding path_bound_def using that by (intro Max_ge) auto
  ultimately have "length (p @ q) \<le> path_bound st w" by (metis le0 list.size(3))
  then show ?thesis using q(2) by simp
qed

lemma ingest_node_not_deep:
  assumes "holds w p s" "\<And>es n. s = SDir es \<Longrightarrow> fst (sub p (w\<lparr>tick := n\<rparr>)) \<noteq> Inl (TreeTooDeep k)"
  shows "fst (ingest_node st sub p w) \<noteq> Inl (TreeTooDeep k)"
proof
  assume a: "fst (ingest_node st sub p w) = Inl (TreeTooDeep k)"
  define w' where "w' = snd (ingest_node st sub p w)"
  have "ingest_node st sub p w = (Inl (TreeTooDeep k), w')" using a by (simp add: w'_def prod_eq_iff)
  from this [unfolded ingest_node_def] show False
  proof (cases rule: bndE)
    case (err e)
    then show ?thesis by (blast intro: no_deepD [OF no_deep_calls(4)])
  next
    case (ok ft w1)
    then obtain n where w1: "w1 = w\<lparr>tick := n\<rparr>" and ft: "ent w p = Some ft"
      by (auto elim!: cas_ioE looksE [OF _ looks_calls(4)])
    have *: "\<not> no_deep m" if "m w1 = (Inl (TreeTooDeep k), w')" for m :: "(CasError, Node) prog"
      using that by (blast dest: no_deepD)
    show ?thesis
    proof (cases ft)
      case DDir
      then obtain es where s: "s = SDir es" using assms(1) ft by (cases s) auto
      have "bnd (sub p) (\<lambda>t. bnd (put_tree st t) (\<lambda>d. ret (NodeDir d))) w1 = (Inl (TreeTooDeep k), w')"
        using ok(2) DDir by simp
      then show ?thesis
      proof (cases rule: bndE)
        case (err e)
        then show ?thesis using assms(2) [OF s, of n] w1 by simp
      next
        case (ok t w2)
        have "no_deep (bnd (put_tree st t) (\<lambda>d. ret (NodeDir d)))" by (intro no_deep_bnd no_deep_put_tree) auto
        then show ?thesis using ok(2) by (rule no_deepD)
      qed
    next
      case (DFile i)
      have "no_deep (bnd (put_file st p) (\<lambda>(d, sz). ret (NodeFile d sz (ino_mode (inos w1 i) AND 0x40 \<noteq> 0))))"
        by (auto intro!: no_deep_put_file)
      then show ?thesis using * ok(2) DFile by simp
    next
      case (DLink x)
      have "no_deep (bnd (cas_io ''read_link'' p (read_link p)) (\<lambda>target.
          if utf8_valid (bytes_of target) then ret (NodeSymlink target) else throw (NonUtf8Name p)))"
        by auto
      then show ?thesis using * ok(2) DLink by simp
    next
      case DSpecial
      then show ?thesis using ok(2) by (simp add: throw_def)
    qed
  qed
qed

lemma ingest_entry_not_deep:
  assumes "holds w (dir @ [n]) s" "\<And>es m. s = SDir es \<Longrightarrow> fst (sub (dir @ [n]) (w\<lparr>tick := m\<rparr>)) \<noteq> Inl (TreeTooDeep k)"
  shows "fst (ingest_entry st sub dir n t w) \<noteq> Inl (TreeTooDeep k)"
proof
  assume a: "fst (ingest_entry st sub dir n t w) = Inl (TreeTooDeep k)"
  define w' where "w' = snd (ingest_entry st sub dir n t w)"
  have "ingest_entry st sub dir n t w = (Inl (TreeTooDeep k), w')" using a by (simp add: w'_def prod_eq_iff)
  from this [unfolded ingest_entry_def] show False
  proof (cases rule: bndE)
    case (err e)
    then show ?thesis by (blast intro: no_deepD [OF no_deep_calls(4)])
  next
    case (ok x w1)
    then obtain m where w1: "w1 = w\<lparr>tick := m\<rparr>" and x: "x = n"
      by (auto elim!: cas_ioE looksE [OF _ looks_calls(9)])
    have h: "holds w1 (dir @ [n]) s"
      using assms(1) w1 by simp
    have "fst (ingest_node st sub (dir @ [n]) w1) \<noteq> Inl (TreeTooDeep k)"
      by (rule ingest_node_not_deep [OF h]) (simp add: w1 assms(2))
    then show ?thesis using ok(2) x
      by (auto simp: Let_def throw_def ret_def bnd_def try_with_def map_err_def lift_res_def
          split: if_splits sum.splits prod.splits)
  qed
qed


lemma ingest_loop_not_deep:
  assumes st: "store_wf st" "parallel (os_root st) dir"
    and sub: "\<And>n s. map_of es n = Some s \<Longrightarrow> ingests_node st (ingest_node st sub (dir @ [n])) (dir @ [n]) s"
    and deep: "\<And>n es' w. map_of es n = Some (SDir es') \<Longrightarrow> store_inv st w \<Longrightarrow> holds w (dir @ [n]) (SDir es') \<Longrightarrow>
      fst (sub (dir @ [n]) w) \<noteq> Inl (TreeTooDeep k)"
  shows "store_inv st w \<Longrightarrow> holds w dir (SDir es) \<Longrightarrow> set ns \<subseteq> fst ` set es \<Longrightarrow> covers st es N w t \<Longrightarrow>
    fst (fold_prog (ingest_entry st sub dir) ns t w) \<noteq> Inl (TreeTooDeep k)"
proof (induction ns arbitrary: N w t)
  case Nil
  then show ?case by (simp add: ret_def)
next
  case (Cons n ns)
  obtain s where s: "map_of es n = Some s" and mem: "(n, s) \<in> set es"
    using Cons.prems(3) by (metis (no_types, opaque_lifting) image_iff list.set_intros(1) map_of_SomeD
      option.exhaust subset_iff weak_map_of_SomeI prod.collapse)
  have h: "holds w (dir @ [n]) s" using Cons.prems(2) mem by (auto simp: list_all_iff)
  obtain q w1 where q: "ingest_entry st sub dir n t w = (q, w1)" by (cases "ingest_entry st sub dir n t w")
  note E = ingest_entry_ok [OF st Cons.prems(1) h s sub [OF s] Cons.prems(4) q]
  have h1: "holds w1 dir (SDir es)" using holds_evolves [OF st(2)] E Cons.prems(2) by blast
  have "fst (ingest_entry st sub dir n t w) \<noteq> Inl (TreeTooDeep k)"
    using Cons.prems(1) h s by (intro ingest_entry_not_deep [OF h] deep) auto
  moreover have "fst (fold_prog (ingest_entry st sub dir) ns t1 w1) \<noteq> Inl (TreeTooDeep k)" if "q = Inr t1" for t1
    using Cons.IH [OF _ h1, of "insert n N" t1] E Cons.prems(3) that by simp
  ultimately show ?case
    using q by (cases q) (auto simp: bnd_def try_with_def throw_def)
qed

lemma ingest_dir_inner_not_deep:
  assumes st: "store_wf st"
  shows "parallel (os_root st) dir \<Longrightarrow> store_inv st w \<Longrightarrow> holds w dir (SDir es) \<Longrightarrow> sdepth (SDir es) \<le> n \<Longrightarrow>
    fst (ingest_dir_inner n st dir w) \<noteq> Inl (TreeTooDeep k)"
proof (induction n arbitrary: dir w es)
  case (Suc n dir w es)
  have sub: "ingests_node st (ingest_node st (ingest_dir_inner n st) (dir @ [m])) (dir @ [m]) s" for m s
    using Suc.prems(1) by (intro ingest_node_ok ingest_dir_inner_ok st) (simp_all add: parallel_snoc)
  have deep: "fst (ingest_dir_inner n st (dir @ [m]) w') \<noteq> Inl (TreeTooDeep k)"
    if m: "map_of es m = Some (SDir es')" and "store_inv st w'" "holds w' (dir @ [m]) (SDir es')" for m es' w'
  proof -
    have "sdepth (SDir es') \<le> n"
      using fold_max_mem [OF map_of_SomeD [OF m], of "\<lambda>e. sdepth (snd e)" 0] Suc.prems(4) by simp
    then show ?thesis using Suc.IH [OF parallel_snoc [OF Suc.prems(1)] that(2,3)] by blast
  qed
  obtain q w1 where q: "cas_io ''read_dir'' dir (read_dir dir) w = (q, w1)"
    by (cases "cas_io ''read_dir'' dir (read_dir dir) w")
  show ?case
  proof (cases q)
    case (Inl e)
    then show ?thesis using q no_deepD [OF no_deep_calls(4)]
      by (auto simp: bnd_def try_with_def throw_def)
  next
    case (Inr ns)
    then obtain j where w1: "w1 = w\<lparr>tick := j\<rparr>" and ns: "ns = children w dir"
      using q by (auto elim!: cas_ioE looksE [OF _ looks_calls(8)])
    have "set ns \<subseteq> fst ` set es"
      using set_children(1) [OF store_inv_wf [OF Suc.prems(2)]] Suc.prems(3) ns by auto
    moreover have "covers st es {} w1 tree_new" by (simp add: covers_def tree_new_def)
    ultimately have "fst (fold_prog (ingest_entry st (ingest_dir_inner n st) dir) ns tree_new w1) \<noteq> Inl (TreeTooDeep k)"
      using ingest_loop_not_deep [where N = "{}" and w = w1 and ns = ns and t = tree_new and es = es and k = k, OF st Suc.prems(1) sub deep] w1 Suc.prems(2,3)
      by (simp del: holds.simps)
    then show ?thesis using q Inr by (simp add: bnd_def try_with_def)
  qed
qed simp

lemma ingest_never_out_of_fuel:
  assumes "store_wf st" "parallel (os_root st) dir" "store_inv st w" "holds w dir (SDir es)"
  shows "fst (ingest_dir st dir w) \<noteq> Inl (TreeTooDeep k)"
proof -
  let ?n = "Suc (path_bound st w)"
  have "sdepth (SDir es) \<le> ?n" by (rule sdepth_path_bound [OF assms(4)])
  note D = ingest_dir_inner_not_deep [OF assms this, of k]
  show ?thesis
  proof
    assume "fst (ingest_dir st dir w) = Inl (TreeTooDeep k)"
    then obtain w' where "bnd (ingest_dir_inner ?n st dir) (put_tree st) w = (Inl (TreeTooDeep k), w')"
      by (cases "ingest_dir st dir w") (auto simp: ingest_dir_def bnd_def try_with_def get_world_def)
    then show False
    proof (cases rule: bndE)
      case (err e)
      then show ?thesis using D by simp
    next
      case (ok t w1)
      then show ?thesis by (blast intro: no_deepD [OF no_deep_put_tree])
    qed
  qed
qed

section \<open>Materialization\<close>

text \<open>A step below \<open>C\<close>: no other name and no existing inode changes; a name below \<open>C\<close> has a new
  inode, or the one it had, or shares that of an object.\<close>

definition mat_step :: "'h ObjectStore \<Rightarrow> path \<Rightarrow> world \<Rightarrow> world \<Rightarrow> bool" where
  "mat_step st C w w' \<longleftrightarrow> wf_world w' \<and> frame {p. prefix C p} {} w w' \<and>
     (\<forall>p i. prefix C p \<longrightarrow> ent w' p = Some (DFile i) \<longrightarrow> i < next_ino w \<longrightarrow>
        ent w p = Some (DFile i) \<or> (\<exists>d. wf_digest d \<and> ent w (object_path st d) = Some (DFile i)))"

lemma mat_step_tick: "wf_world w \<Longrightarrow> mat_step st C w (w\<lparr>tick := n\<rparr>)"
  by (simp add: mat_step_def)

lemma mat_step_mono: "mat_step st C w w' \<Longrightarrow> prefix D C \<Longrightarrow> mat_step st D w w'"
proof -
  assume a: "mat_step st C w w'" and b: "prefix D C"
  have "frame {p. prefix D p} {} w w'"
    using a b by (auto simp: mat_step_def elim!: frame_mono intro: prefix_order.trans)
  moreover have "ent w p = Some (DFile i) \<or> (\<exists>d. wf_digest d \<and> ent w (object_path st d) = Some (DFile i))"
    if "ent w' p = Some (DFile i)" "i < next_ino w" for p i
    using a that by (cases "prefix C p") (auto simp: mat_step_def frame_def)
  ultimately show ?thesis using a by (auto simp: mat_step_def)
qed

lemma objects_outside: "store_wf st \<Longrightarrow> parallel (os_root st) C \<Longrightarrow> \<not> prefix C (object_path st d)"
  using store_paths(7) [of st d] by (metis parallelD1 parallelD2 prefix_same_cases)

lemma mat_step_trans:
  assumes "store_wf st" "parallel (os_root st) C" "mat_step st C w w1" "mat_step st C w1 w2"
  shows "mat_step st C w w2"
proof -
  have f: "frame {p. prefix C p} {} w w2" using assms(3,4) frame_trans by (auto simp: mat_step_def)
  have n: "next_ino w \<le> next_ino w1" using assms(3) by (simp add: mat_step_def frame_def)
  have o: "ent w1 (object_path st d) = ent w (object_path st d)" for d
    using assms(3) objects_outside [OF assms(1,2)] by (simp add: mat_step_def frame_def)
  have "ent w p = Some (DFile i) \<or> (\<exists>d. wf_digest d \<and> ent w (object_path st d) = Some (DFile i))"
    if "prefix C p" "ent w2 p = Some (DFile i)" "i < next_ino w" for p i
  proof -
    have "ent w1 p = Some (DFile i) \<or> (\<exists>d. wf_digest d \<and> ent w1 (object_path st d) = Some (DFile i))"
      using assms(4) that n by (auto simp: mat_step_def)
    then show ?thesis using assms(3) that(1,3) o by (auto simp: mat_step_def)
  qed
  then show ?thesis using f assms(4) by (auto simp: mat_step_def)
qed

lemma mat_step_store_inv:
  assumes "store_wf st" "parallel (os_root st) C" "store_inv st w" "mat_step st C w w'"
  shows "store_inv st w'"
proof -
  have wf: "wf_world w" using assms(3) by (rule store_inv_wf)
  have out: "ent w' p = ent w p" if "prefix (os_root st) p" for p
  proof -
    have "\<not> prefix C p" using that assms(2) by (metis parallelD1 parallelD2 prefix_same_cases)
    then show ?thesis using assms(4) by (simp add: mat_step_def frame_def)
  qed
  have ino: "inos w' i = inos w i" if "ent w p = Some (DFile i)" for p i
    using assms(4) wf_file [OF wf that] by (simp add: mat_step_def frame_def)
  have good: "good_object st w' d" if "wf_digest d" for d
  proof -
    have "good_object st w d" using assms(3) that by (simp add: store_inv_def)
    then show ?thesis
      using ino out [OF store_paths(7) [OF assms(1)]]
      by (auto simp: good_object_def split: option.splits dirent.splits)
  qed
  have unique: "p = staging_path st d"
    if d: "wf_digest d" and s: "ent w' (staging_path st d) = Some (DFile i)" and p: "ent w' p = Some (DFile i)" for d i p
  proof -
    have s': "ent w (staging_path st d) = Some (DFile i)" using s out [OF store_paths(6) [OF assms(1)]] by simp
    have ex: "q = staging_path st d" if "ent w q = Some (DFile i)" for q
      using assms(3) d s' that by (auto simp: store_inv_def)
    have "ent w p = Some (DFile i) \<or> (\<exists>e. wf_digest e \<and> ent w (object_path st e) = Some (DFile i))"
      using assms(4) p wf_file [OF wf s'] by (cases "prefix C p") (auto simp: mat_step_def frame_def)
    then show ?thesis using ex store_paths(1) [OF assms(1)] by metis
  qed
  have dirs: "ent w' (os_objects st) = Some DDir" "ent w' (os_tmp st) = Some DDir"
    using assms(1,3) out by (auto simp: store_wf_def store_inv_def)
  show ?thesis
    unfolding store_inv_def using assms(4) dirs good unique by (auto simp: mat_step_def)
qed

text \<open>The store holds exactly the bytes of a directory.\<close>

fun stored :: "'h ObjectStore \<Rightarrow> world \<Rightarrow> src_tree \<Rightarrow> bool" where
  "stored st w (SFile c x) \<longleftrightarrow> content w (object_path st (blob_digest (os_b3 st) c)) = Some c"
| "stored st w (SLink t) \<longleftrightarrow> True"
| "stored st w (SDir es) \<longleftrightarrow>
     content w (object_path st (tree_digest (os_b3 st) (manifest (os_b3 st) es)))
       = Some (tree_encode (manifest (os_b3 st) es)) \<and>
     list_all (\<lambda>e. stored st w (snd e)) es"

lemma stored_step:
  assumes "store_wf st" "parallel (os_root st) C" "wf_world w" "mat_step st C w w'"
  shows "stored st w s \<Longrightarrow> stored st w' s"
proof -
  have "content w' (object_path st d) = content w (object_path st d)" for d
    using assms objects_outside [OF assms(1,2)] by (intro frame_content) (auto simp: mat_step_def)
  then show "stored st w s \<Longrightarrow> stored st w' s"
    by (induction st w s rule: stored.induct) (auto simp: list_all_iff)
qed

lemma holds_step:
  assumes "wf_world w" "mat_step st C w w'" "parallel C p"
  shows "holds w p s \<Longrightarrow> holds w' p s"
  using assms(3)
proof (induction s arbitrary: p)
  case (SFile c x)
  then have "ent w' p = ent w p" using assms(2) by (simp add: mat_step_def frame_def parallel_def)
  then show ?case using SFile assms(1,2) by (auto simp: mat_step_def frame_def wf_file)
next
  case (SLink t)
  then show ?case using assms(2) by (simp add: mat_step_def frame_def parallel_def)
next
  case (SDir es)
  have same: "ent w' (p @ q) = ent w (p @ q)" for q
    using assms(2) parallel_below [OF SDir.prems(2)] by (simp add: mat_step_def frame_def)
  have "list_all (\<lambda>e. holds w' (p @ [fst e]) (snd e)) es"
    using SDir by (force simp: list_all_iff parallel_snoc snds.simps)
  then show ?case using SDir.prems(1) same same [of "[]"] by simp
qed

lemma is_exec_modes: "is_exec (want_mode intent x) = x" "\<not> is_exec OBJECT_MODE"
  by (cases intent; cases x; simp add: is_exec_def) (simp add: is_exec_def OBJECT_MODE_def)

lemma placed_mat_step:
  assumes "store_wf st" "wf_digest d" "wf_world w'" "frame {child} {} w w'"
    "placed (object_path st d) child place w r w'"
  shows "mat_step st child w w'"
proof -
  have "frame {p. prefix child p} {} w w'" using assms(4) by (rule frame_mono) auto
  moreover have "ent w p = Some (DFile i) \<or> (\<exists>d. wf_digest d \<and> ent w (object_path st d) = Some (DFile i))"
    if "ent w' p = Some (DFile i)" "i < next_ino w" for p i
  proof (cases "p = child")
    case False
    then show ?thesis using that assms(4) by (simp add: frame_def)
  next
    case True
    then show ?thesis
      using that assms(2,5) by (auto simp: placed_def fresh_at_def split: sum.splits if_splits)
  qed
  ultimately show ?thesis using assms(3) by (auto simp: mat_step_def)
qed

lemma chmod_mat_step:
  assumes "mat_step st child w w1" "wf_world w1" "ent w1 child = Some (DFile j)" "next_ino w \<le> j"
    "set_permissions child m w1 = (q, w')"
  shows "mat_step st child w w' \<and> content w' child = content w1 child \<and>
    (q = Inr () \<longrightarrow> ent w' child = Some (DFile j) \<and> ino_mode (inos w' j) = m)"
proof -
  note s = set_permissions_run [OF assms(2,5)]
  have "frame {p. prefix child p} {} w w'"
    using frame_step [of "{p. prefix child p}" "{}" w w1 "{}" "{i. ent w1 child = Some (DFile i)}" w'] s assms(1,3,4)
    by (auto simp: mat_step_def)
  moreover have e: "ent w' p = ent w1 p" for p using s by (simp add: frame_def)
  ultimately have "mat_step st child w w'" using s assms(1) by (auto simp: mat_step_def)
  then show ?thesis using s e assms(3) by (auto simp: content_def)
qed

lemma chmod_tail_run:
  assumes "mat_step st child w w1" "wf_world w1" "ent w1 child = Some (DFile j)" "next_ino w \<le> j"
    and run: "bnd (cas_io op1 child (fs_metadata child)) (\<lambda>_.
      bnd (cas_io op2 child (set_permissions child (want_mode intent x))) (\<lambda>_. ret y)) w1 = (r, w')"
  shows "mat_step st child w w' \<and> (is_ok r \<longrightarrow> (\<forall>c. content w1 child = Some c \<longrightarrow> holds w' child (SFile c x)))"
proof -
  have tick: "mat_step st child w (w1\<lparr>tick := n\<rparr>)" for n
    using assms(1) frame_trans [OF _ frame_upd(1), of "{p. prefix child p}" "{}" w w1] by (simp add: mat_step_def)
  from run show ?thesis
  proof (cases rule: bndE)
    case (err e)
    then show ?thesis using tick by (auto elim!: cas_ioE looksE [OF _ looks_calls(5)])
  next
    case (ok z w2)
    then obtain n where w2: "w2 = w1\<lparr>tick := n\<rparr>" by (auto elim!: cas_ioE looksE [OF _ looks_calls(5)])
    obtain q where q: "set_permissions child (want_mode intent x) w2 = (q, w')" and r: "is_ok r \<longleftrightarrow> q = Inr ()"
      using ok(2) by (auto simp: ret_def elim!: bndE cas_ioE)
    have "wf_world w2" "ent w2 child = Some (DFile j)" "content w2 child = content w1 child"
      using assms(2,3) w2 by simp_all
    with chmod_mat_step [OF tick [of n, folded w2] this(1,2) assms(4) q] r is_exec_modes(1) show ?thesis
      by (auto simp: content_def)
  qed
qed

lemma materialize_file_run:
  assumes st: "store_wf st" "parallel (os_root st) child" "wf_digest d" and inv: "store_inv st w"
    and run: "materialize_file st intent child d sz x stats w = (r, w')"
  shows "mat_step st child w w' \<and>
    (\<forall>c. is_ok r \<longrightarrow> content w (object_path st d) = Some c \<longrightarrow> holds w' child (SFile c x))"
proof -
  let ?src = "object_path st d" and ?place = "if x then PrivateInode else intent"
  have wf: "wf_world w" using inv by (rule store_inv_wf)
  obtain n b where h: "has st d w = (Inr b, w\<lparr>tick := n\<rparr>)" by (metis has_run prod.exhaust_sel)
  let ?w = "w\<lparr>tick := n\<rparr>"
  have step0: "mat_step st child w ?w" using mat_step_tick [OF wf] .
  show ?thesis
  proof (cases b)
    case False
    then show ?thesis
      using run h step0 by (auto simp: materialize_file_def has_def bnd_def try_with_def throw_def Let_def)
  next
    case True
    have ne: "?src \<noteq> child" using objects_outside [OF st(1,2), of d] by auto
    from run h True have "bnd (cas_io ''materialize file'' child (link_materialize ?src child ?place)) (\<lambda>mode.
        if mode \<noteq> Hardlink then
          bnd (cas_io ''stat for chmod'' child (fs_metadata child)) (\<lambda>_.
          bnd (cas_io ''chmod'' child (set_permissions child (want_mode intent x))) (\<lambda>_.
          ret (stats_record stats mode sz)))
        else ret (stats_record stats mode sz)) ?w = (r, w')"
      unfolding materialize_file_def has_def Let_def by (simp add: bnd_def [of "exists_path _"] try_with_def)
    then show ?thesis
    proof (cases rule: bndE)
      case (err e)
      then obtain e' where "link_materialize ?src child ?place ?w = (Inl e', w')" by (auto elim!: cas_ioE)
      with link_materialize_run [OF _ ne this] placed_mat_step [OF st(1,3)] wf err(2) show ?thesis
        using mat_step_trans [OF st(1,2) step0] by auto
    next
      case (ok mode w1)
      then have m: "link_materialize ?src child ?place ?w = (Inr mode, w1)" by (auto elim!: cas_ioE)
      note L = link_materialize_run [OF _ ne m]
      have wf1: "wf_world w1" and step1: "mat_step st child w w1"
        using L wf placed_mat_step [OF st(1,3)] mat_step_trans [OF st(1,2) step0] by auto
      have pl: "content w1 child = content w ?src"
        "mode = Hardlink \<Longrightarrow> \<not> x \<and> ent w1 child = ent w ?src"
        "mode \<noteq> Hardlink \<Longrightarrow> \<exists>j. ent w1 child = Some (DFile j) \<and> next_ino w \<le> j"
        using L wf by (auto simp: placed_def split: if_splits)
      show ?thesis
      proof (cases "mode = Hardlink")
        case True
        then have w': "w' = w1" using ok(2) by (simp add: ret_def)
        have "holds w1 child (SFile c x)" if c: "content w ?src = Some c" for c
        proof -
          obtain i where i: "ent w ?src = Some (DFile i)" "ino_data (inos w i) = c" using c by (auto simp: content_Some)
          have "good_object st w d" using inv st(3) by (simp add: store_inv_def)
          then have "ino_mode (inos w i) = OBJECT_MODE" using i by (simp add: good_object_def)
          moreover have "inos w1 i = inos w i"
            using step1 wf_file [OF wf i(1)] by (simp add: mat_step_def frame_def)
          ultimately show ?thesis using pl(2) [OF True] i is_exec_modes(2) by simp
        qed
        then show ?thesis using w' step1 by simp
      next
        case False
        then obtain j where j: "ent w1 child = Some (DFile j)" "next_ino w \<le> j" using pl(3) by blast
        have "bnd (cas_io ''stat for chmod'' child (fs_metadata child)) (\<lambda>_.
          bnd (cas_io ''chmod'' child (set_permissions child (want_mode intent x))) (\<lambda>_.
          ret (stats_record stats mode sz))) w1 = (r, w')"
          using ok(2) False by simp
        from chmod_tail_run [OF step1 wf1 j this] show ?thesis using pl(1) by auto
      qed
    qed
  qed
qed

subsection \<open>Manifests of directories\<close>

text \<open>What a directory must satisfy for its manifests to be encodable: names a manifest accepts,
  link targets that are text of at most 64 KiB, fewer than \<open>2 ^ 32\<close> entries.\<close>

fun wf_src :: "src_tree \<Rightarrow> bool" where
  "wf_src (SFile c x) \<longleftrightarrow> True"
| "wf_src (SLink t) \<longleftrightarrow> t \<noteq> [] \<and> length t < 2 ^ 16 \<and> utf8_valid (bytes_of t)"
| "wf_src (SDir es) \<longleftrightarrow> distinct (map fst es) \<and> length es < 2 ^ 32 \<and>
     list_all (\<lambda>e. safe_name (fst e) \<and> utf8_valid (bytes_of (fst e)) \<and> wf_src (snd e)) es"

lemma good_merkle:
  "blake3_ok b \<Longrightarrow> wf_src s \<Longrightarrow> wf_node (merkle b s) \<and> target_fits (merkle b s)"
  by (cases s) (simp_all add: blob_digest_keyed tree_digest_hash tree_hash_keyed wf_digest_keyed)

lemma bt_sorted_manifest: "bt_sorted (manifest b es)"
  by (simp add: manifest_def bt_sorted_tree_of_list)

lemma mset_manifest:
  assumes "distinct (map fst es)"
  shows "mset (manifest b es) = mset (map (\<lambda>e. (EntryName (fst e), merkle b (snd e))) es)"
proof -
  have "distinct (map fst (map (\<lambda>e. (EntryName (fst e), merkle b (snd e))) es))"
    using assms by (simp add: comp_def distinct_map inj_on_def)
  then show ?thesis unfolding manifest_def by (rule mset_tree_of_list)
qed

lemma set_manifest:
  "distinct (map fst es) \<Longrightarrow>
   set (manifest b es) = (\<lambda>e. (EntryName (fst e), merkle b (snd e))) ` set es"
  using mset_manifest [of es b, THEN mset_eq_setD] by simp

lemma length_manifest: "distinct (map fst es) \<Longrightarrow> length (manifest b es) = length es"
  using mset_manifest [of es b, THEN mset_eq_length] by simp

lemma good_manifest:
  assumes "blake3_ok b" "wf_src (SDir es)"
  shows "good_tree (manifest b es)"
proof -
  have d: "distinct (map fst es)" using assms(2) by simp
  have "good_entry (EntryName (fst e), merkle b (snd e))" if "e \<in> set es" for e
    using assms good_merkle [OF assms(1), of "snd e"] that
    by (auto simp: good_entry_def wf_entry_def list_all_iff)
  then have "\<forall>e \<in> set (manifest b es). good_entry e" unfolding set_manifest [OF d] by blast
  then show ?thesis
    using assms(2) length_manifest [OF d, of b] by (simp add: good_tree_iff bt_sorted_manifest)
qed

lemma good_entry_length: "good_entry e \<Longrightarrow> length (encode_entry e) \<le> 2 ^ 17"
  by (cases e; cases "snd e")
    (simp_all add: good_entry_def wf_entry_def safe_name_def NAME_MAX_def wf_digest_def DIGEST_LEN_def Let_def)

lemma good_tree_length:
  assumes "good_tree t"
  shows "length (tree_encode t) < 2 ^ 64"
proof -
  have "\<forall>e \<in> set t. length (encode_entry e) \<le> 2 ^ 17" using assms good_entry_length by (auto simp: good_tree_iff)
  then have "length (concat (map encode_entry t)) \<le> length t * 2 ^ 17"
    by (induction t) simp_all
  also have "\<dots> \<le> 2 ^ 32 * 2 ^ 17" using assms by (simp add: good_tree_iff)
  finally show ?thesis by (simp add: tree_encode_def)
qed

lemma get_manifest:
  assumes "store_wf st" "wf_src (SDir es)" "stored st w (SDir es)"
    "get_tree st (tree_digest (os_b3 st) (manifest (os_b3 st) es)) w = (Inr t, w')"
  shows "t = manifest (os_b3 st) es"
proof -
  have g: "good_tree (manifest (os_b3 st) es)"
    using assms(1,2) by (intro good_manifest) (simp_all add: store_wf_def)
  obtain bs where "content w (object_path st (tree_digest (os_b3 st) (manifest (os_b3 st) es))) = Some bs"
      and dec: "tree_decode bs = Inr t"
    using get_tree_run [OF assms(4)] by blast
  then have "bs = tree_encode (manifest (os_b3 st) es)" using assms(3) by simp
  then show ?thesis using dec tree_decode_encode [OF g good_tree_length [OF g]] by simp
qed

subsection \<open>The walk\<close>

definition materializes ::
  "'h ObjectStore \<Rightarrow> (CasError, 'a) prog \<Rightarrow> path \<Rightarrow> src_tree \<Rightarrow> bool" where
  "materializes st m C s \<longleftrightarrow> (\<forall>w r w'. store_inv st w \<longrightarrow> stored st w s \<longrightarrow> m w = (r, w') \<longrightarrow>
     mat_step st C w w' \<and> (is_ok r \<longrightarrow> holds w' C s))"

lemma materializesD:
  "materializes st m C s \<Longrightarrow> store_inv st w \<Longrightarrow> stored st w s \<Longrightarrow> m w = (r, w') \<Longrightarrow>
   mat_step st C w w' \<and> (is_ok r \<longrightarrow> holds w' C s)"
  unfolding materializes_def by blast

lemma symlink_mat_step:
  assumes "wf_world w" "symlink t child w = (q, w')"
  shows "mat_step st child w w' \<and> (is_ok q \<longrightarrow> ent w' child = Some (DLink t))"
proof -
  note s = symlink_run [OF assms]
  have f: "frame {p. prefix child p} {} w w'" using s by (auto elim: frame_mono)
  have same: "ent w' p = ent w p" if "p \<noteq> child" for p using s that by (simp add: frame_def)
  have new: "ent w' child = Some (DLink t) \<or> ent w' child = ent w child" using s by (cases q) auto
  have "ent w p = Some (DFile i)" if "ent w' p = Some (DFile i)" for p i
    using same [of p] new that by (cases "p = child") auto
  then have "mat_step st child w w'" using s f unfolding mat_step_def by blast
  then show ?thesis using s by (cases q) simp_all
qed

lemma materialize_node_ok:
  assumes st: "store_wf st" "parallel (os_root st) dest" and n: "safe_name n"
    and sub: "\<And>es stats. s = SDir es \<Longrightarrow>
      materializes st (sub (tree_digest (os_b3 st) (manifest (os_b3 st) es)) (dest @ [n]) stats) (dest @ [n]) s"
  shows "materializes st (materialize_node st sub intent dest (EntryName n, merkle (os_b3 st) s) stats) (dest @ [n]) s"
  unfolding materializes_def
proof (intro allI impI)
  fix w r w'
  assume inv: "store_inv st w" and sto: "stored st w s"
    and run: "materialize_node st sub intent dest (EntryName n, merkle (os_b3 st) s) stats w = (r, w')"
  have par: "parallel (os_root st) (dest @ [n])" using st(2) by (rule parallel_snoc)
  show "mat_step st (dest @ [n]) w w' \<and> (is_ok r \<longrightarrow> holds w' (dest @ [n]) s)"
  proof (cases s)
    case (SFile c x)
    then have "materialize_file st intent (dest @ [n]) (blob_digest (os_b3 st) c) (of_nat (length c)) x stats w = (r, w')"
      using run by (simp add: materialize_node_def join_safe [OF n])
    from materialize_file_run [OF st(1) par wf_object_digests(1) [OF st(1)] inv this] show ?thesis
      using sto SFile by auto
  next
    case (SLink t)
    then obtain q where q: "symlink t (dest @ [n]) w = (q, w')" "is_ok r \<longleftrightarrow> is_ok q"
      using run by (auto simp: materialize_node_def join_safe [OF n] ret_def Let_def elim!: bndE cas_ioE)
    then show ?thesis using symlink_mat_step [OF store_inv_wf [OF inv] q(1)] SLink by simp
  next
    case (SDir es)
    then have "sub (tree_digest (os_b3 st) (manifest (os_b3 st) es)) (dest @ [n]) stats w = (r, w')"
      using run by (simp add: materialize_node_def join_safe [OF n] merkle_dir del: merkle.simps(3))
    then show ?thesis by (rule materializesD [OF sub [OF SDir] inv sto])
  qed
qed

text \<open>The loop: the names placed so far are exactly \<open>N\<close>, each with its contents.\<close>

definition placed_names :: "world \<Rightarrow> path \<Rightarrow> (string \<times> src_tree) list \<Rightarrow> string set \<Rightarrow> bool" where
  "placed_names w dest es N \<longleftrightarrow> ent w dest = Some DDir \<and> (\<forall>n. ent w (dest @ [n]) \<noteq> None \<longleftrightarrow> n \<in> N) \<and>
     (\<forall>(n, s) \<in> set es. n \<in> N \<longrightarrow> holds w (dest @ [n]) s)"

lemma holds_present: "holds w p s \<Longrightarrow> ent w p \<noteq> None"
  by (cases s) auto

lemma placed_names_step:
  assumes "wf_world w" "placed_names w dest es N" "distinct (map fst es)" "(n, s) \<in> set es"
    "mat_step st (dest @ [n]) w w'" "holds w' (dest @ [n]) s"
  shows "placed_names w' dest es (insert n N)"
proof -
  have same: "ent w' p = ent w p" if "\<not> prefix (dest @ [n]) p" for p
    using assms(5) that by (simp add: mat_step_def frame_def)
  have "ent w' (dest @ [m]) = ent w (dest @ [m])" if "m \<noteq> n" for m
    using same that by simp
  then have "ent w' (dest @ [m]) \<noteq> None \<longleftrightarrow> m \<in> insert n N" for m
    using assms(2) holds_present [OF assms(6)] by (cases "m = n") (auto simp: placed_names_def)
  moreover have "ent w' dest = Some DDir"
    using same [of dest] assms(2) by (simp add: placed_names_def)
  moreover have "holds w' (dest @ [m]) s'" if m: "(m, s') \<in> set es" "m \<in> insert n N" for m s'
  proof (cases "m = n")
    case True
    then have "s' = s" using m(1) assms(3,4) by (metis eq_key_imp_eq_value)
    then show ?thesis using True assms(6) by simp
  next
    case False
    then have "holds w (dest @ [m]) s'" using m assms(2) by (auto simp: placed_names_def)
    moreover have "parallel (dest @ [n]) (dest @ [m])" using False by (simp add: parallel_def)
    ultimately show ?thesis using holds_step [OF assms(1,5)] by blast
  qed
  ultimately show ?thesis by (auto simp: placed_names_def)
qed

lemma materialize_loop_ok:
  assumes st: "store_wf st" "parallel (os_root st) dest" and es: "distinct (map fst es)"
    and node: "\<And>n s stats. (n, s) \<in> set es \<Longrightarrow>
      materializes st (f (EntryName n, merkle (os_b3 st) s) stats) (dest @ [n]) s"
  shows "store_inv st w \<Longrightarrow> list_all (\<lambda>e. stored st w (snd e)) es \<Longrightarrow>
    set L \<subseteq> (\<lambda>e. (EntryName (fst e), merkle (os_b3 st) (snd e))) ` set es \<Longrightarrow> placed_names w dest es N \<Longrightarrow>
    fold_prog f L stats w = (r, w') \<Longrightarrow>
    mat_step st dest w w' \<and> (is_ok r \<longrightarrow> placed_names w' dest es (N \<union> en_str ` fst ` set L))"
proof (induction L arbitrary: N w stats)
  case Nil
  then show ?case using store_inv_wf [OF Nil.prems(1)] by (auto simp: ret_def mat_step_def)
next
  case (Cons x L)
  then obtain n s where x: "x = (EntryName n, merkle (os_b3 st) s)" and mem: "(n, s) \<in> set es" by auto
  have sto: "stored st w s" using Cons.prems(2) mem by (auto simp: list_all_iff)
  have par: "parallel (os_root st) (dest @ [n])" using st(2) by (rule parallel_snoc)
  have wf: "wf_world w" using Cons.prems(1) by (rule store_inv_wf)
  note M = materializesD [OF node [OF mem] Cons.prems(1) sto]
  have up: "mat_step st dest w w1" if "mat_step st (dest @ [n]) w w1" for w1
    using that by (rule mat_step_mono) simp
  from Cons.prems(5) [unfolded fold_prog.simps x] show ?case
  proof (cases rule: bndE)
    case (err e)
    then show ?thesis using M [OF err(1)] up by simp
  next
    case (ok stats1 w1)
    have m: "mat_step st (dest @ [n]) w w1" "holds w1 (dest @ [n]) s" using M [OF ok(1)] by simp_all
    have inv1: "store_inv st w1" by (rule mat_step_store_inv [OF st(1) par Cons.prems(1) m(1)])
    have sto1: "list_all (\<lambda>e. stored st w1 (snd e)) es"
      using Cons.prems(2) stored_step [OF st(1) par wf m(1)] by (auto simp: list_all_iff)
    note R = Cons.IH [OF inv1 sto1 _ placed_names_step [OF wf Cons.prems(4) es mem m] ok(2)]
    then show ?thesis
      using Cons.prems(3) mat_step_trans [OF st up [OF m(1)]] x by auto
  qed
qed

lemma placed_names_all:
  assumes "placed_names w dest es (fst ` set es)" "distinct (map fst es)"
  shows "holds w dest (SDir es)"
proof -
  have "holds w (dest @ [fst e]) (snd e)" if "e \<in> set es" for e
    using assms(1) that unfolding placed_names_def by (metis (mono_tags, lifting) case_prodD imageI prod.collapse)
  then show ?thesis using assms by (simp add: placed_names_def list_all_iff)
qed

lemma create_dir_mat_step:
  assumes "wf_world w" "create_dir dest w = (q, w')"
  shows "mat_step st dest w w' \<and> (is_ok q \<longrightarrow> placed_names w' dest es {})"
proof -
  note c = create_dir_run [OF assms]
  have f: "frame {p. prefix dest p} {} w w'" using c by (auto elim: frame_mono)
  have same: "ent w' p = ent w p" if "p \<noteq> dest" for p using c that by (simp add: frame_def)
  have new: "ent w' dest = Some DDir \<or> ent w' dest = ent w dest" using c by (cases q) auto
  have "ent w p = Some (DFile i)" if "ent w' p = Some (DFile i)" for p i
    using same [of p] new that by (cases "p = dest") auto
  then have "mat_step st dest w w'" using c f unfolding mat_step_def by blast
  moreover have "placed_names w' dest es {}" if "is_ok q"
  proof -
    have n: "ent w dest = None" "ent w' dest = Some DDir" using c that by (cases q; simp)+
    then have "ent w (dest @ [m]) = None" for m
      using wf_parent [OF assms(1), of "dest @ [m]"] by (cases "ent w (dest @ [m])") auto
    then show ?thesis using n same by (simp add: placed_names_def)
  qed
  ultimately show ?thesis by simp
qed

lemma materialize_into_ok:
  assumes st: "store_wf st"
  shows "parallel (os_root st) dest \<Longrightarrow> wf_src (SDir es) \<Longrightarrow>
    materializes st (materialize_into n st intent (tree_digest (os_b3 st) (manifest (os_b3 st) es)) dest stats) dest (SDir es)"
proof (induction n arbitrary: dest es stats)
  case 0
  then show ?case by (auto simp: materializes_def throw_def mat_step_def store_inv_wf)
next
  case (Suc n dest es stats)
  let ?b = "os_b3 st"
  have d: "distinct (map fst es)" using Suc.prems(2) by simp
  have node: "materializes st (materialize_node st (materialize_into n st intent) intent dest
      (EntryName m, merkle ?b s) stats) (dest @ [m]) s" if "(m, s) \<in> set es" for m s stats
    using Suc that by (intro materialize_node_ok [OF st Suc.prems(1)])
      (auto simp: list_all_iff intro!: Suc.IH parallel_snoc)
  have "mat_step st dest w w' \<and> (is_ok r \<longrightarrow> holds w' dest (SDir es))"
    if inv: "store_inv st w" and sto: "stored st w (SDir es)"
      and run: "materialize_into (Suc n) st intent (tree_digest ?b (manifest ?b es)) dest stats w = (r, w')" for w r w'
    using run [unfolded materialize_into.simps Let_def]
  proof (cases rule: bndE)
    case (err e)
    then obtain e' where "create_dir dest w = (Inl e', w')" by (auto elim!: cas_ioE)
    from create_dir_mat_step [OF store_inv_wf [OF inv] this] show ?thesis using err(2) by simp
  next
    case (ok u w1)
    then have c: "create_dir dest w = (Inr u, w1)" by (auto elim!: cas_ioE)
    have m1: "mat_step st dest w w1" "placed_names w1 dest es {}"
      using create_dir_mat_step [OF store_inv_wf [OF inv] c, of st es] by simp_all
    have inv1: "store_inv st w1" by (rule mat_step_store_inv [OF st Suc.prems(1) inv m1(1)])
    have sto1: "stored st w1 (SDir es)" by (rule stored_step [OF st Suc.prems(1) store_inv_wf [OF inv] m1(1) sto])
    note T = mat_step_trans [OF st Suc.prems(1) m1(1)]
    from ok(2) show ?thesis
    proof (cases rule: bndE)
      case (err e)
      then show ?thesis
        using get_tree_run [OF err(1)] T mat_step_tick [OF store_inv_wf [OF inv1]] by auto
    next
      case (ok t w2)
      obtain k where w2: "w2 = w1\<lparr>tick := k\<rparr>" using get_tree_run [OF ok(1)] by blast
      have t: "t = manifest ?b es" by (rule get_manifest [OF st Suc.prems(2) sto1 ok(1)])
      have m2: "mat_step st dest w1 w2" using mat_step_tick [OF store_inv_wf [OF inv1]] w2 by simp
      have inv2: "store_inv st w2" using inv1 w2 by simp
      have sto2: "list_all (\<lambda>e. stored st w2 (snd e)) es"
        using stored_step [OF st Suc.prems(1) store_inv_wf [OF inv1] m2 sto1] by simp
      have p2: "placed_names w2 dest es {}"
        using m1(2) w2 by (simp add: placed_names_def)
      have "mat_step st dest w2 w' \<and> (is_ok r \<longrightarrow> placed_names w' dest es ({} \<union> en_str ` fst ` set (manifest ?b es)))"
        using materialize_loop_ok [OF st Suc.prems(1) d node inv2 sto2 _ p2 ok(2)]
        by (simp add: t tree_iter_def set_manifest [OF d])
      moreover have "en_str ` fst ` set (manifest ?b es) = fst ` set es"
        by (simp add: set_manifest [OF d] image_image)
      ultimately show ?thesis
        using T mat_step_trans [OF st Suc.prems(1) m2] placed_names_all [OF _ d] by (simp del: holds.simps)
    qed
  qed
  then show ?case unfolding materializes_def by blast
qed

subsection \<open>Hostile manifests\<close>

definition mat_safe :: "'h ObjectStore \<Rightarrow> (CasError, 'a) prog \<Rightarrow> path \<Rightarrow> bool" where
  "mat_safe st m C \<longleftrightarrow> (\<forall>w r w'. store_inv st w \<longrightarrow> m w = (r, w') \<longrightarrow> mat_step st C w w')"

lemma materialize_node_safe:
  assumes st: "store_wf st" "parallel (os_root st) dest" and e: "good_entry e"
    and sub: "\<And>d stats. mat_safe st (sub d (dest @ [en_str (fst e)]) stats) (dest @ [en_str (fst e)])"
  shows "mat_safe st (materialize_node st sub intent dest e stats) (dest @ [en_str (fst e)])"
  unfolding mat_safe_def
proof (intro allI impI)
  fix w r w'
  let ?c = "dest @ [en_str (fst e)]"
  assume inv: "store_inv st w" and run: "materialize_node st sub intent dest e stats w = (r, w')"
  have j: "join dest (en_str (fst e)) = ?c" using e by (simp add: join_safe good_entry_def wf_entry_def)
  have par: "parallel (os_root st) ?c" using st(2) by (rule parallel_snoc)
  show "mat_step st ?c w w'"
  proof (cases "snd e")
    case (NodeFile d sz x)
    then have "materialize_file st intent ?c d sz x stats w = (r, w')" using run j by (simp add: materialize_node_def)
    moreover have "wf_digest d" using e NodeFile by (simp add: good_entry_def wf_entry_def)
    ultimately show ?thesis using materialize_file_run [OF st(1) par _ inv] by blast
  next
    case (NodeDir d)
    then show ?thesis using run j sub inv by (simp add: materialize_node_def mat_safe_def)
  next
    case (NodeSymlink t)
    then obtain q where "symlink t ?c w = (q, w')"
      using run j by (auto simp: materialize_node_def ret_def Let_def elim!: bndE cas_ioE)
    then show ?thesis using symlink_mat_step [OF store_inv_wf [OF inv]] by blast
  qed
qed

lemma materialize_loop_safe:
  assumes st: "store_wf st" "parallel (os_root st) dest"
    and node: "\<And>e stats. e \<in> set L \<Longrightarrow> mat_safe st (f e stats) (dest @ [en_str (fst e)])"
  shows "mat_safe st (fold_prog f L stats) dest"
  using node
proof (induction L arbitrary: stats)
  case Nil
  then show ?case by (auto simp: mat_safe_def ret_def mat_step_def store_inv_wf)
next
  case (Cons e L)
  have "mat_step st dest w w'" if inv: "store_inv st w" and run: "fold_prog f (e # L) stats w = (r, w')" for w r w'
    using run [unfolded fold_prog.simps]
  proof (cases rule: bndE)
    case (err x)
    then show ?thesis using Cons.prems [of e] inv mat_step_mono by (fastforce simp: mat_safe_def)
  next
    case (ok s1 w1)
    have m: "mat_step st (dest @ [en_str (fst e)]) w w1"
      using Cons.prems [of e stats] inv ok(1) by (simp add: mat_safe_def)
    have "store_inv st w1" by (rule mat_step_store_inv [OF st(1) parallel_snoc [OF st(2)] inv m])
    then have "mat_step st dest w1 w'" using Cons.IH Cons.prems ok(2) by (simp add: mat_safe_def)
    then show ?thesis using mat_step_trans [OF st mat_step_mono [OF m]] by simp
  qed
  then show ?case by (auto simp: mat_safe_def simp del: fold_prog.simps)
qed

lemma materialize_into_safe:
  assumes st: "store_wf st"
  shows "parallel (os_root st) dest \<Longrightarrow> mat_safe st (materialize_into n st intent d dest stats) dest"
proof (induction n arbitrary: d dest stats)
  case 0
  then show ?case by (auto simp: mat_safe_def throw_def mat_step_def store_inv_wf)
next
  case (Suc n)
  have "mat_step st dest w w'" if inv: "store_inv st w"
    and run: "materialize_into (Suc n) st intent d dest stats w = (r, w')" for w r w'
    using run [unfolded materialize_into.simps Let_def]
  proof (cases rule: bndE)
    case (err e)
    then obtain e' where "create_dir dest w = (Inl e', w')" by (auto elim!: cas_ioE)
    then show ?thesis using create_dir_mat_step [OF store_inv_wf [OF inv]] by blast
  next
    case (ok u w1)
    then have "create_dir dest w = (Inr u, w1)" by (auto elim!: cas_ioE)
    then have m1: "mat_step st dest w w1" using create_dir_mat_step [OF store_inv_wf [OF inv]] by blast
    have inv1: "store_inv st w1" by (rule mat_step_store_inv [OF st Suc.prems inv m1])
    note T = mat_step_trans [OF st Suc.prems m1]
    from ok(2) show ?thesis
    proof (cases rule: bndE)
      case (err e)
      then show ?thesis
        using get_tree_run [OF err(1)] T mat_step_tick [OF store_inv_wf [OF inv1]] by auto
    next
      case (ok t w2)
      obtain k where w2: "w2 = w1\<lparr>tick := k\<rparr>" using get_tree_run [OF ok(1)] by blast
      have "good_tree t" using get_tree_run [OF ok(1)] tree_decode_sound by blast
      then have "mat_safe st (fold_prog (materialize_node st (materialize_into n st intent) intent dest) (tree_iter t) s) dest" for s
        using Suc by (intro materialize_loop_safe [OF st Suc.prems] materialize_node_safe [OF st Suc.prems])
          (auto simp: tree_iter_def good_tree_iff intro: parallel_snoc)
      then have "mat_step st dest w2 w'" using ok(2) inv1 w2 by (simp add: mat_safe_def)
      moreover have "mat_step st dest w1 w2" using mat_step_tick [OF store_inv_wf [OF inv1]] w2 by simp
      ultimately show ?thesis using T mat_step_trans [OF st Suc.prems] by blast
    qed
  qed
  then show ?case unfolding mat_safe_def by blast
qed

lemma materialize_tree_cases:
  assumes "materialize_tree st d dest intent w = (r, w')"
  obtains n where "w' = w\<lparr>tick := n\<rparr>" "r = Inl (DestinationExists dest)" "ent w dest \<noteq> None"
  | n where "materialize_into (Suc MAX_DEPTH) st intent d dest stats_default (w\<lparr>tick := n\<rparr>) = (r, w')"
  using assms unfolding materialize_tree_def
  by (auto simp: throw_def split: sum.splits elim!: try_withE looksE [OF _ looks_calls(4)])

section \<open>Collisions\<close>

text \<open>The store cannot tell two byte strings with one digest apart. \<open>U\<close> is a set of byte strings
  without such a pair.\<close>

definition collision_free :: "'h blake3_crate \<Rightarrow> bytes set \<Rightarrow> bool" where
  "collision_free b U \<longleftrightarrow> inj_on (blob_digest b) U \<and> inj_on (tree_hash b) U \<and>
     (\<forall>x \<in> U. \<forall>y \<in> U. blob_digest b x \<noteq> tree_hash b y)"

fun payloads :: "'h blake3_crate \<Rightarrow> src_tree \<Rightarrow> bytes list" where
  "payloads b (SFile c x) = [c]"
| "payloads b (SLink t) = []"
| "payloads b (SDir es) = tree_encode (manifest b es) # concat (map (\<lambda>e. payloads b (snd e)) es)"

definition stored_bytes :: "'h ObjectStore \<Rightarrow> world \<Rightarrow> bytes set" where
  "stored_bytes st w = {bs. \<exists>d. wf_digest d \<and> content w (object_path st d) = Some bs}"

lemma object_unique:
  assumes "store_inv st w" "collision_free (os_b3 st) U" "stored_bytes st w \<subseteq> U" "x \<in> U" "wf_digest d"
    "object_hash (os_b3 st) x d" "ent w (object_path st d) \<noteq> None"
  shows "content w (object_path st d) = Some x"
proof -
  have "good_object st w d" using assms(1,5) by (simp add: store_inv_def)
  then obtain i where i: "ent w (object_path st d) = Some (DFile i)" "object_hash (os_b3 st) (ino_data (inos w i)) d"
    using assms(7) by (auto simp: good_object_def split: option.splits dirent.splits)
  have "content w (object_path st d) = Some (ino_data (inos w i))" using i(1) by (simp add: content_def)
  then have "ino_data (inos w i) \<in> U" using assms(3,5) by (auto simp: stored_bytes_def)
  then have "ino_data (inos w i) = x"
    using assms(2,4,6) i(2) unfolding collision_free_def object_hash_def inj_on_def by metis
  then show ?thesis using i(1) by (simp add: content_def)
qed

lemma present_stored:
  assumes "store_wf st" "store_inv st w" "collision_free (os_b3 st) U" "stored_bytes st w \<subseteq> U"
  shows "present_all st w s \<Longrightarrow> set (payloads (os_b3 st) s) \<subseteq> U \<Longrightarrow> stored st w s"
proof (induction s)
  case (SFile c x)
  then show ?case
    using object_unique [OF assms(2,3,4), of c "blob_digest (os_b3 st) c"] assms(1)
    by (simp add: object_hash_def)
next
  case (SLink t)
  then show ?case by simp
next
  case (SDir es)
  let ?m = "manifest (os_b3 st) es"
  have "content w (object_path st (tree_digest (os_b3 st) ?m)) = Some (tree_encode ?m)"
  proof (rule object_unique [OF assms(2,3,4)])
    show "object_hash (os_b3 st) (tree_encode ?m) (tree_digest (os_b3 st) ?m)"
      by (simp add: object_hash_def tree_digest_hash)
  qed (use SDir.prems assms(1) in simp_all)
  moreover have "stored st w (snd e)" if "e \<in> set es" for e
    using SDir.IH [of e "snd e"] SDir.prems that by (force simp: list_all_iff snds.simps)
  ultimately show ?case by (simp add: list_all_iff)
qed

section \<open>An example run\<close>

definition example_src :: "(string \<times> src_tree) list" where
  "example_src = [(''run'', SFile [104, 105] True), (''ln'', SLink ''run'')]"

definition file_contents :: "world \<Rightarrow> bytes list" where
  "file_contents w =
     List.map_filter (\<lambda>(p, d). case d of DFile i \<Rightarrow> Some (ino_data (inos w i)) | _ \<Rightarrow> None) (ents w)"

definition collision_check :: "'h blake3_crate \<Rightarrow> bytes list \<Rightarrow> bool" where
  "collision_check b xs =
     (let ys = remdups xs; bd = map (blob_digest b) ys; td = map (tree_hash b) ys in
      distinct bd \<and> distinct td \<and> list_all (\<lambda>x. x \<notin> set td) bd)"

lemma collision_check_sound: "collision_check b xs \<Longrightarrow> collision_free b (set xs)"
  by (auto simp: collision_check_def collision_free_def list_all_iff distinct_map Let_def)

lemma stored_bytes_files:
  assumes "store_wf st"
  shows "stored_bytes st w \<subseteq> set (file_contents w)"
proof
  fix bs assume "bs \<in> stored_bytes st w"
  then obtain d i where "ent w (object_path st d) = Some (DFile i)" "ino_data (inos w i) = bs"
    by (auto simp: stored_bytes_def content_Some)
  then have "(object_path st d, DFile i) \<in> set (ents w)"
    using store_paths(15) [OF assms] by (auto simp: ent_def dest: map_of_SomeD)
  then show "bs \<in> set (file_contents w)"
    using \<open>ino_data (inos w i) = bs\<close> by (force simp: file_contents_def map_filter_def)
qed

text \<open>Ingest, materialize, and check the byte strings involved for collisions.\<close>

definition example_roundtrip :: "Intent \<Rightarrow> (digest \<times> world \<times> MaterializeStats \<times> world) option" where
  "example_roundtrip intent =
     (case ingest_dir example_store [''src''] example_src_world of
        (Inr d, w1) \<Rightarrow>
        (case materialize_tree example_store d [''out''] intent w1 of
           (Inr stats, w2) \<Rightarrow>
           if collision_check blake3_ref (payloads blake3_ref (SDir example_src) @ file_contents w1)
           then Some (d, w1, stats, w2) else None
         | _ \<Rightarrow> None)
      | _ \<Rightarrow> None)"

lemma example_runs: "case example_roundtrip PrivateInode of None \<Rightarrow> False | Some _ \<Rightarrow> True"
  by code_simp

lemma example_roundtripD:
  assumes "example_roundtrip intent = Some (d, w1, stats, w2)"
  shows "ingest_dir example_store [''src''] example_src_world = (Inr d, w1)"
    "materialize_tree example_store d [''out''] intent w1 = (Inr stats, w2)"
    "collision_check blake3_ref (payloads blake3_ref (SDir example_src) @ file_contents w1)"
  using assms by (auto simp: example_roundtrip_def split: prod.splits sum.splits if_splits)

lemma example_setup:
  "store_wf example_store" "store_inv example_store example_src_world"
  "holds example_src_world [''src''] (SDir example_src)" "wf_src (SDir example_src)"
  "parallel (os_root example_store) [''src'']" "parallel (os_root example_store) [''out'']"
proof -
  show "store_wf example_store" "store_inv example_store example_src_world"
    by (rule example_store_ok)+
  show "holds example_src_world [''src''] (SDir example_src)"
    by (auto simp: example_src_def example_src_world_def ent_def is_exec_def split: if_splits)
  show "wf_src (SDir example_src)"
    by (simp add: example_src_def safe_name_def NAME_MAX_def bytes_of_def)
  show "parallel (os_root example_store) [''src'']" "parallel (os_root example_store) [''out'']"
    by (simp_all add: example_store_def parallel_def)
qed

section \<open>Properties\<close>

text \<open>C7: Ingesting a directory, whatever fails on the way, keeps every stored object equal to its
  digest and changes nothing outside the store. If it succeeds, the digest it returns is a
  function of the directory alone, so two machines agree on it, and every blob and manifest
  the digest refers to is in the store. The walk always ends by itself, never by its bound.\<close>

theorem ingest_is_deterministic:
  assumes "store_wf st" "parallel (os_root st) dir" "store_inv st w" "holds w dir (SDir es)"
    "ingest_dir st dir w = (r, w')"
  shows "store_inv st w' \<and> evolves st w w' \<and> holds w' dir (SDir es) \<and>
    (\<forall>d. r = Inr d \<longrightarrow> NodeDir d = merkle (os_b3 st) (SDir es) \<and> present_all st w' (SDir es)) \<and>
    (\<forall>k. r \<noteq> Inl (TreeTooDeep k))"
proof -
  have "\<forall>k. r \<noteq> Inl (TreeTooDeep k)"
    using ingest_never_out_of_fuel [OF assms(1-4)] assms(5) by (metis fst_conv)
  then show ?thesis
    using ingest_dir_run [OF assms] holds_evolves [OF assms(2)] assms(4) unfolding merkle_dir by blast
qed

theorem ingest_is_deterministic_witness:
  "\<exists>d w'. ingest_dir example_store [''src''] example_src_world = (Inr d, w') \<and>
     NodeDir d = merkle blake3_ref (SDir example_src) \<and> store_inv example_store w'"
proof -
  obtain d w1 stats w2 where "example_roundtrip PrivateInode = Some (d, w1, stats, w2)"
    using example_runs by (auto split: option.splits)
  note run = example_roundtripD(1) [OF this]
  from ingest_is_deterministic [OF example_setup(1,5,2,3) run] show ?thesis
    using run by (auto simp: example_store_def)
qed

text \<open>C6: Materializing any digest, hostile manifests included, whatever fails on the way: no name
  outside the destination and no inode that existed before is changed, so no other file and
  no stored object is affected, and the store stays consistent.\<close>

theorem materialize_is_confined:
  assumes "store_wf st" "parallel (os_root st) dest" "store_inv st w"
    "materialize_tree st d dest intent w = (r, w')"
  shows "store_inv st w' \<and> (\<forall>p. \<not> prefix dest p \<longrightarrow> ent w' p = ent w p \<and> content w' p = content w p) \<and>
    (\<forall>i. i < next_ino w \<longrightarrow> inos w' i = inos w i)"
  using assms(4)
proof (cases rule: materialize_tree_cases)
  case (1 n)
  then show ?thesis using assms(3) by simp
next
  case (2 n)
  have "mat_step st dest (w\<lparr>tick := n\<rparr>) w'"
    using materialize_into_safe [OF assms(1,2)] 2 assms(3) unfolding mat_safe_def by (metis store_inv_tick)
  then have m: "mat_step st dest w w'"
    using mat_step_trans [OF assms(1,2) mat_step_tick] store_inv_wf [OF assms(3)] by blast
  have f: "frame {p. prefix dest p} {} w w'" using m by (simp add: mat_step_def)
  have "content w' p = content w p" if "\<not> prefix dest p" for p
    using frame_content [OF f store_inv_wf [OF assms(3)]] that by simp
  then show ?thesis
    using mat_step_store_inv [OF assms(1-3) m] f by (simp add: frame_def)
qed

theorem materialize_is_confined_witness:
  "\<exists>d w1 stats w2. materialize_tree example_store d [''out''] PrivateInode w1 = (Inr stats, w2) \<and>
     ent w2 [''src'', ''run''] = Some (DFile 0)"
proof -
  obtain d w1 stats w2 where "example_roundtrip PrivateInode = Some (d, w1, stats, w2)"
    using example_runs by (auto split: option.splits)
  note run = example_roundtripD [OF this]
  have ing: "store_inv example_store w1" "holds w1 [''src''] (SDir example_src)"
    using ingest_dir_run [OF example_setup(1,5,2,3) run(1)] holds_evolves [OF example_setup(5)] example_setup(3)
    by blast+
  have "ent w1 [''src'', ''run''] = Some (DFile 0)"
    using ingest_dir_run [OF example_setup(1,5,2,3) run(1)]
    by (simp add: evolves_def example_store_def) (simp add: example_src_world_def ent_def)
  moreover have "\<not> prefix [''out''] [''src'', ''run'']" by simp
  ultimately show ?thesis
    using materialize_is_confined [OF example_setup(1,6) ing(1) run(2)] run(2) by metis
qed

text \<open>C1: Round trip: a directory that was ingested and is then materialized from the digest has the
  same names, file contents, executable bits and link targets, in either placement mode,
  provided no two of the byte strings involved collide under the hash.\<close>

theorem ingest_materialize_roundtrip:
  assumes "store_wf st" "parallel (os_root st) dir" "parallel (os_root st) dest" "store_inv st w"
    and "holds w dir (SDir es)" "wf_src (SDir es)"
    and "ingest_dir st dir w = (Inr d, w1)" "materialize_tree st d dest intent w1 = (Inr stats, w2)"
    and "collision_free (os_b3 st) U" "set (payloads (os_b3 st) (SDir es)) \<subseteq> U" "stored_bytes st w1 \<subseteq> U"
  shows "holds w2 dest (SDir es)"
proof -
  have inv1: "store_inv st w1" and d: "d = tree_digest (os_b3 st) (manifest (os_b3 st) es)"
    and pres: "present_all st w1 (SDir es)"
    using ingest_dir_run [OF assms(1,2,4,5,7)] by auto
  have sto: "stored st w1 (SDir es)"
    by (rule present_stored [OF assms(1) inv1 assms(9,11) pres assms(10)])
  from assms(8) show ?thesis
  proof (cases rule: materialize_tree_cases)
    case (2 n)
    have "stored st (w1\<lparr>tick := n\<rparr>) (SDir es)"
      by (rule stored_step [OF assms(1,3) store_inv_wf [OF inv1] mat_step_tick [OF store_inv_wf [OF inv1]] sto])
    then show ?thesis
      using materializesD [OF materialize_into_ok [OF assms(1,3,6)]] 2 inv1 d by (metis is_ok_simps(2) store_inv_tick)
  qed simp
qed

theorem ingest_materialize_roundtrip_witness:
  "\<exists>d w1 stats w2. ingest_dir example_store [''src''] example_src_world = (Inr d, w1) \<and>
     materialize_tree example_store d [''out''] PrivateInode w1 = (Inr stats, w2) \<and>
     holds w2 [''out''] (SDir [(''run'', SFile [104, 105] True), (''ln'', SLink ''run'')])"
proof -
  obtain d w1 stats w2 where "example_roundtrip PrivateInode = Some (d, w1, stats, w2)"
    using example_runs by (auto split: option.splits)
  note run = example_roundtripD [OF this]
  let ?U = "set (payloads blake3_ref (SDir example_src) @ file_contents w1)"
  have b: "os_b3 example_store = blake3_ref" by (simp add: example_store_def)
  have "holds w2 [''out''] (SDir example_src)"
  proof (rule ingest_materialize_roundtrip [OF example_setup(1,5,6,2,3,4) run(1,2), of ?U, unfolded b])
    show "collision_free blake3_ref ?U" by (rule collision_check_sound [OF run(3)])
    show "stored_bytes example_store w1 \<subseteq> ?U" using stored_bytes_files [OF example_setup(1), of w1] by auto
  qed auto
  then show ?thesis using run(1,2) unfolding example_src_def by blast
qed

end
