(* ===== verification/Jet_Gc.thy ===== *)
theory Jet_Gc
  imports Jet_Workspace
begin

text \<open>
  Garbage collection of the object store (\<open>ObjectStore::gc\<close> in \<open>crates/jet-cas/src/store.rs\<close>): the
  mark phase, a recursive function on the work list that terminates because every manifest is expanded at
  most once, and the sweep over the fan-out directories. A digest-named entry that is no regular
  file has no metadata here; the store creates none.
\<close>

section \<open>Definitions\<close>

record GcStats =
  gs_live :: "64 word"
  gs_deleted :: "64 word"
  gs_bytes_freed :: "64 word"
  gs_spared_young :: "64 word"

text \<open>The manifests that the files of the world hold: what the mark phase can expand.\<close>

definition manifests :: "'h ObjectStore \<Rightarrow> world \<Rightarrow> digest set" where
  "manifests st w = (\<lambda>t. tree_digest (os_b3 st) t) ` {t. \<exists>e \<in> set (ents w). \<exists>i. snd e = DFile i \<and> tree_decode (ino_data (inos w i)) = Inr t}"

lemma finite_manifests: "finite (manifests st w)"
proof -
  have "{t. \<exists>e \<in> set (ents w). \<exists>i. snd e = DFile i \<and> tree_decode (ino_data (inos w i)) = Inr t} \<subseteq>
    (\<lambda>e. case snd e of DFile i \<Rightarrow> projr (tree_decode (ino_data (inos w i))) | _ \<Rightarrow> undefined) ` set (ents w)"
    by (force simp: image_iff)
  then show ?thesis unfolding manifests_def by (meson finite_imageI finite_subset finite_set)
qed

lemma get_tree_manifest:
  assumes "get_tree st d w = (Inr t, w')"
  shows "d \<in> manifests st w"
proof -
  obtain bs where bs: "tree_digest (os_b3 st) t = d" "content w (object_path st d) = Some bs" "tree_decode bs = Inr t"
    using get_tree_run [OF assms] by auto
  then obtain i where i: "ent w (object_path st d) = Some (DFile i)" "bs = ino_data (inos w i)"
    by (auto simp: content_Some)
  have "(object_path st d, DFile i) \<in> set (ents w)"
    using i(1) by (auto simp: ent_def object_path_def dest: map_of_SomeD)
  then show ?thesis using bs i(2) unfolding manifests_def by force
qed

lemma manifests_tick [simp]: "manifests st (w\<lparr>tick := n\<rparr>) = manifests st w"
  by (simp add: manifests_def)

text \<open>The mark loop. The vector of the source is the stack, top first; the set of live digests is a list without
  duplicates.\<close>

definition mark_tree :: "Tree \<Rightarrow> digest list \<Rightarrow> digest list \<times> digest list" where
  "mark_tree t live =
     (let live' = fold List.insert (blob_digests t) live in
      (filter (\<lambda>s. s \<notin> set live') (subtree_digests t), live'))"

function gc_mark :: "'h ObjectStore \<Rightarrow> digest list \<Rightarrow> digest list \<Rightarrow> world \<Rightarrow> digest list \<times> world" where
  "gc_mark st [] live w = (live, w)"
| "gc_mark st (d # stack) live w =
     (if d \<in> set live then gc_mark st stack live w
      else
        (case get_tree st d w of
           (Inl e, w') \<Rightarrow> gc_mark st stack (d # live) w'
         | (Inr t, w') \<Rightarrow>
             (case mark_tree t (d # live) of (pushes, live') \<Rightarrow> gc_mark st (rev pushes @ stack) live' w')))"
  by pat_completeness auto

lemma set_fold_insert [simp]: "set (fold List.insert xs ys) = set xs \<union> set ys"
  by (induction xs arbitrary: ys) auto

lemma mark_tree_live: "mark_tree t live = (pushes, live') \<Longrightarrow> set live' = set (blob_digests t) \<union> set live \<and>
    set pushes = set (subtree_digests t) - set live'"
  by (auto simp: mark_tree_def Let_def)

lemma get_tree_tick: "get_tree st d w = (r, w') \<Longrightarrow> \<exists>n. w' = w\<lparr>tick := n\<rparr>"
  using get_tree_run by blast

termination gc_mark
proof (relation "inv_image (less_than <*lex*> less_than)
    (\<lambda>(st, stack, live, w). (card (manifests st w - set live), length stack))")
  fix st :: "'h ObjectStore" and d stack live w
  show "((st, stack, live, w), st, d # stack, live, w) \<in> inv_image (less_than <*lex*> less_than)
    (\<lambda>(st, stack, live, w). (card (manifests st w - set live), length stack))" by simp
next
  fix st :: "'h ObjectStore" and d stack live w x w' e
  assume "(x, w') = get_tree st d w" "x = Inl e"
  then have "manifests st w' = manifests st w" using get_tree_tick [of st d w x w'] by auto
  moreover have "card (manifests st w - insert d (set live)) \<le> card (manifests st w - set live)"
    by (rule card_mono) (auto simp: finite_manifests)
  ultimately show "((st, stack, d # live, w'), st, d # stack, live, w) \<in> inv_image (less_than <*lex*> less_than)
    (\<lambda>(st, stack, live, w). (card (manifests st w - set live), length stack))" by auto
next
  fix st :: "'h ObjectStore" and d stack live w x w' t y pushes live'
  assume "d \<notin> set live" "(x, w') = get_tree st d w" "x = Inr t" "(pushes, live') = mark_tree t (d # live)"
  then have g: "get_tree st d w = (Inr t, w')" and m: "mark_tree t (d # live) = (pushes, live')" and d: "d \<notin> set live" by auto
  have "manifests st w' = manifests st w" using get_tree_tick [OF g] by auto
  moreover have "manifests st w - set live' \<subset> manifests st w - set live"
    using get_tree_manifest [OF g] d mark_tree_live [OF m] by auto
  ultimately have "card (manifests st w' - set live') < card (manifests st w - set live)"
    by (simp add: psubset_card_mono finite_manifests)
  then show "((st, rev pushes @ stack, live', w'), st, d # stack, live, w) \<in> inv_image (less_than <*lex*> less_than)
    (\<lambda>(st, stack, live, w). (card (manifests st w - set live), length stack))" by simp
qed (auto intro: wf_inv_image)

text \<open>The sweep: one object, one fan-out directory.\<close>

definition gc_object ::
  "'h ObjectStore \<Rightarrow> digest list \<Rightarrow> nat \<Rightarrow> nat \<Rightarrow> path \<Rightarrow> string \<Rightarrow> GcStats \<Rightarrow> (CasError, GcStats) prog" where
  "gc_object st live t0 min_age fan_path raw stats =
     bnd (cas_io ''read fanout entry'' fan_path (next_entry raw)) (\<lambda>name.
     let p = fan_path @ [name] in
     if \<not> utf8_valid (bytes_of name) then ret stats
     else
       (case digest_parse (os_hex st) name of
          Inl _ \<Rightarrow> ret stats
        | Inr d \<Rightarrow>
            if d \<in> set live then ret stats
            else
              try_with (fs_metadata p) (\<lambda>m. case m of
                Inl _ \<Rightarrow> ret stats
              | Inr meta \<Rightarrow>
                  if t0 - ino_mtime meta < min_age then ret (stats\<lparr>gs_spared_young := gs_spared_young stats + 1\<rparr>)
                  else
                    try_with (remove_file p) (\<lambda>r. case r of
                      Inr _ \<Rightarrow> ret (stats\<lparr>gs_deleted := gs_deleted stats + 1,
                                 gs_bytes_freed := gs_bytes_freed stats + of_nat (length (ino_data meta))\<rparr>)
                    | Inl e \<Rightarrow> if e = ENOENT then ret stats else throw (CasIo ''unlink object'' p e)))))"

definition gc_fan ::
  "'h ObjectStore \<Rightarrow> digest list \<Rightarrow> nat \<Rightarrow> nat \<Rightarrow> string \<Rightarrow> GcStats \<Rightarrow> (CasError, GcStats) prog" where
  "gc_fan st live t0 min_age raw stats =
     bnd (cas_io ''read objects dir entry'' (os_objects st) (next_entry raw)) (\<lambda>name.
     let fan_path = os_objects st @ [name] in
     try_with (lstat fan_path) (\<lambda>ft.
     if ft \<noteq> Inr DDir then ret stats
     else
       bnd (cas_io ''read fanout'' fan_path (read_dir fan_path)) (\<lambda>objs.
       fold_prog (gc_object st live t0 min_age fan_path) objs stats)))"

definition gc_sweep :: "'h ObjectStore \<Rightarrow> digest list \<Rightarrow> nat \<Rightarrow> nat \<Rightarrow> (CasError, GcStats) prog" where
  "gc_sweep st live t0 min_age =
     bnd (cas_io ''read objects dir'' (os_objects st) (read_dir (os_objects st))) (\<lambda>fans.
     fold_prog (gc_fan st live t0 min_age) fans
       \<lparr>gs_live = of_nat (length live), gs_deleted = 0, gs_bytes_freed = 0, gs_spared_young = 0\<rparr>)"

definition gc :: "'h ObjectStore \<Rightarrow> digest list \<Rightarrow> nat \<Rightarrow> (CasError, GcStats) prog" where
  "gc st roots min_age w =
     (case gc_mark st (rev roots) [] w of (live, w1) \<Rightarrow> gc_sweep st live (now w1) min_age w1)"
section \<open>Marking\<close>

definition stored_tree :: "'h ObjectStore \<Rightarrow> world \<Rightarrow> digest \<Rightarrow> Tree \<Rightarrow> bool" where
  "stored_tree st w d t \<longleftrightarrow>
     (\<exists>bs. content w (object_path st d) = Some bs \<and> tree_decode bs = Inr t \<and> tree_digest (os_b3 st) t = d)"

definition tree_refs :: "Tree \<Rightarrow> digest set" where
  "tree_refs t = set (blob_digests t) \<union> set (subtree_digests t)"

inductive reachable :: "'h ObjectStore \<Rightarrow> world \<Rightarrow> digest list \<Rightarrow> digest \<Rightarrow> bool" for st w roots where
  root: "d \<in> set roots \<Longrightarrow> reachable st w roots d"
| child: "reachable st w roots d \<Longrightarrow> stored_tree st w d t \<Longrightarrow> e \<in> tree_refs t \<Longrightarrow> reachable st w roots e"

text \<open>A manifest in reach names the digest as the contents of a file. The mark loop marks such a digest at once and does not
  look for a manifest under it.\<close>

definition named_as_file :: "'h ObjectStore \<Rightarrow> world \<Rightarrow> digest list \<Rightarrow> digest \<Rightarrow> bool" where
  "named_as_file st w roots b \<longleftrightarrow> (\<exists>d t. reachable st w roots d \<and> stored_tree st w d t \<and> b \<in> set (blob_digests t))"

text \<open>Reachable through manifests that no manifest in reach names as a file.\<close>

inductive tracked :: "'h ObjectStore \<Rightarrow> world \<Rightarrow> digest list \<Rightarrow> digest \<Rightarrow> bool" for st w roots where
  tracked_root: "d \<in> set roots \<Longrightarrow> tracked st w roots d"
| tracked_child: "tracked st w roots d \<Longrightarrow> \<not> named_as_file st w roots d \<Longrightarrow> stored_tree st w d t \<Longrightarrow> e \<in> tree_refs t \<Longrightarrow>
    tracked st w roots e"

text \<open>No manifest in reach names a manifest as the contents of a file.\<close>

definition blobs_opaque :: "'h ObjectStore \<Rightarrow> world \<Rightarrow> digest list \<Rightarrow> bool" where
  "blobs_opaque st w roots \<longleftrightarrow> (\<forall>d t b u. reachable st w roots d \<longrightarrow> stored_tree st w d t \<longrightarrow>
     b \<in> set (blob_digests t) \<longrightarrow> \<not> stored_tree st w b u)"

text \<open>From now on no system call fails.\<close>

definition quiet :: "world \<Rightarrow> bool" where
  "quiet w \<longleftrightarrow> (\<forall>n \<ge> tick w. fault w n = None)"

lemma quiet_tick [simp]: "quiet w \<Longrightarrow> tick w \<le> n \<Longrightarrow> quiet (w\<lparr>tick := n\<rparr>)"
  by (simp add: quiet_def)

text \<open>Fetching a manifest is one system call.\<close>

lemma get_tree_ticks: "get_tree st d w = (r, w') \<Longrightarrow> w' = w\<lparr>tick := Suc (tick w)\<rparr>"
  by (auto simp: get_tree_def get_bytes_def fs_read_def syscall_def bnd_def try_with_def ret_def throw_def
      map_err_def lift_res_def Let_def split: option.splits sum.splits if_splits prod.splits)

lemma content_cong: "ents w' = ents w \<Longrightarrow> inos w' = inos w \<Longrightarrow> content w' p = content w p"
  by (auto simp: content_def ent_def split: option.split dirent.split)

lemma stored_tree_cong: "ents w' = ents w \<Longrightarrow> inos w' = inos w \<Longrightarrow> stored_tree st w' d t = stored_tree st w d t"
  using content_cong [of w' w] by (simp add: stored_tree_def)

lemma reachable_cong:
  assumes "ents w' = ents w" "inos w' = inos w"
  shows "reachable st w' roots d = reachable st w roots d"
proof
  show "reachable st w roots d" if "reachable st w' roots d"
    using that by induction (auto intro: reachable.intros simp: stored_tree_cong [OF assms])
  show "reachable st w' roots d" if "reachable st w roots d"
    using that by induction (auto intro: reachable.intros simp: stored_tree_cong [OF assms])
qed

lemma blobs_opaque_cong:
  assumes "ents w' = ents w" "inos w' = inos w"
  shows "blobs_opaque st w' roots = blobs_opaque st w roots"
  unfolding blobs_opaque_def reachable_cong [OF assms] stored_tree_cong [OF assms] ..

lemma named_as_file_cong:
  assumes "ents w' = ents w" "inos w' = inos w"
  shows "named_as_file st w' roots b = named_as_file st w roots b"
  unfolding named_as_file_def reachable_cong [OF assms] stored_tree_cong [OF assms] ..

lemma tracked_cong:
  assumes "ents w' = ents w" "inos w' = inos w"
  shows "tracked st w' roots d = tracked st w roots d"
proof
  note c = stored_tree_cong [OF assms] named_as_file_cong [OF assms]
  show "tracked st w roots d" if "tracked st w' roots d"
    using that by induction (auto intro: tracked.intros simp: c)
  show "tracked st w' roots d" if "tracked st w roots d"
    using that by induction (auto intro: tracked.intros simp: c)
qed

lemma tracked_reachable: "tracked st w roots d \<Longrightarrow> reachable st w roots d"
  by (induction rule: tracked.induct) (auto intro: reachable.intros)

lemma blobs_opaque_tracked:
  assumes "blobs_opaque st w roots"
  shows "reachable st w roots d = tracked st w roots d"
proof
  show "tracked st w roots d" if "reachable st w roots d"
    using that
  proof induction
    case (child d t e)
    then have "\<not> named_as_file st w roots d" using assms unfolding blobs_opaque_def named_as_file_def by blast
    then show ?case using child tracked_child by metis
  qed (rule tracked_root)
qed (rule tracked_reachable)

lemma get_tree_stored: "get_tree st d w = (Inr t, w') \<Longrightarrow> stored_tree st w d t"
  using get_tree_run by (fastforce simp: stored_tree_def)

lemma get_tree_quiet:
  assumes "quiet w" "stored_tree st w d t"
  shows "get_tree st d w = (Inr t, w\<lparr>tick := Suc (tick w)\<rparr>)"
proof -
  obtain i where i: "ent w (object_path st d) = Some (DFile i)" "tree_decode (ino_data (inos w i)) = Inr t"
    "tree_digest (os_b3 st) t = d"
    using assms(2) by (auto simp: stored_tree_def content_Some)
  have "fs_read (object_path st d) w = (Inr (ino_data (inos w i)), w\<lparr>tick := Suc (tick w)\<rparr>)"
    using i(1) assms(1) by (simp add: fs_read_def syscall_def quiet_def file_at_def Let_def)
  then show ?thesis
    using i(2,3) by (simp add: get_tree_def get_bytes_def Let_def bnd_def try_with_def ret_def throw_def map_err_def lift_res_def)
qed

text \<open>A live digest not named as a file is done when the manifest under it, if any, has its references marked or waiting.\<close>

definition done_in :: "'h ObjectStore \<Rightarrow> world \<Rightarrow> digest list \<Rightarrow> digest set \<Rightarrow> digest set \<Rightarrow> bool" where
  "done_in st w roots L S \<longleftrightarrow>
     (\<forall>d \<in> L. \<forall>t. stored_tree st w d t \<longrightarrow> named_as_file st w roots d \<or> tree_refs t \<subseteq> L \<union> S)"

lemma gc_mark_spec:
  assumes "gc_mark st stack live w = (live', w')" "quiet w"
    "\<forall>d \<in> set stack \<union> set live. reachable st w roots d" "done_in st w roots (set live) (set stack)"
  shows "set stack \<union> set live \<subseteq> set live' \<and> (\<forall>d \<in> set live'. reachable st w roots d) \<and> done_in st w roots (set live') {}"
  using assms
proof (induction st stack live w rule: gc_mark.induct)
  case (1 st live w)
  then show ?case by simp
next
  case (2 st d stack live w)
  note prems = 2(4-7)
  show ?case
  proof (cases "d \<in> set live")
    case True
    have "done_in st w roots (set live) (set stack)" using prems(4) True by (fastforce simp: done_in_def)
    then show ?thesis using 2(1) [OF True] prems True by auto
  next
    case False
    obtain r w1 where g: "get_tree st d w = (r, w1)" by fastforce
    note w1 = get_tree_ticks [OF g]
    have e: "ents w1 = ents w" "inos w1 = inos w" and q: "quiet w1" using prems(2) by (simp_all add: w1)
    have same: "stored_tree st w1 e t = stored_tree st w e t" "reachable st w1 roots e = reachable st w roots e"
      "done_in st w1 roots L S = done_in st w roots L S" for e t L S
      unfolding done_in_def stored_tree_cong [OF e] reachable_cong [OF e] named_as_file_cong [OF e] by simp_all
    show ?thesis
    proof (cases r)
      case (Inl e)
      have none: "\<not> stored_tree st w d t" for t using get_tree_quiet [OF prems(2), of st d t] g Inl by auto
      have "done_in st w roots (set (d # live)) (set stack)" using prems(4) none by (fastforce simp: done_in_def)
      then show ?thesis
        using 2(2) [OF False g [symmetric] Inl] prems False g Inl q unfolding same by auto
    next
      case (Inr t)
      have t: "stored_tree st w d t" using get_tree_stored g Inr by blast
      have only: "u = t" if "stored_tree st w d u" for u using that t by (auto simp: stored_tree_def)
      obtain pushes live1 where m: "mark_tree t (d # live) = (pushes, live1)" by fastforce
      note L = mark_tree_live [OF m]
      have d: "reachable st w roots d" using prems(3) by simp
      have "\<forall>e \<in> set (rev pushes @ stack) \<union> set live1. reachable st w roots e"
        using L prems(3) child [OF d t] by (auto simp: tree_refs_def)
      moreover have "named_as_file st w roots b" if "b \<in> set (blob_digests t)" for b
        using d t that unfolding named_as_file_def by blast
      then have "done_in st w roots (set live1) (set (rev pushes @ stack))"
        using prems(4) L only unfolding done_in_def by (fastforce simp: tree_refs_def)
      ultimately show ?thesis
        using 2(3) [OF False g [symmetric] Inr m [symmetric]] prems False g Inr m L q unfolding same by auto
    qed
  qed
qed

text \<open>Without failing reads, everything tracked is marked, and all that is marked is reachable.\<close>

lemma gc_mark_between:
  assumes "gc_mark st (rev roots) [] w = (live, w')" "quiet w"
  shows "{d. tracked st w roots d} \<subseteq> set live \<and> set live \<subseteq> {d. reachable st w roots d}"
proof -
  have "\<forall>d \<in> set (rev roots) \<union> set []. reachable st w roots d" "done_in st w roots (set []) (set (rev roots))"
    by (auto intro: root simp: done_in_def)
  note S = gc_mark_spec [OF assms this]
  have "d \<in> set live" if "tracked st w roots d" for d
    using that
  proof induction
    case (tracked_child d t e)
    then show ?case using S unfolding done_in_def by blast
  qed (use S in auto)
  then show ?thesis using S by blast
qed

lemma gc_mark_reachable:
  assumes "gc_mark st (rev roots) [] w = (live, w')" "quiet w" "blobs_opaque st w roots"
  shows "set live = {d. reachable st w roots d}"
  using gc_mark_between [OF assms(1,2)] blobs_opaque_tracked [OF assms(3)] by auto

lemma gc_mark_tick: "gc_mark st stack live w = (live', w') \<Longrightarrow> \<exists>n \<ge> tick w. w' = w\<lparr>tick := n\<rparr>"
proof (induction st stack live w rule: gc_mark.induct)
  case (1 st live w)
  then show ?case by (intro exI [of _ "tick w"]) simp
next
  case (2 st d stack live w)
  show ?case
  proof (cases "d \<in> set live")
    case True
    then show ?thesis using 2 by simp
  next
    case False
    obtain r w1 where g: "get_tree st d w = (r, w1)" by fastforce
    note w1 = get_tree_ticks [OF g]
    have "\<exists>m \<ge> tick w1. w' = w1\<lparr>tick := m\<rparr>"
    proof (cases r)
      case (Inl e)
      then show ?thesis using 2(2) [OF False g [symmetric] Inl] 2(4) False g by simp
    next
      case (Inr t)
      obtain pushes live1 where m: "mark_tree t (d # live) = (pushes, live1)" by fastforce
      then show ?thesis using 2(3) [OF False g [symmetric] Inr m [symmetric]] 2(4) False g Inr by simp
    qed
    then show ?thesis unfolding w1 by (auto intro: Suc_leD)
  qed
qed

section \<open>Sweeping\<close>

text \<open>What the sweep may delete: an unmarked, digest-named file of a fan-out directory that is old enough.\<close>

definition doomed :: "'h ObjectStore \<Rightarrow> digest set \<Rightarrow> nat \<Rightarrow> nat \<Rightarrow> world \<Rightarrow> path \<Rightarrow> bool" where
  "doomed st L t0 min_age w p \<longleftrightarrow>
     (\<exists>fan name d i. p = os_objects st @ [fan, name] \<and> utf8_valid (bytes_of name) \<and>
        digest_parse (os_hex st) name = Inr d \<and> d \<notin> L \<and>
        ent w p = Some (DFile i) \<and> min_age \<le> t0 - ino_mtime (inos w i))"

definition swept :: "'h ObjectStore \<Rightarrow> digest set \<Rightarrow> nat \<Rightarrow> nat \<Rightarrow> world \<Rightarrow> world \<Rightarrow> bool" where
  "swept st L t0 min_age w w' \<longleftrightarrow> wf_world w' \<and> inos w' = inos w \<and> fault w' = fault w \<and>
     (\<forall>p. ent w' p = ent w p \<or> ent w' p = None \<and> doomed st L t0 min_age w p)"

lemma swept_tick: "swept st L t0 a w w' \<Longrightarrow> swept st L t0 a w (w'\<lparr>tick := n\<rparr>)"
  by (auto simp: swept_def wf_world_def)

lemma swept_refl: "wf_world w \<Longrightarrow> swept st L t0 a w w"
  by (simp add: swept_def)

lemma fold_prog_keeps:
  assumes "\<And>x s w r w'. x \<in> set xs \<Longrightarrow> I w \<Longrightarrow> f x s w = (r, w') \<Longrightarrow> I w'" "I w" "fold_prog f xs s w = (r, w')"
  shows "I w'"
proof -
  have "wp (fold_prog f xs s) (\<lambda>_ w'. I w') w"
    using assms(1,2) by (intro wp_fold_prog) (auto simp: wp_def split: prod.split)
  then show ?thesis using assms(3) by (simp add: wp_def)
qed

lemma gc_object_swept:
  assumes "swept st (set live) t0 a w0 w" "gc_object st live t0 a (os_objects st @ [fan]) raw stats w = (r, w')"
  shows "swept st (set live) t0 a w0 w'"
  using assms(2) unfolding gc_object_def Let_def
proof (cases rule: bndE)
  case (err e)
  then show ?thesis using assms(1) by (auto elim!: cas_ioE looksE [OF _ looks_calls(9)] intro: swept_tick)
next
  case (ok name w1)
  then have w1: "swept st (set live) t0 a w0 w1"
    using assms(1) by (auto elim!: cas_ioE looksE [OF _ looks_calls(9)] intro: swept_tick)
  let ?p = "(os_objects st @ [fan]) @ [name]"
  show ?thesis
  proof (cases "utf8_valid (bytes_of name) \<and> (\<exists>d. digest_parse (os_hex st) name = Inr d \<and> d \<notin> set live)")
    case False
    then show ?thesis using ok(2) w1 by (auto simp: ret_def split: if_splits sum.splits)
  next
    case True
    then obtain d where d: "utf8_valid (bytes_of name)" "digest_parse (os_hex st) name = Inr d" "d \<notin> set live" by blast
    with ok(2) obtain m w2 where m: "fs_metadata ?p w1 = (m, w2)" and rest: "(case m of Inl _ \<Rightarrow> ret stats
        | Inr meta \<Rightarrow> if t0 - ino_mtime meta < a then ret (stats\<lparr>gs_spared_young := gs_spared_young stats + 1\<rparr>)
          else try_with (remove_file ?p) (\<lambda>r. case r of
             Inr _ \<Rightarrow> ret (stats\<lparr>gs_deleted := gs_deleted stats + 1,
                 gs_bytes_freed := gs_bytes_freed stats + of_nat (length (ino_data meta))\<rparr>)
           | Inl e \<Rightarrow> if e = ENOENT then ret stats else throw (CasIo ''unlink object'' ?p e))) w2 = (r, w')"
      by (auto elim!: try_withE)
    from m have w2: "swept st (set live) t0 a w0 w2" and meta: "\<And>x. m = Inr x \<Longrightarrow> \<exists>i. ent w2 ?p = Some (DFile i) \<and> x = inos w2 i"
      using w1 by (auto elim!: looksE [OF _ looks_calls(5)] intro: swept_tick)
    show ?thesis
    proof (cases "\<exists>x. m = Inr x \<and> a \<le> t0 - ino_mtime x")
      case False
      then show ?thesis using rest w2 by (auto simp: ret_def split: sum.splits if_splits)
    next
      case True
      then obtain i where i: "ent w2 ?p = Some (DFile i)" "m = Inr (inos w2 i)" "a \<le> t0 - ino_mtime (inos w2 i)"
        using meta by auto
      have "ent w0 ?p = Some (DFile i)" "inos w2 = inos w0"
        using w2 i(1) unfolding swept_def by (metis option.distinct(1))+
      then have doom: "doomed st (set live) t0 a w0 ?p" using d i(3) unfolding doomed_def by force
      from rest i obtain q where q: "remove_file ?p w2 = (q, w')"
        by (auto simp: ret_def throw_def elim!: try_withE split: sum.splits if_splits)
      have "wf_world w2" using w2 by (simp add: swept_def)
      from remove_file_run [OF this q]
      have rm: "wf_world w'" "inos w' = inos w2" "fault w' = fault w2" "\<And>x. x \<noteq> ?p \<Longrightarrow> ent w' x = ent w2 x"
        "ent w' ?p = None \<or> ent w' ?p = ent w2 ?p"
        by (auto simp: frame_def split: sum.splits)
      have "ent w' x = ent w0 x \<or> ent w' x = None \<and> doomed st (set live) t0 a w0 x" for x
        using rm(4) [of x] rm(5) w2 doom unfolding swept_def by (cases "x = ?p") metis+
      then show ?thesis using w2 rm(1-3) by (simp add: swept_def)
    qed
  qed
qed


lemma gc_fan_swept:
  assumes "swept st (set live) t0 a w0 w" "gc_fan st live t0 a raw stats w = (r, w')"
  shows "swept st (set live) t0 a w0 w'"
  using assms(2) unfolding gc_fan_def Let_def
proof (cases rule: bndE)
  case (err e)
  then show ?thesis using assms(1) by (auto elim!: cas_ioE looksE [OF _ looks_calls(9)] intro: swept_tick)
next
  case (ok name w1)
  then have w1: "swept st (set live) t0 a w0 w1"
    using assms(1) by (auto elim!: cas_ioE looksE [OF _ looks_calls(9)] intro: swept_tick)
  from ok(2) obtain ft w2 where ft: "lstat (os_objects st @ [name]) w1 = (ft, w2)"
    and rest: "(if ft \<noteq> Inr DDir then ret stats else bnd (cas_io ''read fanout'' (os_objects st @ [name]) (read_dir (os_objects st @ [name])))
      (\<lambda>objs. fold_prog (gc_object st live t0 a (os_objects st @ [name])) objs stats)) w2 = (r, w')"
    by (auto elim!: try_withE)
  from ft have w2: "swept st (set live) t0 a w0 w2"
    using w1 by (auto elim!: looksE [OF _ looks_calls(4)] intro: swept_tick)
  show ?thesis
  proof (cases "ft = Inr DDir")
    case False
    then show ?thesis using rest w2 by (simp add: ret_def)
  next
    case True
    with rest have "bnd (cas_io ''read fanout'' (os_objects st @ [name]) (read_dir (os_objects st @ [name])))
      (\<lambda>objs. fold_prog (gc_object st live t0 a (os_objects st @ [name])) objs stats) w2 = (r, w')" by simp
    then show ?thesis
    proof (cases rule: bndE)
      case (err e)
      then show ?thesis using w2 by (auto elim!: cas_ioE looksE [OF _ looks_calls(8)] intro: swept_tick)
    next
      case (ok objs w3)
      then have "swept st (set live) t0 a w0 w3"
        using w2 by (auto elim!: cas_ioE looksE [OF _ looks_calls(8)] intro: swept_tick)
      from fold_prog_keeps [of objs "swept st (set live) t0 a w0", OF _ this ok(2)] show ?thesis
        by (meson gc_object_swept)
    qed
  qed
qed

lemma gc_sweep_swept:
  assumes "wf_world w" "gc_sweep st live t0 a w = (r, w')"
  shows "swept st (set live) t0 a w w'"
  using assms(2) [unfolded gc_sweep_def]
proof (cases rule: bndE)
  case (err e)
  then show ?thesis using assms(1) by (auto elim!: cas_ioE looksE [OF _ looks_calls(8)] intro: swept_tick swept_refl)
next
  case (ok fans w2)
  then have "swept st (set live) t0 a w w2"
    using assms(1) by (auto elim!: cas_ioE looksE [OF _ looks_calls(8)] intro: swept_tick swept_refl)
  from fold_prog_keeps [of fans "swept st (set live) t0 a w", OF _ this ok(2)] show ?thesis
    by (meson gc_fan_swept)
qed

lemma doomed_tick: "doomed st L t0 a (w\<lparr>tick := n\<rparr>) = doomed st L t0 a w"
  by (intro ext) (simp add: doomed_def)

lemma swept_from_tick: "swept st L t0 a (w\<lparr>tick := n\<rparr>) = swept st L t0 a w"
  by (intro ext) (simp add: swept_def doomed_tick)

lemma gc_swept:
  assumes "wf_world w" "gc st roots a w = (r, w')"
  shows "swept st (set (fst (gc_mark st (rev roots) [] w))) (now w) a w w'"
proof -
  obtain live w1 where m: "gc_mark st (rev roots) [] w = (live, w1)" by fastforce
  obtain n where w1: "w1 = w\<lparr>tick := n\<rparr>" using gc_mark_tick [OF m] by blast
  have "wf_world w1" "gc_sweep st live (now w) a w1 = (r, w')" using assms m w1 by (simp_all add: gc_def wf_world_def)
  from gc_sweep_swept [OF this] show ?thesis using m unfolding w1 swept_from_tick by simp
qed

lemma marks_quiet:
  assumes "fst (gc_mark st (rev roots) [] w) = fst (gc_mark st (rev roots) [] (w\<lparr>fault := \<lambda>_. None\<rparr>))"
  shows "{d. tracked st w roots d} \<subseteq> set (fst (gc_mark st (rev roots) [] w))"
proof -
  let ?q = "w\<lparr>fault := \<lambda>_. None\<rparr>"
  obtain live w1 where m: "gc_mark st (rev roots) [] ?q = (live, w1)" by fastforce
  have e: "ents ?q = ents w" "inos ?q = inos w" by simp_all
  have "quiet ?q" by (simp add: quiet_def)
  from gc_mark_between [OF m this] show ?thesis using assms m unfolding tracked_cong [OF e] by simp
qed

lemma doomed_antimono: "L' \<subseteq> L \<Longrightarrow> doomed st L t0 a w p \<Longrightarrow> doomed st L' t0 a w p"
  by (auto simp: doomed_def)

lemma swept_antimono: "L' \<subseteq> L \<Longrightarrow> swept st L t0 a w w' \<Longrightarrow> swept st L' t0 a w w'"
  using doomed_antimono unfolding swept_def by blast

lemma utf8_valid_ascii: "list_all (\<lambda>b. b \<le> 0x7F) bs \<Longrightarrow> utf8_valid bs"
  by (induction bs) auto

lemma HEX_ascii_all: "list_all (\<lambda>n. (of_char (HEX ! n) :: byte) \<le> 0x7F) [0..<16]"
  by code_simp

lemma hex_pair_ascii: "list_all (\<lambda>b. b \<le> 0x7F) (bytes_of (hex_pair b))"
  using HEX_ascii_all nibble_bounds [of b] by (auto simp: hex_pair_def bytes_of_def list_all_iff)

lemma to_hex_utf8: "hex_ok h \<Longrightarrow> utf8_valid (bytes_of (to_hex h d))"
proof -
  assume "hex_ok h"
  then have "bytes_of (to_hex h d) = concat (map (bytes_of \<circ> hex_pair) (as_bytes d))"
    by (simp add: hex_ok_def to_hex_def bytes_of_def map_concat comp_def)
  then show ?thesis using hex_pair_ascii by (intro utf8_valid_ascii) (auto simp: list_all_iff)
qed

text \<open>For the file of an object, to be doomed is to be unmarked and old enough.\<close>

lemma doomed_object:
  assumes "hex_ok (os_hex st)" "wf_digest d"
  shows "doomed st L t0 a w (object_path st d) \<longleftrightarrow>
    d \<notin> L \<and> (\<exists>i. ent w (object_path st d) = Some (DFile i) \<and> a \<le> t0 - ino_mtime (inos w i))"
  using digest_parse_to_hex [OF assms] to_hex_utf8 [OF assms(1)] by (auto simp: doomed_def object_path_def)

section \<open>A sweep without faults\<close>

lemma swept_gone: "swept st L t0 a w w' \<Longrightarrow> ent w p = None \<Longrightarrow> ent w' p = None"
  unfolding swept_def by metis

lemma swept_doomed: "swept st L t0 a w w' \<Longrightarrow> doomed st L t0 a w p \<Longrightarrow> ent w' p = None \<or> doomed st L t0 a w' p"
  unfolding swept_def doomed_def by metis

lemma swept_quiet: "swept st L t0 a w w' \<Longrightarrow> tick w \<le> tick w' \<Longrightarrow> quiet w \<Longrightarrow> quiet w'"
  by (simp add: swept_def quiet_def)

lemma swept_trans: "swept st L t0 a w w' \<Longrightarrow> swept st L t0 a w' w'' \<Longrightarrow> swept st L t0 a w w''"
proof -
  assume 1: "swept st L t0 a w w'" and 2: "swept st L t0 a w' w''"
  have "doomed st L t0 a w p" if "doomed st L t0 a w' p" for p
    using that 1 unfolding swept_def doomed_def by (metis option.distinct(1))
  then show ?thesis using 1 2 unfolding swept_def by metis
qed

lemma quiet_sys: "quiet w \<Longrightarrow> sys op w = op (w\<lparr>tick := Suc (tick w)\<rparr>)"
  by (simp add: syscall_def quiet_def Let_def)

text \<open>A fold of steps that each succeed, sweep and clear what they are in charge of clears all of it.\<close>

definition clears :: "'h ObjectStore \<Rightarrow> digest set \<Rightarrow> nat \<Rightarrow> nat \<Rightarrow> path set \<Rightarrow> (CasError, 's) prog \<Rightarrow> world \<Rightarrow> bool" where
  "clears st L t0 a P m w \<longleftrightarrow>
     (\<exists>s w'. m w = (Inr s, w') \<and> swept st L t0 a w w' \<and> tick w \<le> tick w' \<and> (\<forall>p \<in> P. doomed st L t0 a w p \<longrightarrow> ent w' p = None))"

lemma fold_prog_clears:
  assumes "\<And>x s w. x \<in> set xs \<Longrightarrow> wf_world w \<Longrightarrow> quiet w \<Longrightarrow> clears st L t0 a (P x) (f x s) w" "wf_world w" "quiet w"
  shows "clears st L t0 a (\<Union>x \<in> set xs. P x) (fold_prog f xs s) w"
  using assms
proof (induction xs arbitrary: s w)
  case Nil
  then show ?case by (simp add: clears_def ret_def swept_refl)
next
  case (Cons x xs)
  obtain s1 w1 where 1: "f x s w = (Inr s1, w1)" "swept st L t0 a w w1" "tick w \<le> tick w1"
      "\<forall>p \<in> P x. doomed st L t0 a w p \<longrightarrow> ent w1 p = None"
    using Cons.prems(1) [of x w s] Cons.prems(2,3) unfolding clears_def by auto
  have "wf_world w1" "quiet w1" using 1(2) swept_quiet [OF 1(2,3) Cons.prems(3)] by (auto simp: swept_def)
  then obtain s2 w2 where 2: "fold_prog f xs s1 w1 = (Inr s2, w2)" "swept st L t0 a w1 w2" "tick w1 \<le> tick w2"
      "\<forall>p \<in> (\<Union>x \<in> set xs. P x). doomed st L t0 a w1 p \<longrightarrow> ent w2 p = None"
    using Cons.IH [of w1 s1] Cons.prems(1) unfolding clears_def by auto
  have "ent w2 p = None" if "p \<in> P x \<or> p \<in> (\<Union>x \<in> set xs. P x)" "doomed st L t0 a w p" for p
  proof (cases "ent w1 p = None")
    case True
    then show ?thesis by (rule swept_gone [OF 2(2)])
  next
    case False
    then have "doomed st L t0 a w1 p" "p \<notin> P x" using that(2) 1(4) swept_doomed [OF 1(2), of p] by auto
    then show ?thesis using that(1) 2(4) by auto
  qed
  moreover have "fold_prog f (x # xs) s w = (Inr s2, w2)" using 1(1) 2(1) by (simp add: bnd_def try_with_def)
  ultimately show ?case using swept_trans [OF 1(2) 2(2)] 1(3) 2(3) unfolding clears_def by auto
qed
lemma quiet_calls:
  assumes "quiet w"
  shows "next_entry n w = (Inr n, w\<lparr>tick := Suc (tick w)\<rparr>)"
    "lstat p w = (case ent w p of None \<Rightarrow> Inl ENOENT | Some d \<Rightarrow> Inr d, w\<lparr>tick := Suc (tick w)\<rparr>)"
    "ent w p = Some (DFile i) \<Longrightarrow> fs_metadata p w = (Inr (inos w i), w\<lparr>tick := Suc (tick w)\<rparr>)"
    "ent w p = Some (DFile i) \<Longrightarrow> remove_file p w = (Inr (), del_ent p (w\<lparr>tick := Suc (tick w)\<rparr>))"
    "ent w p = Some DDir \<Longrightarrow> read_dir p w = (Inr (children w p), w\<lparr>tick := Suc (tick w)\<rparr>)"
  unfolding next_entry_def lstat_def fs_metadata_def remove_file_def read_dir_def quiet_sys [OF assms]
  by (simp_all add: ret_def file_at_def children_def)

lemma tick_del_ent [simp]: "tick (del_ent p w) = tick w"
  by (simp add: del_ent_def)

lemma quiet_metadata_fails:
  assumes "quiet w" "\<And>i. ent w p \<noteq> Some (DFile i)"
  obtains e where "fs_metadata p w = (Inl e, w\<lparr>tick := Suc (tick w)\<rparr>)"
proof -
  have "\<exists>e. file_at w p = Inl e" using assms(2) by (auto simp: file_at_def split: option.split dirent.split)
  moreover have "file_at (w\<lparr>tick := n\<rparr>) p = file_at w p" for n by (simp add: file_at_def)
  ultimately show thesis using that unfolding fs_metadata_def quiet_sys [OF assms(1)] by auto
qed

lemma gc_object_clears:
  assumes "wf_world w" "quiet w"
  shows "clears st (set live) t0 a {os_objects st @ [fan, name]} (gc_object st live t0 a (os_objects st @ [fan]) name s) w"
proof -  let ?p = "os_objects st @ [fan, name]"
  obtain r w' where run: "gc_object st live t0 a (os_objects st @ [fan]) name s w = (r, w')" by fastforce
  have sw: "swept st (set live) t0 a w w'" using gc_object_swept [OF swept_refl [OF assms(1)] run] .
  note exec = gc_object_def Let_def bnd_def try_with_def ret_def cas_io_def map_err_def quiet_calls doomed_def
  have "(\<exists>s'. r = Inr s') \<and> tick w \<le> tick w' \<and> (doomed st (set live) t0 a w ?p \<longrightarrow> ent w' ?p = None)"
  proof (cases "\<exists>i. ent w ?p = Some (DFile i)")
    case True
    then show ?thesis using run assms(2) by (auto simp: exec split: if_splits sum.splits)
  next
    case False
    then have "quiet (w\<lparr>tick := Suc (tick w)\<rparr>)" "\<And>i. ent (w\<lparr>tick := Suc (tick w)\<rparr>) ?p \<noteq> Some (DFile i)" using assms(2) by auto
    then obtain e where "fs_metadata ?p (w\<lparr>tick := Suc (tick w)\<rparr>) = (Inl e, w\<lparr>tick := Suc (Suc (tick w))\<rparr>)"
      by (rule quiet_metadata_fails) simp
    then show ?thesis using run assms(2) False by (auto simp: exec split: if_splits sum.splits)
  qed  then show ?thesis using run sw by (auto simp: clears_def)
qed

lemma gc_fan_clears:
  assumes "wf_world w" "quiet w"
  shows "clears st (set live) t0 a (range (\<lambda>name. os_objects st @ [fan, name])) (gc_fan st live t0 a fan s) w"
proof -
  let ?d = "os_objects st @ [fan]" and ?w1 = "w\<lparr>tick := Suc (Suc (tick w))\<rparr>"
  note exec = gc_fan_def Let_def bnd_def try_with_def ret_def cas_io_def map_err_def quiet_calls
  show ?thesis
  proof (cases "ent w ?d = Some DDir")
    case False
    have "ent w (os_objects st @ [fan, name]) = None" for name
      using False assms(1) unfolding wf_world_def by (metis append_assoc append_Cons append_Nil butlast_snoc snoc_eq_iff_butlast)
    moreover have "gc_fan st live t0 a fan s w = (Inr s, ?w1)"
      using False assms(2) by (auto simp: exec split: option.splits)
    ultimately show ?thesis using assms(1) by (auto simp: clears_def swept_refl swept_tick)
  next
    case True
    let ?w2 = "w\<lparr>tick := Suc (Suc (Suc (tick w)))\<rparr>"
    have run: "gc_fan st live t0 a fan s w = fold_prog (gc_object st live t0 a ?d) (children w ?d) s ?w2"
      using True assms(2) by (simp add: exec children_def)
    have w2: "wf_world ?w2" "quiet ?w2" using assms by (auto simp: wf_world_def)
    have "clears st (set live) t0 a (\<Union>x \<in> set (children w ?d). {os_objects st @ [fan, x]})
        (fold_prog (gc_object st live t0 a ?d) (children w ?d) s) ?w2"
      by (rule fold_prog_clears [OF gc_object_clears w2])
    then show ?thesis using set_children(1) [OF assms(1), of ?d] swept_gone
      unfolding clears_def run swept_from_tick doomed_tick by fastforce  qed
qed

text \<open>The whole sweep removes exactly the doomed files.\<close>

lemma gc_sweep_exact:
  assumes "wf_world w" "quiet w" "ent w (os_objects st) = Some DDir"
  shows "\<exists>s w'. gc_sweep st live t0 a w = (Inr s, w') \<and> inos w' = inos w \<and>
    (\<forall>p. ent w' p = (if doomed st (set live) t0 a w p then None else ent w p))"
proof -
  let ?w2 = "w\<lparr>tick := Suc (tick w)\<rparr>" and ?fans = "children w (os_objects st)"
  let ?s0 = "\<lparr>gs_live = of_nat (length live), gs_deleted = 0, gs_bytes_freed = 0, gs_spared_young = 0\<rparr>"
  let ?sweep = "fold_prog (gc_fan st live t0 a) ?fans ?s0"
  have run: "gc_sweep st live t0 a w = ?sweep ?w2"
    using assms(2,3) by (simp add: gc_sweep_def bnd_def try_with_def cas_io_def map_err_def ret_def quiet_calls)
  have w2: "wf_world ?w2" "quiet ?w2" using assms by (auto simp: wf_world_def)
  have "clears st (set live) t0 a (\<Union>x \<in> set ?fans. range (\<lambda>name. os_objects st @ [x, name])) ?sweep ?w2"
    by (rule fold_prog_clears [OF gc_fan_clears w2])
  then obtain s w' where s: "?sweep ?w2 = (Inr s, w')" "swept st (set live) t0 a w w'"
    and clr: "\<forall>p \<in> (\<Union>x \<in> set ?fans. range (\<lambda>name. os_objects st @ [x, name])). doomed st (set live) t0 a w p \<longrightarrow> ent w' p = None"
    unfolding clears_def swept_from_tick doomed_tick by (elim exE conjE) rule
  have "ent w' p = None" if "doomed st (set live) t0 a w p" for p
  proof -
    from that obtain fan name where p: "p = os_objects st @ [fan, name]" "ent w p \<noteq> None" by (auto simp: doomed_def)
    have "p \<noteq> []" "butlast p = os_objects st @ [fan]" by (simp_all add: p(1) butlast_append)
    then have "ent w (os_objects st @ [fan]) = Some DDir" using assms(1) p(2) unfolding wf_world_def by metis
    then have "fan \<in> set ?fans" using set_children(1) [OF assms(1)] by simp
    then have "p \<in> (\<Union>x \<in> set ?fans. range (\<lambda>name. os_objects st @ [x, name]))" unfolding p(1) by auto
    from bspec [OF clr this] that show ?thesis by simp
  qed
  then have "ent w' p = (if doomed st (set live) t0 a w p then None else ent w p)" for p
    using s(2) unfolding swept_def by metis
  then show ?thesis using run s(1,2) unfolding swept_def by auto
qed

lemma gc_exact_live:
  assumes "wf_world w" "gc_mark st (rev roots) [] w = (live, w\<lparr>tick := n\<rparr>)" "quiet (w\<lparr>tick := n\<rparr>)" "ent w (os_objects st) = Some DDir"
  shows "\<exists>s w'. gc st roots a w = (Inr s, w') \<and> inos w' = inos w \<and>
    (\<forall>p. ent w' p = (if doomed st (set live) (now w) a w p then None else ent w p))"
proof -
  have "wf_world (w\<lparr>tick := n\<rparr>)" "ent (w\<lparr>tick := n\<rparr>) (os_objects st) = Some DDir" using assms(1,4) by (auto simp: wf_world_def)
  then obtain s w' where "gc_sweep st live (now w) a (w\<lparr>tick := n\<rparr>) = (Inr s, w')" "inos w' = inos w"
      "\<forall>p. ent w' p = (if doomed st (set live) (now w) a w p then None else ent (w\<lparr>tick := n\<rparr>) p)"
    using gc_sweep_exact [of "w\<lparr>tick := n\<rparr>" st live "now w" a] assms(3) unfolding doomed_tick by auto
  moreover have "gc st roots a w = gc_sweep st live (now w) a (w\<lparr>tick := n\<rparr>)" using assms(2) by (simp add: gc_def)
  ultimately show ?thesis by simp
qed

lemma gc_exact_quiet:
  assumes "wf_world w" "quiet w" "blobs_opaque st w roots" "ent w (os_objects st) = Some DDir"
  shows "\<exists>s w'. gc st roots min_age w = (Inr s, w') \<and> inos w' = inos w \<and>
    (\<forall>p. ent w' p = (if doomed st {d. reachable st w roots d} (now w) min_age w p then None else ent w p))"
proof -
  obtain live w1 where m: "gc_mark st (rev roots) [] w = (live, w1)" by fastforce
  obtain n where n: "w1 = w\<lparr>tick := n\<rparr>" "tick w \<le> n" using gc_mark_tick [OF m] by blast
  show ?thesis
    using gc_exact_live [OF assms(1) m [unfolded n(1)] quiet_tick [OF assms(2) n(2)] assms(4)]
    unfolding gc_mark_reachable [OF m assms(2,3)] .
qed

section \<open>Properties\<close>

lemma gc_exact_marks:
  assumes "wf_world w" "quiet w" "ent w (os_objects st) = Some DDir"
  shows "\<exists>s w' L. gc st roots min_age w = (Inr s, w') \<and> inos w' = inos w \<and>
    {d. tracked st w roots d} \<subseteq> L \<and> L \<subseteq> {d. reachable st w roots d} \<and>
    (\<forall>p. ent w' p = (if doomed st L (now w) min_age w p then None else ent w p))"
proof -
  obtain live w1 where m: "gc_mark st (rev roots) [] w = (live, w1)" by fastforce
  obtain n where n: "w1 = w\<lparr>tick := n\<rparr>" "tick w \<le> n" using gc_mark_tick [OF m] by blast
  from gc_exact_live [OF assms(1) m [unfolded n(1)] quiet_tick [OF assms(2) n(2)] assms(3)] gc_mark_between [OF m assms(2)]
  show ?thesis by metis
qed

section \<open>Properties\<close>

text \<open>C8: A collection keeps what is in use. If the marking met no failing read, then whatever fails in the
  sweep, every object that the roots reach, through stored manifests that no manifest in reach also names as the contents of
  a file, is still there with its contents; no file is changed; and all that may be missing is digest-named files
  of the store that are not so reached and are at least as old as the minimum age. When no manifest in reach names a
  stored manifest as a file, these are all the reachable objects.\<close>

theorem gc_keeps_reachable:
  assumes "wf_world w" "hex_ok (os_hex st)"
    "fst (gc_mark st (rev roots) [] w) = fst (gc_mark st (rev roots) [] (w\<lparr>fault := \<lambda>_. None\<rparr>))"
    "gc st roots min_age w = (r, w')"
  shows "(\<forall>d. tracked st w roots d \<longrightarrow> wf_digest d \<longrightarrow> content w' (object_path st d) = content w (object_path st d)) \<and>
    inos w' = inos w \<and>
    (\<forall>p. ent w' p = ent w p \<or> ent w' p = None \<and> doomed st {d. tracked st w roots d} (now w) min_age w p) \<and>
    (blobs_opaque st w roots \<longrightarrow> {d. tracked st w roots d} = {d. reachable st w roots d})"
proof -
  have s: "swept st {d. tracked st w roots d} (now w) min_age w w'"
    using gc_swept [OF assms(1,4)] marks_quiet [OF assms(3)] by (metis swept_antimono)
  have "content w' (object_path st d) = content w (object_path st d)" if "tracked st w roots d" "wf_digest d" for d
  proof -
    have "ent w' (object_path st d) = ent w (object_path st d)" "inos w' = inos w"
      using s doomed_object [OF assms(2) that(2), of "{d. tracked st w roots d}"] that(1)
      unfolding swept_def by auto
    then show ?thesis by (simp add: content_def split: option.split dirent.split)
  qed
  moreover have "{d. tracked st w roots d} = {d. reachable st w roots d}" if "blobs_opaque st w roots"
    using blobs_opaque_tracked [OF that] by blast
  ultimately show ?thesis using s by (simp add: swept_def)
qed

text \<open>C9: Without faults a collection succeeds, touches no contents, and removes precisely the digest-named files of the
  store that are not marked and are at least as old as the minimum age. Marked is nothing that no root reaches, and
  everything the roots reach through manifests that no manifest in reach also names as the contents of a file. When no manifest
  in reach names a stored manifest as a file, the collection is exact: it marks what the roots reach.\<close>

theorem gc_is_exact:
  assumes "wf_world w" "quiet w" "ent w (os_objects st) = Some DDir"
  shows "\<exists>s w' L. gc st roots min_age w = (Inr s, w') \<and> inos w' = inos w \<and>
    {d. tracked st w roots d} \<subseteq> L \<and> L \<subseteq> {d. reachable st w roots d} \<and>
    (\<forall>p. ent w' p = (if doomed st L (now w) min_age w p then None else ent w p)) \<and>
    (blobs_opaque st w roots \<longrightarrow> L = {d. reachable st w roots d})"
proof -
  have "{d. reachable st w roots d} = {d. tracked st w roots d}" if "blobs_opaque st w roots"
    using blobs_opaque_tracked [OF that] by blast
  then show ?thesis using gc_exact_marks [OF assms, of roots min_age] by (metis subset_antisym)
qed

text \<open>C12: A manifest named as a file is not expanded. The mark loop marks the digests of files without looking under them, and a
  marked digest is not expanded again. If the manifest at the root names stored manifests as files, each of its directories among
  them, then a collection without faults succeeds and deletes the files that only those manifests reach.\<close>

theorem gc_expands_no_file:
  assumes "wf_world w" "quiet w" "ent w (os_objects st) = Some DDir" "hex_ok (os_hex st)"
    and T: "stored_tree st w r T" "set (subtree_digests T) \<subseteq> set (blob_digests T)"
    and u: "s \<in> set (blob_digests T)" "stored_tree st w s u"
    and e: "e \<in> tree_refs u" "e \<notin> insert r (set (blob_digests T))" "wf_digest e"
      "ent w (object_path st e) = Some (DFile i)" "min_age \<le> now w - ino_mtime (inos w i)"
  shows "reachable st w [r] e \<and> (\<exists>stats w'. gc st [r] min_age w = (Inr stats, w') \<and> ent w' (object_path st e) = None)"
proof
  have "reachable st w [r] s" by (rule child [OF root T(1)]) (use u in \<open>auto simp: tree_refs_def\<close>)
  from child [OF this u(2) e(1)] show "reachable st w [r] e" .
next
  let ?n = "Suc (tick w)"
  obtain pushes live where m: "mark_tree T [r] = (pushes, live)" by fastforce
  note L = mark_tree_live [OF m]
  have "set (subtree_digests T) \<subseteq> set live" using T(2) unfolding conjunct1 [OF L] by (rule le_supI1)
  then have "pushes = []" using conjunct2 [OF L] by (metis Diff_eq_empty_iff set_empty)
  then have g: "gc_mark st (rev [r]) [] w = (live, w\<lparr>tick := ?n\<rparr>)" using m get_tree_quiet [OF assms(2) T(1)] by simp
  have "e \<notin> set live" using L e(2) by auto
  then have "doomed st (set live) (now w) min_age w (object_path st e)"
    using e(4,5) by (simp add: doomed_object [OF assms(4) e(3)])
  then show "\<exists>stats w'. gc st [r] min_age w = (Inr stats, w') \<and> ent w' (object_path st e) = None"
    using gc_exact_live [OF assms(1) g quiet_tick [OF assms(2)] assms(3), of min_age] by auto
qed

text \<open>C38: One failing read while marking loses a whole tree. The mark loop takes an error of \<open>get_tree\<close> for a
  leaf: if the read of the manifest of the only root fails, the collection succeeds and deletes every other
  object of the store that is old enough, whatever the manifest reaches.\<close>

theorem gc_read_error_loses_objects:
  assumes "wf_world w" "ent w (os_objects st) = Some DDir"
    "fault w (tick w) = Some (e, k)" "\<forall>n > tick w. fault w n = None"
  shows "\<exists>s w'. gc st [d] min_age w = (Inr s, w') \<and>
    (\<forall>p. ent w' p = (if doomed st {d} (now w) min_age w p then None else ent w p))"
proof -
  let ?n = "Suc (tick w)"
  have "\<exists>x. get_tree st d w = (Inl x, w\<lparr>tick := ?n\<rparr>)"
    using assms(3) by (simp add: get_tree_def get_bytes_def fs_read_def syscall_def bnd_def try_with_def throw_def Let_def)
  then have "gc_mark st (rev [d]) [] w = ([d], w\<lparr>tick := ?n\<rparr>)" by auto
  moreover have "quiet (w\<lparr>tick := ?n\<rparr>)" using assms(4) by (simp add: quiet_def)
  ultimately show ?thesis using gc_exact_live [OF assms(1) _ _ assms(2), of "[d]" "[d]" ?n min_age] by auto
qed

section \<open>Witnesses\<close>

text \<open>A store with a file and a manifest that names it.\<close>

definition example_manifest :: Tree where
  "example_manifest = [(EntryName ''a'', NodeFile (blob_digest blake3_ref [104, 105]) 2 False)]"

definition example_gc_world :: world where
  "example_gc_world = snd (put_tree example_store example_manifest (snd (put_bytes example_store [104, 105] example_src_world)))"

abbreviation example_root :: digest where
  "example_root \<equiv> tree_digest blake3_ref example_manifest"

abbreviation example_blob :: digest where
  "example_blob \<equiv> blob_digest blake3_ref [104, 105]"

lemma example_gc_inv: "store_inv example_store example_gc_world" "evolves example_store example_src_world example_gc_world"
proof -
  obtain r1 w1 where 1: "put_bytes example_store [104, 105] example_src_world = (r1, w1)" by fastforce
  obtain r2 w2 where 2: "put_tree example_store example_manifest w1 = (r2, w2)" by fastforce
  have w: "example_gc_world = w2" by (simp add: example_gc_world_def 1 2)
  note p1 = put_bytes_run [OF example_store_ok 1]
  have i1: "store_inv example_store w1" using p1 by blast
  note p2 = put_tree_run [OF example_store_ok(1) i1 2]
  show "store_inv example_store example_gc_world" using p2 w by blast
  show "evolves example_store example_src_world example_gc_world" using p1 p2 evolves_trans w by metis
qed

definition example_check :: "world \<Rightarrow> bool" where
  "example_check w \<longleftrightarrow>
     list_all (\<lambda>bs. bs = [104, 105] \<or> bs = tree_encode example_manifest) (file_contents w) \<and>
     content w (object_path example_store example_root) = Some (tree_encode example_manifest) \<and>
     content w (object_path example_store example_blob) = Some [104, 105]"

lemma example_checked: "example_check example_gc_world"
  by code_simp
lemma example_gc_decodes:
  "\<not> is_ok (tree_decode [104, 105])" "example_root \<noteq> example_blob"
  "tree_decode (tree_encode example_manifest) = Inr example_manifest"
  by code_simp+

lemma example_gc_facts:
  "os_b3 example_store = blake3_ref" "hex_ok (os_hex example_store)" "wf_world example_gc_world"
  "ent example_gc_world (os_objects example_store) = Some DDir" "fault example_gc_world = (\<lambda>_. None)"
proof -
  show "os_b3 example_store = blake3_ref" by (simp add: example_store_def)
  show "hex_ok (os_hex example_store)" using example_store_ok(1) by (simp add: store_wf_def)
  show "wf_world example_gc_world" "ent example_gc_world (os_objects example_store) = Some DDir"
    using example_gc_inv(1) by (simp_all add: store_inv_def)
  have "fault example_gc_world = fault example_src_world" using example_gc_inv(2) by (simp add: evolves_def)
  then show "fault example_gc_world = (\<lambda>_. None)" by (simp add: example_src_world_def)
qed

lemma example_wf: "wf_digest example_blob" "wf_digest example_root"
  using wf_object_digests [OF example_store_ok(1)] by (simp_all add: example_gc_facts(1))

lemma example_stored: "stored_tree example_store example_gc_world d t \<longleftrightarrow> d = example_root \<and> t = example_manifest"
proof
  assume "stored_tree example_store example_gc_world d t"
  then obtain bs where bs: "content example_gc_world (object_path example_store d) = Some bs" "tree_decode bs = Inr t"
    "tree_digest blake3_ref t = d"
    by (auto simp: stored_tree_def example_gc_facts(1))
  have "bs \<in> set (file_contents example_gc_world)"
    using stored_bytes_files [OF example_store_ok(1)] bs(1,3) wf_object_digests(2) [OF example_store_ok(1), of t]
    by (auto simp: stored_bytes_def example_gc_facts(1))
  then have "bs = [104, 105] \<or> bs = tree_encode example_manifest"
    using example_checked unfolding example_check_def list_all_iff by blast
  then show "d = example_root \<and> t = example_manifest" using bs(2,3) example_gc_decodes by auto
qed (use example_checked in \<open>simp add: stored_tree_def example_check_def example_gc_decodes example_gc_facts\<close>)

lemma example_manifest_refs: "blob_digests example_manifest = [example_blob]" "tree_refs example_manifest = {example_blob}"
  by (auto simp: tree_refs_def blob_digests_def subtree_digests_def example_manifest_def)

lemma example_reachable: "reachable example_store example_gc_world [example_root] example_blob"
  by (rule child [OF root, where t = example_manifest]) (simp_all add: example_stored example_manifest_refs)

lemma example_opaque: "blobs_opaque example_store example_gc_world roots"
  using example_gc_decodes(2) by (auto simp: blobs_opaque_def example_stored example_manifest_refs)

lemma example_blob_file: "\<exists>i. ent example_gc_world (object_path example_store example_blob) = Some (DFile i)"
  using example_checked by (auto simp: example_check_def content_Some)

theorem gc_keeps_reachable_witness:
  "\<exists>r w'. gc example_store [example_root] 0 example_gc_world = (r, w') \<and>
    content w' (object_path example_store example_blob) = Some [104, 105]"
proof -
  obtain r w' where run: "gc example_store [example_root] 0 example_gc_world = (r, w')" by fastforce
  have "example_gc_world\<lparr>fault := \<lambda>_. None\<rparr> = example_gc_world"
    using example_gc_facts(5) by (cases example_gc_world) simp
  then have "fst (gc_mark example_store (rev [example_root]) [] example_gc_world) =
    fst (gc_mark example_store (rev [example_root]) [] (example_gc_world\<lparr>fault := \<lambda>_. None\<rparr>))" by simp
  note K = gc_keeps_reachable [OF example_gc_facts(3,2) this run]
  show ?thesis using K run example_reachable example_opaque example_wf(1) example_checked by (fastforce simp: example_check_def)
qed

theorem gc_is_exact_witness:
  "\<exists>s w'. gc example_store [] 0 example_gc_world = (Inr s, w') \<and> ent w' (object_path example_store example_blob) = None"
proof -
  have q: "quiet example_gc_world" by (simp add: quiet_def example_gc_facts)
  have "\<not> reachable example_store example_gc_world [] d" for d
  proof
    assume "reachable example_store example_gc_world [] d" then show False by induction auto
  qed
  then have "doomed example_store {d. reachable example_store example_gc_world [] d} (now example_gc_world) 0 example_gc_world
      (object_path example_store example_blob)"
    using example_blob_file by (simp add: doomed_object example_gc_facts example_wf)
  then show ?thesis using gc_is_exact [OF example_gc_facts(3) q example_gc_facts(4), of "[]" 0] example_opaque by auto
qed

theorem gc_read_error_loses_objects_witness:
  "\<exists>w s w'. stored_tree example_store w example_root example_manifest \<and> example_blob \<in> tree_refs example_manifest \<and>
    ent w (object_path example_store example_blob) \<noteq> None \<and>
    gc example_store [example_root] 0 w = (Inr s, w') \<and> ent w' (object_path example_store example_blob) = None"
proof -
  let ?w = "example_gc_world\<lparr>fault := \<lambda>n. if n = tick example_gc_world then Some (EIO, 0) else None\<rparr>"
  have e: "ent ?w p = ent example_gc_world p" for p by (simp add: ent_def)
  then have "wf_world ?w" using example_gc_facts(3) by (simp add: wf_world_def)
  moreover note e
  ultimately obtain s w' where g: "gc example_store [example_root] 0 ?w = (Inr s, w')"
      "\<And>p. ent w' p = (if doomed example_store {example_root} (now ?w) 0 ?w p then None else ent ?w p)"
    using gc_read_error_loses_objects [of ?w example_store EIO 0 example_root 0] example_gc_facts(4) by auto
  have "doomed example_store {example_root} (now ?w) 0 ?w (object_path example_store example_blob)"
    using example_blob_file example_gc_decodes(2) by (auto simp: doomed_object example_gc_facts example_wf e)
  then have "ent w' (object_path example_store example_blob) = None" using g(2) by simp
  moreover have "stored_tree example_store ?w example_root example_manifest"
    using example_stored by (subst stored_tree_cong [of _ example_gc_world]) simp_all
  moreover have "ent ?w (object_path example_store example_blob) \<noteq> None" using example_blob_file e by auto
  ultimately show ?thesis using g(1) example_manifest_refs by blast
qed

text \<open>A manifest that names the manifest of the example both as a file and as a directory.\<close>

definition example_alias :: Tree where
  "example_alias = [(EntryName ''d'', NodeDir example_root), (EntryName ''f'', NodeFile example_root 3 False)]"

definition example_alias_world :: world where
  "example_alias_world = snd (put_tree example_store example_alias example_gc_world)"

lemma example_alias_inv: "store_inv example_store example_alias_world" "evolves example_store example_gc_world example_alias_world"
proof -
  obtain r w where run: "put_tree example_store example_alias example_gc_world = (r, w)" by fastforce
  have w: "example_alias_world = w" by (simp add: example_alias_world_def run)
  from put_tree_run [OF example_store_ok(1) example_gc_inv(1) run]
  show "store_inv example_store example_alias_world" "evolves example_store example_gc_world example_alias_world"
    unfolding w by blast+
qed

lemma example_alias_contents:
  "content example_alias_world (object_path example_store (tree_digest blake3_ref example_alias)) = Some (tree_encode example_alias) \<and>
   content example_alias_world (object_path example_store example_root) = Some (tree_encode example_manifest) \<and>
   content example_alias_world (object_path example_store example_blob) = Some [104, 105] \<and>
   tree_decode (tree_encode example_alias) = Inr example_alias \<and>
   example_blob \<notin> {tree_digest blake3_ref example_alias, example_root}"
  by code_simp

theorem gc_expands_no_file_witness:
  "reachable example_store example_alias_world [tree_digest blake3_ref example_alias] example_blob \<and>
   (\<exists>stats w'. gc example_store [tree_digest blake3_ref example_alias] 0 example_alias_world = (Inr stats, w') \<and>
      ent w' (object_path example_store example_blob) = None)"
proof -
  let ?w = example_alias_world
  have w: "wf_world ?w" "ent ?w (os_objects example_store) = Some DDir" "quiet ?w"
    using example_alias_inv by (simp_all add: store_inv_def evolves_def quiet_def example_gc_facts)
  have s: "stored_tree example_store ?w (tree_digest blake3_ref example_alias) example_alias"
    "stored_tree example_store ?w example_root example_manifest"
    using example_alias_contents example_gc_decodes(3) by (auto simp: stored_tree_def example_gc_facts)
  have d: "blob_digests example_alias = [example_root]" "subtree_digests example_alias = [example_root]"
    by (simp_all add: blob_digests_def subtree_digests_def example_alias_def)
  obtain i where "ent ?w (object_path example_store example_blob) = Some (DFile i)"
    using example_alias_contents by (auto simp: content_Some)
  then show ?thesis
    using gc_expands_no_file [OF w(1,3,2) example_gc_facts(2) s(1) _ _ s(2), of example_blob i 0]
      example_alias_contents by (simp add: d example_manifest_refs example_wf)
qed

end
