(* ===== verification/Jet_Retention.thy ===== *)
theory Jet_Retention
  imports Jet_Gc
begin

text \<open>
  Insertion and collection together (\<open>put_bytes\<close> and \<open>gc\<close> of \<open>crates/jet-cas/src/store.rs\<close>): what
  the minimum age protects. The time a file was last written is followed through an insertion; an
  insertion that finds its object already there writes nothing.
\<close>

section \<open>When an object was written\<close>

definition written_at :: "world \<Rightarrow> path \<Rightarrow> nat \<Rightarrow> bool" where
  "written_at w p t \<longleftrightarrow> (\<exists>i. ent w p = Some (DFile i) \<and> ino_mtime (inos w i) = t)"

lemma written_at_tick [simp]: "written_at (w\<lparr>tick := n\<rparr>) p t = written_at w p t"
  by (simp add: written_at_def)

lemma write_all_stamps:
  "write_all f bs w = (Inr (), w') \<Longrightarrow> ent w p = Some (DFile f) \<Longrightarrow> written_at w' p (now w)"
  by (auto simp: write_all_def syscall_def append_data_def written_at_def Let_def split: option.splits prod.splits)

lemma set_permissions_mtime:
  "set_permissions q m w = (r, w') \<Longrightarrow> written_at w p t \<Longrightarrow> written_at w' p t"
  by (auto simp: set_permissions_def syscall_def throw_def written_at_def Let_def
      split: option.splits prod.splits sum.splits)

lemma commit_object_stamps:
  assumes "store_wf st" "wf_world w" "written_at w (staging_path st d) t"
    "commit_object st d (staging_path st d) w = (Inr (), w')"
  shows "written_at w' (object_path st d) t"
proof -
  let ?s = "staging_path st d" and ?o = "object_path st d"
  obtain q w1 where q: "rename ?s ?o w = (q, w1)" and
    rest: "(case q of
        Inl e \<Rightarrow> bnd (ignore (remove_file ?s)) (\<lambda>_. throw (CasIo ''commit object'' ?o e))
      | Inr _ \<Rightarrow> if os_durability st = Synced then
          try_with (open_dir (butlast ?o)) (\<lambda>dir. case dir of Inl _ \<Rightarrow> ret () | Inr _ \<Rightarrow> ignore (sync_all 0))
        else ret ()) w1 = (Inr (), w')"
    using assms(4) [unfolded commit_object_def Let_def] by (rule try_withE)
  note rn = rename_run [OF assms(2) store_paths(1) [OF assms(1)] q]
  show ?thesis
  proof (cases q)
    case (Inl e)
    then show ?thesis using rest by (auto simp: throw_def ignore_def ret_def elim!: bndE try_withE)
  next
    case (Inr u)
    obtain k where "w' = w1\<lparr>tick := k\<rparr>" using sync_parent_looks [OF rest [unfolded Inr sum.case]] by blast
    then show ?thesis using rn Inr assms(3) by (auto simp: written_at_def)
  qed
qed

lemma seal_and_commit_stamps:
  assumes "store_wf st" "wf_digest d" "store_inv st w" "written_at w (staging_path st d) t"
    "seal_and_commit st d (staging_path st d) w = (Inr (), w')"
  shows "written_at w' (object_path st d) t"
proof -
  let ?s = "staging_path st d" and ?f = "butlast (object_path st d)"
  obtain x w1 y w2 z w3 where run: "fs_metadata ?s w = (Inr x, w1)" "set_permissions ?s OBJECT_MODE w1 = (Inr y, w2)"
    "create_dir_all ?f w2 = (Inr z, w3)" "commit_object st d ?s w3 = (Inr (), w')"
    using assms(5) unfolding seal_and_commit_def Let_def by (auto elim!: bndE cas_ioE)
  have w1: "store_inv st w1" "written_at w1 ?s t" using run(1) assms(3,4) by (auto elim!: looksE [OF _ looks_calls(5)])
  have "staging_step st d w1 w2" by (rule set_permissions_staging [OF store_inv_wf [OF w1(1)] assms(1) run(2)])
  then have w2: "store_inv st w2" "written_at w2 ?s t"
    using staging_step_store_inv [OF assms(1,2) w1(1)] set_permissions_mtime [OF run(2) w1(2)] by blast+
  note c = create_fanout_staging [OF assms(1) w2(1) run(3)]
  then have "store_inv st w3" "written_at w3 ?s t"
    using staging_step_store_inv [OF assms(1,2) w2(1)] w2(2) by (auto simp: written_at_def)
  then show ?thesis using commit_object_stamps [OF assms(1) store_inv_wf] run(4) by blast
qed

lemma put_bytes_stamps:
  assumes "store_wf st" "store_inv st w" "put_bytes st bs w = (Inr d, w')" "ent w (object_path st d) = None"
  shows "written_at w' (object_path st d) (now w)"
proof -
  have d: "d = blob_digest (os_b3 st) bs" using put_bytes_run [OF assms(1-3)] by blast
  have wd: "wf_digest d" using assms(1) d by simp
  let ?s = "staging_path st d"
  obtain n where ins: "insert_staged st d (\<lambda>f. write_all f bs) (w\<lparr>tick := n\<rparr>) = (Inr (), w')"
    using assms(3,4) d unfolding put_bytes_def Let_def
    by (auto simp: ret_def split: if_splits elim!: bndE has_run)
  let ?w = "w\<lparr>tick := n\<rparr>"
  have "\<exists>f w1 w2 w3. open_truncate ?s ?w = (Inr f, w1) \<and> write_all f bs w1 = (Inr (), w2) \<and>
    (w3 = w2 \<or> (\<exists>k. w3 = w2\<lparr>tick := k\<rparr>)) \<and> seal_and_commit st d ?s w3 = (Inr (), w')"
    using ins unfolding insert_staged_def Let_def
    by (auto simp: ret_def split: if_splits elim!: bndE cas_ioE looksE [OF _ looks_calls(6)]) blast+
  then obtain f w1 w2 w3 where run: "open_truncate ?s ?w = (Inr f, w1)" "write_all f bs w1 = (Inr (), w2)"
    "w3 = w2 \<or> (\<exists>k. w3 = w2\<lparr>tick := k\<rparr>)" "seal_and_commit st d ?s w3 = (Inr (), w')" by blast
  have wf: "wf_world ?w" and inv: "store_inv st ?w" using assms(2) store_inv_wf by auto
  have f: "ent w1 ?s = Some (DFile f)" "ino_data (inos w1 f) = []" "wf_world w1"
    using open_truncate_run [OF wf run(1)] by auto
  have s1: "staging_step st d ?w w1" by (rule open_truncate_staging [OF wf assms(1) run(1)])
  have "staging_step st d w1 w2"
    using write_all_writes [OF f(3,2) run(2)] frame_writes_staging [OF _ _ f(1) assms(1)] by blast
  then have "store_inv st w2"
    using staging_step_store_inv [OF assms(1) wd] staging_step_trans [OF s1] inv by blast
  moreover have "written_at w2 ?s (now w)"
    using write_all_stamps [OF run(2) f(1)] s1 by (simp add: staging_step_def)
  ultimately show ?thesis using seal_and_commit_stamps [OF assms(1) wd _ _ run(4)] run(3) by auto
qed

section \<open>Properties\<close>

text \<open>C10: The minimum age protects what an insertion wrote: an object that was not in the store before is there, with
  its bytes, after any collection less than the minimum age later, whatever the roots and whatever call fails.\<close>

theorem gc_spares_new_objects:
  assumes "store_wf st" "store_inv st w" "ent w (object_path st d) = None" "put_bytes st bs w = (Inr d, w1)"
    "t - now w < min_age" "gc st roots min_age (w1\<lparr>now := t\<rparr>) = (r, w2)"
  shows "content w2 (object_path st d) = Some bs"
proof -
  let ?w = "w1\<lparr>now := t\<rparr>"
  note P = put_bytes_run [OF assms(1,2,4)]
  have e: "ent ?w p = ent w1 p" for p by (simp add: ent_def)
  have wf: "wf_world ?w" using P store_inv_wf [of st w1] e by (auto simp: wf_world_def)
  note S = gc_swept [OF wf assms(6)]
  have "\<not> doomed st L t min_age ?w (object_path st d)" for L
    using put_bytes_stamps [OF assms(1,2,4,3)] assms(1,5) P
    by (auto simp: doomed_object store_wf_def written_at_def e)
  then have "ent w2 (object_path st d) = ent w1 (object_path st d)" "inos w2 = inos w1"
    using S e unfolding swept_def by auto
  moreover have "content w1 (object_path st d) = Some bs" using P assms(3) by blast
  ultimately show ?thesis by (simp add: content_def cong: option.case_cong dirent.case_cong)
qed

text \<open>C11: It does not protect what an insertion found: when the object is already there, unreachable and as old as the
  minimum age, the insertion reports success without touching the file, and the next collection,
  at the same instant and with no call failing, deletes it.\<close>

theorem gc_takes_reused_objects:
  assumes "store_wf st" "store_inv st w" "quiet w" "blobs_opaque st w roots"
    "d = blob_digest (os_b3 st) bs" "ent w (object_path st d) = Some (DFile i)" "\<not> reachable st w roots d"
    "min_age \<le> now w - ino_mtime (inos w i)"
  shows "\<exists>w1 s w2. put_bytes st bs w = (Inr d, w1) \<and> gc st roots min_age w1 = (Inr s, w2) \<and>
    ent w2 (object_path st d) = None"
proof -
  let ?w = "w\<lparr>tick := Suc (tick w)\<rparr>"
  have "has st d w = (Inr True, ?w)"
    using assms(3,6) by (simp add: has_def exists_path_def try_with_def syscall_def quiet_def is_ok_def ret_def Let_def)
  then have p: "put_bytes st bs w = (Inr d, ?w)"
    using assms(5) by (simp add: put_bytes_def bnd_def try_with_def ret_def Let_def)
  have q: "quiet ?w" using assms(3) by (simp add: quiet_def)
  have c: "ents ?w = ents w" "inos ?w = inos w" by simp_all
  have "wf_world ?w" "ent ?w (os_objects st) = Some DDir" using assms(2) by (simp_all add: store_inv_def)
  moreover have "blobs_opaque st ?w roots" using assms(4) unfolding blobs_opaque_cong [OF c] .
  ultimately obtain s w2 where g: "gc st roots min_age ?w = (Inr s, w2)"
    "\<And>p. ent w2 p = (if doomed st {e. reachable st ?w roots e} (now ?w) min_age ?w p then None else ent ?w p)"
    using gc_exact_quiet [OF _ q] by blast
  have "doomed st {e. reachable st ?w roots e} (now ?w) min_age ?w (object_path st d)"
    using assms(1,5-8) unfolding reachable_cong [OF c] by (auto simp: doomed_object store_wf_def)
  then show ?thesis using p g by auto
qed

section \<open>Witnesses\<close>

lemma example_put_hi: "is_ok (fst (put_bytes example_store [104, 105] example_src_world))"
  by code_simp

lemma example_put_run:
  obtains w1 where "put_bytes example_store [104, 105] example_src_world = (Inr example_blob, w1)"
    "ent example_src_world (object_path example_store example_blob) = None" "store_inv example_store w1"
    "fault w1 = (\<lambda>_. None)" "written_at w1 (object_path example_store example_blob) 9"
proof -
  obtain d w1 where p: "put_bytes example_store [104, 105] example_src_world = (Inr d, w1)"
    using example_put_hi by (metis is_ok_iff prod.collapse)
  note P = put_bytes_run [OF example_store_ok p]
  have d: "d = example_blob" using P by (simp add: example_gc_facts(1))
  have e: "ent example_src_world (object_path example_store example_blob) = None"
    by (auto simp: ent_def object_path_def example_store_def example_src_world_def)
  have "fault w1 = fault example_src_world" using P by (simp add: evolves_def)
  moreover have "written_at w1 (object_path example_store example_blob) 9"
    using put_bytes_stamps [OF example_store_ok p] d e by (simp add: example_src_world_def)
  ultimately show thesis using that p d e P by (simp add: example_src_world_def)
qed

theorem gc_spares_new_objects_witness:
  "\<exists>w1 r w2. put_bytes example_store [104, 105] example_src_world = (Inr example_blob, w1) \<and>
     gc example_store [] 60 (w1\<lparr>now := 50\<rparr>) = (r, w2) \<and> content w2 (object_path example_store example_blob) = Some [104, 105]"
proof -
  obtain w1 where p: "put_bytes example_store [104, 105] example_src_world = (Inr example_blob, w1)"
    and e: "ent example_src_world (object_path example_store example_blob) = None"
    by (rule example_put_run)
  obtain r w2 where g: "gc example_store [] 60 (w1\<lparr>now := 50\<rparr>) = (r, w2)" by fastforce
  have "50 - now example_src_world < 60" by (simp add: example_src_world_def)
  from gc_spares_new_objects [OF example_store_ok e p this g] show ?thesis using p g by blast
qed

theorem gc_takes_reused_objects_witness:
  "\<exists>w w1 s w2. content w (object_path example_store example_blob) = Some [104, 105] \<and>
     put_bytes example_store [104, 105] w = (Inr example_blob, w1) \<and> gc example_store [] 60 w1 = (Inr s, w2) \<and>
     ent w2 (object_path example_store example_blob) = None"
proof -
  obtain w0 where p: "put_bytes example_store [104, 105] example_src_world = (Inr example_blob, w0)"
    "ent example_src_world (object_path example_store example_blob) = None" "store_inv example_store w0"
    "fault w0 = (\<lambda>_. None)" "written_at w0 (object_path example_store example_blob) 9"
    by (rule example_put_run)
  let ?w = "w0\<lparr>now := 100\<rparr>"
  have e: "ent ?w q = ent w0 q" for q by (simp add: ent_def)
  have inv: "store_inv example_store ?w"
    using p(3) by (simp add: store_inv_def wf_world_def good_object_def e cong: option.case_cong dirent.case_cong)
  obtain i where i: "ent ?w (object_path example_store example_blob) = Some (DFile i)" "ino_mtime (inos ?w i) = 9"
    using p(5) e by (auto simp: written_at_def)
  have none: "\<not> reachable example_store ?w [] d" for d
  proof
    assume "reachable example_store ?w [] d" then show False by induction auto
  qed
  have "content w0 (object_path example_store example_blob) = Some [104, 105]"
    using put_bytes_run [OF example_store_ok p(1)] p(2) by blast
  then have c: "content ?w (object_path example_store example_blob) = Some [104, 105]"
    by (simp add: content_def e cong: option.case_cong dirent.case_cong)
  show ?thesis
    using gc_takes_reused_objects [OF example_store_ok(1) inv _ _ _ i(1) none, of "[104, 105]" 60] c p(4) i(2) none
    by (auto simp: quiet_def blobs_opaque_def example_gc_facts(1))
qed

end
