(* ===== verification/Jet_Race.thy ===== *)
theory Jet_Race
  imports Jet_Gc
begin

text \<open>
  Concurrent insertions (\<open>insert_staged\<close> and \<open>seal_and_commit\<close> of \<open>crates/jet-cas/src/store.rs\<close>).
  \<open>Jet_Store\<close> models one insertion from its first call to its last; here the same insertion is
  a machine that makes one call of \<open>std::fs\<close> per step, and several of them run under an
  arbitrary schedule. A writer alone is the insertion of \<open>Jet_Store\<close>; writers of pairwise
  different objects never disturb each other, by a rely-guarantee argument stated once in the
  locale \<open>interference_free\<close>; two writers of the same bytes do, in any store.

  \<open>create_dir_all\<close> is one step (it only adds directories), and so is \<open>write_all\<close>. A write goes to
  the offset of its handle, which is 0 for a handle just opened, and not to the end of the
  file: the two differ once another writer holds the same file.
\<close>

section \<open>Schedules\<close>

definition sched_step ::
  "('i \<Rightarrow> 'p \<Rightarrow> 'w \<Rightarrow> 'p \<times> 'w) \<Rightarrow> 'i list \<Rightarrow> nat \<Rightarrow> 'p list \<times> 'w \<Rightarrow> 'p list \<times> 'w" where
  "sched_step step ids k s =
     (case s of (ps, w) \<Rightarrow>
        if k < length ids \<and> k < length ps
        then (case step (ids ! k) (ps ! k) w of (p', w') \<Rightarrow> (ps[k := p'], w'))
        else (ps, w))"

primrec run_schedule ::
  "('i \<Rightarrow> 'p \<Rightarrow> 'w \<Rightarrow> 'p \<times> 'w) \<Rightarrow> 'i list \<Rightarrow> nat list \<Rightarrow> 'p list \<times> 'w \<Rightarrow> 'p list \<times> 'w" where
  "run_schedule step ids [] s = s"
| "run_schedule step ids (k # ks) s = run_schedule step ids ks (sched_step step ids k s)"

section \<open>One writer\<close>

definition overwrite :: "bytes \<Rightarrow> bytes \<Rightarrow> bytes" where
  "overwrite old bs = bs @ drop (length bs) old"

definition put_data :: "nat \<Rightarrow> bytes \<Rightarrow> world \<Rightarrow> world" where
  "put_data i bs w =
     set_ino i ((inos w i)\<lparr>ino_data := overwrite (ino_data (inos w i)) bs, ino_mtime := now w\<rparr>) w"

definition write_start :: "nat \<Rightarrow> bytes \<Rightarrow> (errno, unit) prog" where
  "write_start i bs = syscall (\<lambda>k e w. (Inl e, put_data i (take k bs) w))
     (\<lambda>w. (Inr (), put_data i bs w))"

datatype Writer =
    WHas | WOpen | WWrite nat | WSync nat | WStat | WSeal | WMkdir | WRename
  | WUnlink errno | WDirOpen | WDirSync | WDone "CasError + digest"

definition call :: "(errno, 'a) prog \<Rightarrow> (errno \<Rightarrow> 'p) \<Rightarrow> ('a \<Rightarrow> 'p) \<Rightarrow> world \<Rightarrow> 'p \<times> world" where
  "call m bad good w = (case m w of (r, w') \<Rightarrow> (case r of Inl e \<Rightarrow> bad e | Inr x \<Rightarrow> good x, w'))"

definition wfail :: "string \<Rightarrow> path \<Rightarrow> errno \<Rightarrow> Writer" where
  "wfail op p e = WDone (Inl (CasIo op p e))"

text \<open>A writer is the digest it stores under and the bytes; each step is one call.\<close>

fun writer_step :: "'h ObjectStore \<Rightarrow> digest \<times> bytes \<Rightarrow> Writer \<Rightarrow> world \<Rightarrow> Writer \<times> world" where
  "writer_step st (d, bs) WHas w =
     (case has st d w of (r, w') \<Rightarrow> (if r = Inr True then WDone (Inr d) else WOpen, w'))"
| "writer_step st (d, bs) WOpen w =
     (let s = staging_path st d in
      call (open_truncate s) (wfail ''create staging file'' s) WWrite w)"
| "writer_step st (d, bs) (WWrite f) w =
     call (write_start f bs) (wfail ''write staging file'' (staging_path st d))
       (\<lambda>_. if os_durability st = Synced then WSync f else WStat) w"
| "writer_step st (d, bs) (WSync f) w =
     call (sync_all f) (wfail ''fsync staging file'' (staging_path st d)) (\<lambda>_. WStat) w"
| "writer_step st (d, bs) WStat w =
     (let s = staging_path st d in
      call (fs_metadata s) (wfail ''stat staging file'' s) (\<lambda>_. WSeal) w)"
| "writer_step st (d, bs) WSeal w =
     (let s = staging_path st d in
      call (set_permissions s OBJECT_MODE) (wfail ''seal staging file'' s) (\<lambda>_. WMkdir) w)"
| "writer_step st (d, bs) WMkdir w =
     (let parent = butlast (object_path st d) in
      call (create_dir_all parent) (wfail ''create fanout dir'' parent) (\<lambda>_. WRename) w)"
| "writer_step st (d, bs) WRename w =
     call (rename (staging_path st d) (object_path st d)) WUnlink
       (\<lambda>_. if os_durability st = Synced then WDirOpen else WDone (Inr d)) w"
| "writer_step st (d, bs) (WUnlink e) w =
     (let stop = wfail ''commit object'' (object_path st d) e in
      call (remove_file (staging_path st d)) (\<lambda>_. stop) (\<lambda>_. stop) w)"
| "writer_step st (d, bs) WDirOpen w =
     call (open_dir (butlast (object_path st d))) (\<lambda>_. WDone (Inr d)) (\<lambda>_. WDirSync) w"
| "writer_step st (d, bs) WDirSync w =
     call (sync_all 0) (\<lambda>_. WDone (Inr d)) (\<lambda>_. WDone (Inr d)) w"
| "writer_step st (d, bs) (WDone r) w = (WDone r, w)"

text \<open>The writers of a set of blobs, all about to make their first call.\<close>

definition blob_writers :: "'h ObjectStore \<Rightarrow> bytes list \<Rightarrow> (digest \<times> bytes) list" where
  "blob_writers st bss = map (\<lambda>bs. (blob_digest (os_b3 st) bs, bs)) bss"

definition insert_concurrently :: "'h ObjectStore \<Rightarrow> bytes list \<Rightarrow> nat list \<Rightarrow> world \<Rightarrow> Writer list \<times> world" where
  "insert_concurrently st bss sched w =
     run_schedule (writer_step st) (blob_writers st bss) sched (map (\<lambda>_. WHas) bss, w)"

section \<open>A writer alone\<close>

text \<open>What is left to do at each point, in terms of the operations of \<open>Jet_Store\<close>.\<close>

fun remaining :: "'h ObjectStore \<Rightarrow> digest \<Rightarrow> bytes \<Rightarrow> Writer \<Rightarrow> (CasError, digest) prog" where
  "remaining st d bs WHas = bnd (has st d) (\<lambda>present.
     if present then ret d else bnd (insert_staged st d (\<lambda>f. write_start f bs)) (\<lambda>_. ret d))"
| "remaining st d bs WOpen = bnd (insert_staged st d (\<lambda>f. write_start f bs)) (\<lambda>_. ret d)"
| "remaining st d bs (WWrite f) =
     (let s = staging_path st d in
      bnd (cas_io ''write staging file'' s (write_start f bs)) (\<lambda>_.
      bnd (if os_durability st = Synced then cas_io ''fsync staging file'' s (sync_all f) else ret ()) (\<lambda>_.
      bnd (seal_and_commit st d s) (\<lambda>_. ret d))))"
| "remaining st d bs (WSync f) =
     (let s = staging_path st d in
      bnd (cas_io ''fsync staging file'' s (sync_all f)) (\<lambda>_.
      bnd (seal_and_commit st d s) (\<lambda>_. ret d)))"
| "remaining st d bs WStat = bnd (seal_and_commit st d (staging_path st d)) (\<lambda>_. ret d)"
| "remaining st d bs WSeal =
     (let s = staging_path st d; parent = butlast (object_path st d) in
      bnd (cas_io ''seal staging file'' s (set_permissions s OBJECT_MODE)) (\<lambda>_.
      bnd (cas_io ''create fanout dir'' parent (create_dir_all parent)) (\<lambda>_.
      bnd (commit_object st d s) (\<lambda>_. ret d))))"
| "remaining st d bs WMkdir =
     (let parent = butlast (object_path st d) in
      bnd (cas_io ''create fanout dir'' parent (create_dir_all parent)) (\<lambda>_.
      bnd (commit_object st d (staging_path st d)) (\<lambda>_. ret d)))"
| "remaining st d bs WRename = bnd (commit_object st d (staging_path st d)) (\<lambda>_. ret d)"
| "remaining st d bs (WUnlink e) =
     bnd (ignore (remove_file (staging_path st d))) (\<lambda>_. throw (CasIo ''commit object'' (object_path st d) e))"
| "remaining st d bs WDirOpen =
     try_with (open_dir (butlast (object_path st d))) (\<lambda>dir. case dir of
       Inl _ \<Rightarrow> ret d | Inr _ \<Rightarrow> bnd (ignore (sync_all 0)) (\<lambda>_. ret d))"
| "remaining st d bs WDirSync = bnd (ignore (sync_all 0)) (\<lambda>_. ret d)"
| "remaining st d bs (WDone r) = lift_res r"

text \<open>An upper bound on the calls left.\<close>

fun calls_left :: "Writer \<Rightarrow> nat" where
  "calls_left WHas = 11"
| "calls_left WOpen = 10"
| "calls_left (WWrite f) = 9"
| "calls_left (WSync f) = 8"
| "calls_left WStat = 7"
| "calls_left WSeal = 6"
| "calls_left WMkdir = 5"
| "calls_left WRename = 4"
| "calls_left (WUnlink e) = 3"
| "calls_left WDirOpen = 2"
| "calls_left WDirSync = 1"
| "calls_left (WDone r) = 0"

lemma calls_left_decreases:
  "writer_step st (d, bs) p w = (p', w') \<Longrightarrow> calls_left p' \<le> calls_left p - 1"
  by (cases p) (auto simp: call_def wfail_def Let_def split: prod.splits sum.splits if_splits)

lemma calls_left_0: "calls_left p = 0 \<longleftrightarrow> (\<exists>r. p = WDone r)"
  by (cases p) auto

lemma bnd_assoc: "bnd (bnd m f) g = bnd m (\<lambda>x. bnd (f x) g)"
  by (rule ext) (simp add: bnd_def try_with_def throw_def split: prod.splits sum.splits)

lemma bnd_cas_io:
  "bnd (cas_io op s m) f w =
     (case m w of (r, w') \<Rightarrow> case r of Inl e \<Rightarrow> (Inl (CasIo op s e), w') | Inr x \<Rightarrow> f x w')"
  by (simp add: bnd_def cas_io_def map_err_def try_with_def throw_def ret_def split: prod.splits sum.splits)

lemma remaining_wfail [simp]: "remaining st d bs (wfail op s e) w = (Inl (CasIo op s e), w)"
  by (simp add: wfail_def lift_res_def)

lemma has_total: "\<exists>b w'. has st d w = (Inr b, w')"
  by (simp add: has_def exists_path_def try_with_def ret_def split: prod.splits)

lemma has_step:
  assumes "writer_step st (d, bs) WHas w = (p', w')"
  shows "remaining st d bs WHas w = remaining st d bs p' w'"
proof -
  obtain b w1 where h: "has st d w = (Inr b, w1)" using has_total by blast
  then show ?thesis
    using assms by (cases b) (auto simp: bnd_def try_with_def ret_def lift_res_def)
qed

lemma open_remaining:
  "remaining st d bs WOpen = bnd (cas_io ''create staging file'' (staging_path st d) (open_truncate (staging_path st d)))
     (\<lambda>f. remaining st d bs (WWrite f))"
  by (simp add: insert_staged_def Let_def bnd_assoc)

lemma seal_remaining:
  "remaining st d bs WStat = bnd (cas_io ''stat staging file'' (staging_path st d) (fs_metadata (staging_path st d)))
     (\<lambda>_. remaining st d bs WSeal)"
  by (simp add: seal_and_commit_def Let_def bnd_assoc)

lemma commit_step:
  assumes "writer_step st (d, bs) p w = (p', w')" "p \<in> {WRename, WUnlink e, WDirOpen, WDirSync}"
  shows "remaining st d bs p w = remaining st d bs p' w'"
  using assms
  by (auto simp: call_def commit_object_def wfail_def Let_def bnd_def try_with_def throw_def ret_def ignore_def lift_res_def
      split: prod.splits sum.splits if_splits)

lemma remaining_step:
  assumes "writer_step st (d, bs) p w = (p', w')"
  shows "remaining st d bs p w = remaining st d bs p' w'"
proof (cases p)
  case WHas
  then show ?thesis using has_step assms by blast
next
  case WOpen
  then show ?thesis
    using assms unfolding open_remaining WOpen bnd_cas_io
    by (auto simp: Let_def call_def simp del: remaining.simps split: prod.splits sum.splits)
next
  case (WWrite f)
  then show ?thesis
    using assms by (auto simp: bnd_cas_io call_def Let_def split: prod.splits sum.splits)
next
  case WStat
  then show ?thesis
    using assms unfolding seal_remaining WStat bnd_cas_io
    by (auto simp: Let_def call_def simp del: remaining.simps split: prod.splits sum.splits)
qed (use assms commit_step [OF assms] in \<open>simp_all del: remaining.simps writer_step.simps\<close>,
    use assms in \<open>auto simp: bnd_cas_io call_def Let_def split: prod.splits sum.splits\<close>)

lemma run_schedule_append:
  "run_schedule step ids (xs @ ys) s = run_schedule step ids ys (run_schedule step ids xs s)"
  by (induction xs arbitrary: s) simp_all

lemma writer_run_at:
  assumes "k < length ids" "ids ! k = (d, bs)"
  shows "k < length ps \<Longrightarrow> calls_left (ps ! k) \<le> n \<Longrightarrow>
    run_schedule (writer_step st) ids (replicate n k) (ps, w) =
      (case remaining st d bs (ps ! k) w of (r, w') \<Rightarrow> (ps[k := WDone r], w'))"
proof (induction n arbitrary: ps w)
  case 0
  then obtain r where "ps ! k = WDone r" by (auto simp: calls_left_0)
  then show ?case by (simp add: lift_res_def) (metis list_update_id)
next
  case (Suc n)
  obtain p' w' where s: "writer_step st (d, bs) (ps ! k) w = (p', w')" by fastforce
  have "calls_left p' \<le> n" using calls_left_decreases [OF s] Suc.prems(2) by simp
  then show ?case
    using Suc.IH [of "ps[k := p']" w'] Suc.prems(1) s remaining_step [OF s] assms
    by (simp add: sched_step_def split: prod.splits)
qed

lemma writer_run:
  "calls_left p \<le> n \<Longrightarrow> run_schedule (writer_step st) [(d, bs)] (replicate n 0) ([p], w) =
     (case remaining st d bs p w of (r, w') \<Rightarrow> ([WDone r], w'))"
  using writer_run_at [of 0 "[(d, bs)]" d bs "[p]" n st w] by simp

text \<open>A file just truncated is empty, so the write at its start is the write at its end.\<close>

lemma open_truncate_empty: "open_truncate p w = (Inr f, w') \<Longrightarrow> ino_data (inos w' f) = []"
  by (auto simp: open_truncate_def syscall_def throw_def Let_def empty_file_def
      split: option.splits sum.splits prod.splits)

lemma write_start_empty:
  "ino_data (inos w f) = [] \<Longrightarrow> write_start f bs w = write_all f bs w"
  by (simp add: write_start_def write_all_def syscall_def put_data_def append_data_def overwrite_def Let_def
      split: option.splits)

lemma insert_staged_start:
  "insert_staged st d (\<lambda>f. write_start f bs) w = insert_staged st d (\<lambda>f. write_all f bs) w"
proof -
  obtain r w1 where o: "open_truncate (staging_path st d) w = (r, w1)" by fastforce
  have "write_start f bs w1 = write_all f bs w1" if "r = Inr f" for f
    using write_start_empty open_truncate_empty o that by blast
  then show ?thesis
    using o by (cases r) (simp_all add: insert_staged_def Let_def bnd_def try_with_def cas_io_def map_err_def ret_def throw_def)
qed

lemma remaining_start: "remaining st d bs WHas = put_object st d bs"
proof
  fix w
  show "remaining st d bs WHas w = put_object st d bs w"
    using has_total [of st d w] by (auto simp: put_object_def bnd_def try_with_def insert_staged_start ret_def)
qed

section \<open>Interference freedom\<close>

definition all_at ::
  "('w \<Rightarrow> bool) \<Rightarrow> ('i \<Rightarrow> 'p \<Rightarrow> 'w \<Rightarrow> bool) \<Rightarrow> 'i list \<Rightarrow> 'p list \<times> 'w \<Rightarrow> bool" where
  "all_at I A ids s \<longleftrightarrow> (case s of (ps, w) \<Rightarrow> I w \<and> length ps = length ids \<and>
     (\<forall>k < length ids. A (ids ! k) (ps ! k) w))"

text \<open>Threads that share a world: each step keeps the shared invariant, establishes the assertion
  of its own thread at its new point, and changes no more than its guarantee says; what the
  other threads assert is stable under that guarantee.\<close>

locale interference_free =
  fixes step :: "'i \<Rightarrow> 'p \<Rightarrow> 'w \<Rightarrow> 'p \<times> 'w"
    and thread :: "'i \<Rightarrow> bool"
    and inv :: "'w \<Rightarrow> bool"
    and at :: "'i \<Rightarrow> 'p \<Rightarrow> 'w \<Rightarrow> bool"
    and guarantee :: "'i \<Rightarrow> 'w \<Rightarrow> 'w \<Rightarrow> bool"
    and apart :: "'i \<Rightarrow> 'i \<Rightarrow> bool"
  assumes step_law: "thread i \<Longrightarrow> inv w \<Longrightarrow> at i p w \<Longrightarrow> step i p w = (p', w') \<Longrightarrow>
      inv w' \<and> at i p' w' \<and> guarantee i w w'"
    and stable_law: "thread i \<Longrightarrow> thread j \<Longrightarrow> apart i j \<Longrightarrow> inv w \<Longrightarrow> guarantee i w w' \<Longrightarrow>
      at j p w \<Longrightarrow> at j p w'"
begin

lemma ready_step:
  assumes "list_all thread ids" "pairwise apart (set ids)" "distinct ids" "all_at inv at ids s"
  shows "all_at inv at ids (sched_step step ids k s) \<and>
    (\<exists>i. snd (sched_step step ids k s) = snd s \<or> guarantee i (snd s) (snd (sched_step step ids k s)))"
proof (cases "k < length ids")
  case False
  then show ?thesis using assms(4) by (auto simp: sched_step_def split: prod.splits)
next
  case True
  obtain ps w where s: "s = (ps, w)" by fastforce
  obtain p' w' where st: "step (ids ! k) (ps ! k) w = (p', w')" by fastforce
  have r: "inv w" "length ps = length ids" "\<And>j. j < length ids \<Longrightarrow> at (ids ! j) (ps ! j) w"
    using assms(4) s by (auto simp: all_at_def)
  have th: "thread (ids ! j)" if "j < length ids" for j
    using assms(1) that by (simp add: list_all_length)
  note own = step_law [OF th [OF True] r(1) r(3) [OF True] st]
  have "at (ids ! j) (ps[k := p'] ! j) w'" if j: "j < length ids" for j
  proof (cases "j = k")
    case True
    then show ?thesis using own j r(2) by simp
  next
    case False
    then have "apart (ids ! k) (ids ! j)"
      using assms(2,3) True j by (auto simp: pairwise_def nth_eq_iff_index_eq)
    then show ?thesis
      using stable_law [OF th [OF True] th [OF j] _ r(1)] own r(3) [OF j] False by auto
  qed
  then show ?thesis using own s st r(2) True by (auto simp: all_at_def sched_step_def)
qed

lemma ready_run:
  assumes "list_all thread ids" "pairwise apart (set ids)" "distinct ids"
  shows "all_at inv at ids s \<Longrightarrow> all_at inv at ids (run_schedule step ids sched s)"
proof (induction sched arbitrary: s)
  case (Cons k ks)
  then show ?case using ready_step [OF assms] by simp
qed simp

lemma run_preserves:
  assumes ids: "list_all thread ids" "pairwise apart (set ids)" "distinct ids"
    and R: "\<And>w. R w w" "\<And>u v w. R u v \<Longrightarrow> R v w \<Longrightarrow> R u w" "\<And>i v w. guarantee i v w \<Longrightarrow> R v w"
  shows "all_at inv at ids s \<Longrightarrow> R (snd s) (snd (run_schedule step ids sched s))"
proof (induction sched arbitrary: s)
  case Nil
  then show ?case using R(1) by simp
next
  case (Cons k ks)
  let ?s = "sched_step step ids k s"
  have "R (snd s) (snd ?s)" using ready_step [OF ids Cons.prems] R(1,3) by metis
  moreover have "R (snd ?s) (snd (run_schedule step ids ks ?s))"
    using ready_step [OF ids Cons.prems] Cons.IH by blast
  ultimately show ?case using R(2) by simp
qed

end

section \<open>Writers of different objects\<close>

definition staged_as :: "'h ObjectStore \<Rightarrow> digest \<Rightarrow> bytes \<Rightarrow> (inode \<Rightarrow> bool) \<Rightarrow> world \<Rightarrow> bool" where
  "staged_as st d bs P w \<longleftrightarrow>
     (\<exists>i. ent w (staging_path st d) = Some (DFile i) \<and> ino_data (inos w i) = bs \<and> P (inos w i))"

text \<open>What holds when a writer is at a point: its staging file is its own.\<close>

fun writer_at :: "'h ObjectStore \<Rightarrow> digest \<times> bytes \<Rightarrow> Writer \<Rightarrow> world \<Rightarrow> bool" where
  "writer_at st (d, bs) (WWrite f) w \<longleftrightarrow>
     ent w (staging_path st d) = Some (DFile f) \<and> ino_data (inos w f) = []"
| "writer_at st (d, bs) (WSync f) w \<longleftrightarrow> staged_as st d bs (\<lambda>_. True) w"
| "writer_at st (d, bs) WStat w \<longleftrightarrow> staged_as st d bs (\<lambda>_. True) w"
| "writer_at st (d, bs) WSeal w \<longleftrightarrow> staged_as st d bs (\<lambda>_. True) w"
| "writer_at st (d, bs) WMkdir w \<longleftrightarrow> staged_as st d bs (\<lambda>x. ino_mode x = OBJECT_MODE) w"
| "writer_at st (d, bs) WRename w \<longleftrightarrow> staged_as st d bs (\<lambda>x. ino_mode x = OBJECT_MODE) w"
| "writer_at st (d, bs) WDirOpen w \<longleftrightarrow> ent w (object_path st d) \<noteq> None"
| "writer_at st (d, bs) WDirSync w \<longleftrightarrow> ent w (object_path st d) \<noteq> None"
| "writer_at st (d, bs) (WDone (Inr x)) w \<longleftrightarrow> x = d \<and> ent w (object_path st d) \<noteq> None"
| "writer_at st (d, bs) p w \<longleftrightarrow> True"

definition writer_ok :: "'h ObjectStore \<Rightarrow> digest \<times> bytes \<Rightarrow> bool" where
  "writer_ok st i \<longleftrightarrow> wf_digest (fst i) \<and> object_hash (os_b3 st) (snd i) (fst i)"

text \<open>What a writer leaves alone: the objects that are there, everything outside the store, and the
  staging files of the others.\<close>

definition writer_guarantee :: "'h ObjectStore \<Rightarrow> digest \<times> bytes \<Rightarrow> world \<Rightarrow> world \<Rightarrow> bool" where
  "writer_guarantee st i w w' \<longleftrightarrow> evolves st w w' \<and>
     (\<forall>e. wf_digest e \<longrightarrow> e \<noteq> fst i \<longrightarrow> ent w' (staging_path st e) = ent w (staging_path st e) \<and>
        (\<forall>k. ent w (staging_path st e) = Some (DFile k) \<longrightarrow> inos w' k = inos w k))"

lemma writer_guarantee_tick [simp]: "writer_guarantee st i w (w\<lparr>tick := n\<rparr>)"
  by (simp add: writer_guarantee_def)

lemma staged_as_tick [simp]: "staged_as st d bs P (w\<lparr>tick := n\<rparr>) = staged_as st d bs P w"
  by (simp add: staged_as_def)

lemma writer_stable:
  assumes "writer_ok st j" "fst i \<noteq> fst j" "writer_guarantee st i w w'" "writer_at st j p w"
  shows "writer_at st j p w'"
proof -
  obtain d bs where j: "j = (d, bs)" by fastforce
  have s: "ent w' (staging_path st d) = ent w (staging_path st d)"
    "\<And>k. ent w (staging_path st d) = Some (DFile k) \<Longrightarrow> inos w' k = inos w k"
    using assms(1-3) j by (auto simp: writer_guarantee_def writer_ok_def)
  have o: "ent w (object_path st d) \<noteq> None \<Longrightarrow> ent w' (object_path st d) \<noteq> None"
    using assms(3) by (auto simp: writer_guarantee_def evolves_def)
  show ?thesis
    using assms(4) s o unfolding j
    by (cases "(st, (d, bs), p, w)" rule: writer_at.cases) (auto simp: staged_as_def)
qed

lemma staging_step_guarantee:
  assumes "store_wf st" "wf_digest d" "store_inv st w" "staging_step st d w w'"
  shows "store_inv st w' \<and> writer_guarantee st (d, bs) w w'"
proof -
  let ?s = "staging_path st d"
  have "ent w' (staging_path st e) = ent w (staging_path st e) \<and>
      (\<forall>k. ent w (staging_path st e) = Some (DFile k) \<longrightarrow> inos w' k = inos w k)"
    if e: "wf_digest e" "e \<noteq> d" for e
  proof -
    have ne: "staging_path st e \<noteq> ?s" using staging_path_inject [OF assms(1) e(1) assms(2)] e(2) by blast
    have "inos w' k = inos w k" if k: "ent w (staging_path st e) = Some (DFile k)" for k
    proof -
      have "ent w ?s \<noteq> Some (DFile k)" using assms(3) e(1) k ne by (metis store_inv_def)
      then show ?thesis
        using assms(4) wf_file [OF store_inv_wf [OF assms(3)] k] by (simp add: staging_step_def)
    qed
    moreover have "ent w' (staging_path st e) = ent w (staging_path st e)"
      using assms(4) ne store_paths(4) [OF assms(1), of d e] by (metis staging_step_def)
    ultimately show ?thesis by blast
  qed
  then show ?thesis using staging_step_store_inv [OF assms] by (simp add: writer_guarantee_def)
qed

lemma commit_guarantee:
  assumes "store_wf st" "wf_digest d" "store_inv st w"
    and "frame {staging_path st d, object_path st d} {} w w'" "inos w' = inos w" "evolves st w w'"
  shows "writer_guarantee st (d, bs) w w'"
proof -
  have "ent w' (staging_path st e) = ent w (staging_path st e)" if "wf_digest e" "e \<noteq> d" for e
    using frame_ent [OF assms(4)] staging_path_inject [OF assms(1) that(1) assms(2)] that(2)
      store_paths(1) [OF assms(1)] by blast
  then show ?thesis using assms(5,6) by (simp add: writer_guarantee_def)
qed

lemma callE:
  assumes "call m bad good w = (p', w')"
  obtains (err) e where "m w = (Inl e, w')" "p' = bad e" | (ok) x where "m w = (Inr x, w')" "p' = good x"
  using assms by (auto simp: call_def split: prod.splits sum.splits)

lemma looks_open_dir: "looks (open_dir p) (\<lambda>_ _. True)"
  unfolding open_dir_def by (rule looks_sys) simp

lemma wfail_at [simp]: "writer_at st i (wfail op q e) w"
  by (cases i) (simp add: wfail_def)

text \<open>One step, for the calls that only look and then call by call.\<close>

definition step_ok :: "'h ObjectStore \<Rightarrow> digest \<times> bytes \<Rightarrow> Writer \<Rightarrow> world \<Rightarrow> Writer \<Rightarrow> world \<Rightarrow> bool" where
  "step_ok st i p w p' w' \<longleftrightarrow> store_inv st w' \<and> writer_at st i p' w' \<and> writer_guarantee st i w w'"

lemma looking_step:
  assumes "store_inv st w" "writer_at st (d, bs) p w" "writer_step st (d, bs) p w = (p', w')"
    "p \<in> {WHas, WSync f, WStat, WDirOpen, WDirSync} \<or> (\<exists>r. p = WDone r)"
  shows "step_ok st (d, bs) p w p' w'"
proof -
  have "\<exists>n. w' = w\<lparr>tick := n\<rparr>" "writer_at st (d, bs) p' w"
    using assms(2-4)
    by (auto simp: Let_def elim!: callE looksE [OF _ looks_calls(5)] looksE [OF _ looks_calls(6)]
        looksE [OF _ looks_open_dir] split: prod.splits if_splits)
      (auto elim!: has_run intro: exI [of _ "tick w"])
  then show ?thesis
    using assms(1) unfolding step_ok_def
    by (cases "(st, (d, bs), p', w)" rule: writer_at.cases) auto
qed

lemma staging_step_ok:
  assumes "store_wf st" "writer_ok st (d, bs)" "store_inv st w" "staging_step st d w w'" "writer_at st (d, bs) p' w'"
  shows "step_ok st (d, bs) p w p' w'"
  using staging_step_guarantee [OF assms(1) _ assms(3,4)] assms(2,5) by (simp add: step_ok_def writer_ok_def)

lemma open_step:
  assumes "store_wf st" "writer_ok st (d, bs)" "store_inv st w" "writer_step st (d, bs) WOpen w = (p', w')"
  shows "step_ok st (d, bs) WOpen w p' w'"
proof -
  let ?s = "staging_path st d"
  obtain r where o: "open_truncate ?s w = (r, w')" and p': "p' = (case r of Inl e \<Rightarrow> wfail ''create staging file'' ?s e | Inr f \<Rightarrow> WWrite f)"
    using assms(4) by (auto simp: Let_def elim!: callE)
  note wf = store_inv_wf [OF assms(3)]
  have "staging_step st d w w'" by (rule open_truncate_staging [OF wf assms(1) o])
  moreover have "writer_at st (d, bs) p' w'"
    using open_truncate_run [OF wf o] p' by (cases r) auto
  ultimately show ?thesis by (rule staging_step_ok [OF assms(1-3)])
qed

lemma write_step:
  assumes "store_wf st" "writer_ok st (d, bs)" "store_inv st w" "writer_at st (d, bs) (WWrite f) w"
    "writer_step st (d, bs) (WWrite f) w = (p', w')"
  shows "step_ok st (d, bs) (WWrite f) w p' w'"
proof -
  let ?s = "staging_path st d"
  have f: "ent w ?s = Some (DFile f)" "ino_data (inos w f) = []" using assms(4) by simp_all
  obtain r where o: "write_all f bs w = (r, w')"
    and p': "p' = (case r of Inl e \<Rightarrow> wfail ''write staging file'' ?s e | Inr _ \<Rightarrow> if os_durability st = Synced then WSync f else WStat)"
    using assms(5) f(2) by (auto simp: write_start_empty elim!: callE)
  note wr = write_all_writes [OF store_inv_wf [OF assms(3)] f(2) o]
  have "staging_step st d w w'" using frame_writes_staging [OF _ _ f(1) assms(1)] wr by blast
  moreover have "writer_at st (d, bs) p' w'"
    using wr f p' by (cases r) (auto simp: staged_as_def frame_ent)
  ultimately show ?thesis by (rule staging_step_ok [OF assms(1-3)])
qed

lemma seal_step:
  assumes "store_wf st" "writer_ok st (d, bs)" "store_inv st w" "writer_at st (d, bs) WSeal w"
    "writer_step st (d, bs) WSeal w = (p', w')"
  shows "step_ok st (d, bs) WSeal w p' w'"
proof -
  let ?s = "staging_path st d"
  obtain r where o: "set_permissions ?s OBJECT_MODE w = (r, w')"
    and p': "p' = (case r of Inl e \<Rightarrow> wfail ''seal staging file'' ?s e | Inr _ \<Rightarrow> WMkdir)"
    using assms(5) by (auto simp: Let_def elim!: callE)
  note wf = store_inv_wf [OF assms(3)]
  have "staging_step st d w w'" by (rule set_permissions_staging [OF wf assms(1) o])
  moreover have "writer_at st (d, bs) p' w'"
    using set_permissions_run [OF wf o] assms(4) p' by (cases r) (auto simp: staged_as_def frame_ent)
  ultimately show ?thesis by (rule staging_step_ok [OF assms(1-3)])
qed

lemma mkdir_step:
  assumes "store_wf st" "writer_ok st (d, bs)" "store_inv st w" "writer_at st (d, bs) WMkdir w"
    "writer_step st (d, bs) WMkdir w = (p', w')"
  shows "step_ok st (d, bs) WMkdir w p' w'"
proof -
  let ?f = "butlast (object_path st d)"
  obtain r where o: "create_dir_all ?f w = (r, w')"
    and p': "p' = (case r of Inl e \<Rightarrow> wfail ''create fanout dir'' ?f e | Inr _ \<Rightarrow> WRename)"
    using assms(5) by (auto simp: Let_def elim!: callE)
  note c = create_fanout_staging [OF assms(1,3) o]
  then have "staging_step st d w w'" by blast
  moreover have "writer_at st (d, bs) p' w'"
    using c assms(4) p' by (cases r) (auto simp: staged_as_def)
  ultimately show ?thesis by (rule staging_step_ok [OF assms(1-3)])
qed

lemma unlink_step:
  assumes "store_wf st" "writer_ok st (d, bs)" "store_inv st w" "writer_step st (d, bs) (WUnlink e) w = (p', w')"
  shows "step_ok st (d, bs) (WUnlink e) w p' w'"
proof -
  obtain r where o: "remove_file (staging_path st d) w = (r, w')"
    and p': "p' = wfail ''commit object'' (object_path st d) e"
    using assms(4) by (auto simp: Let_def elim!: callE)
  have "staging_step st d w w'" by (rule remove_file_staging [OF store_inv_wf [OF assms(3)] assms(1) o])
  then show ?thesis by (rule staging_step_ok [OF assms(1-3)]) (simp add: p')
qed

lemma rename_step:
  assumes "store_wf st" "writer_ok st (d, bs)" "store_inv st w" "writer_at st (d, bs) WRename w"
    "writer_step st (d, bs) WRename w = (p', w')"
  shows "step_ok st (d, bs) WRename w p' w'"
proof -
  let ?s = "staging_path st d" and ?o = "object_path st d"
  obtain r where q: "rename ?s ?o w = (r, w')"
    and p': "p' = (case r of Inl e \<Rightarrow> WUnlink e | Inr _ \<Rightarrow> if os_durability st = Synced then WDirOpen else WDone (Inr d))"
    using assms(5) by (auto simp: Let_def elim!: callE)
  have d: "wf_digest d" "object_hash (os_b3 st) bs d" using assms(2) by (simp_all add: writer_ok_def)
  obtain i where i: "ent w ?s = Some (DFile i)" "ino_data (inos w i) = bs" "ino_mode (inos w i) = OBJECT_MODE"
    using assms(4) by (auto simp: staged_as_def)
  note rn = rename_run [OF store_inv_wf [OF assms(3)] store_paths(1) [OF assms(1)] q]
  show ?thesis
  proof (cases r)
    case (Inl e)
    have "ent w' p = ent w p" for p
      using rn Inl by (cases "p = ?s \<or> p = ?o") (auto simp: frame_def)
    then have "staging_step st d w w'" using rn by (simp add: staging_step_def frame_def)
    then show ?thesis by (rule staging_step_ok [OF assms(1-3)]) (simp add: p' Inl)
  next
    case (Inr u)
    have "store_inv st w' \<and> evolves st w w'"
      using rn Inr i d by (intro commit_store_inv [OF assms(1) d(1) assms(3) i(1)]) auto
    moreover from this have "writer_guarantee st (d, bs) w w'"
      using rn Inr by (intro commit_guarantee [OF assms(1) d(1) assms(3)]) auto
    ultimately show ?thesis using rn Inr p' i(1) by (simp add: step_ok_def)
  qed
qed

lemma writer_step_law:
  assumes "store_wf st" "writer_ok st i" "store_inv st w" "writer_at st i p w" "writer_step st i p w = (p', w')"
  shows "store_inv st w' \<and> writer_at st i p' w' \<and> writer_guarantee st i w w'"
proof -
  obtain d bs where i: "i = (d, bs)" by fastforce
  note h = assms [unfolded i]
  have "step_ok st (d, bs) p w p' w'"
  proof (cases p)
    case WOpen
    then show ?thesis using open_step [OF h(1-3)] h(5) by simp
  next
    case (WWrite f)
    then show ?thesis using write_step [OF h(1-3)] h(4,5) by blast
  next
    case WSeal
    then show ?thesis using seal_step [OF h(1-3)] h(4,5) by blast
  next
    case WMkdir
    then show ?thesis using mkdir_step [OF h(1-3)] h(4,5) by blast
  next
    case WRename
    then show ?thesis using rename_step [OF h(1-3)] h(4,5) by blast
  next
    case (WUnlink e)
    then show ?thesis using unlink_step [OF h(1-3)] h(5) by blast
  qed (use looking_step [OF h(3-5)] in auto)
  then show ?thesis by (simp add: step_ok_def i)
qed

interpretation writers: interference_free "writer_step st" "\<lambda>i. store_wf st \<and> writer_ok st i" "store_inv st"
  "writer_at st" "writer_guarantee st" "\<lambda>i j. fst i \<noteq> fst j" for st :: "'h ObjectStore"
proof
  show "store_inv st w' \<and> writer_at st i p' w' \<and> writer_guarantee st i w w'"
    if "store_wf st \<and> writer_ok st i" "store_inv st w" "writer_at st i p w" "writer_step st i p w = (p', w')"
    for i w p p' w'
    using writer_step_law that by blast
  show "writer_at st j p w'"
    if "store_wf st \<and> writer_ok st j" "fst i \<noteq> fst j" "writer_guarantee st i w w'" "writer_at st j p w"
    for i j w w' p
    using writer_stable that by blast
qed

lemma blob_writers_apart:
  assumes "store_wf st" "distinct (map (blob_digest (os_b3 st)) bss)"
  shows "list_all (\<lambda>i. store_wf st \<and> writer_ok st i) (blob_writers st bss)"
    "pairwise (\<lambda>i j. fst i \<noteq> fst j) (set (blob_writers st bss))" "distinct (blob_writers st bss)"
proof -
  show "list_all (\<lambda>i. store_wf st \<and> writer_ok st i) (blob_writers st bss)"
    using assms(1) by (auto simp: blob_writers_def list_all_iff writer_ok_def object_hash_def)
  have "distinct (map fst (blob_writers st bss))"
    using assms(2) by (simp add: blob_writers_def comp_def)
  then show "pairwise (\<lambda>i j. fst i \<noteq> fst j) (set (blob_writers st bss))" "distinct (blob_writers st bss)"
    by (auto simp: pairwise_def distinct_map inj_on_def)
qed

lemma blob_writers_ready:
  "store_inv st w \<Longrightarrow> all_at (store_inv st) (writer_at st) (blob_writers st bss) (map (\<lambda>_. WHas) bss, w)"
  by (simp add: all_at_def blob_writers_def)

text \<open>No writer waits for another: its own turns bring it to its end.\<close>

lemma run_schedule_calls_left:
  assumes "k < length ids" "length ps = length ids" "run_schedule (writer_step st) ids sched (ps, w) = (ps', w')"
  shows "calls_left (ps' ! k) \<le> calls_left (ps ! k) - count_list sched k \<and> length ps' = length ids"
  using assms(2,3)
proof (induction sched arbitrary: ps w)
  case Nil
  then show ?case by simp
next
  case (Cons j sched)
  obtain ps1 w1 where s: "sched_step (writer_step st) ids j (ps, w) = (ps1, w1)" by fastforce
  have l: "length ps1 = length ids"
    using s Cons.prems(1) by (auto simp: sched_step_def split: if_splits prod.splits)
  have "calls_left (ps1 ! k) \<le> calls_left (ps ! k) - (if j = k then 1 else 0)"
    using s Cons.prems(1) assms(1) calls_left_decreases
    by (cases "ids ! k") (auto simp: sched_step_def nth_list_update split: if_splits prod.splits)
  moreover have "calls_left (ps' ! k) \<le> calls_left (ps1 ! k) - count_list sched k \<and> length ps' = length ids"
    using Cons.IH [OF l, of w1] Cons.prems(2) s by simp
  ultimately show ?case by auto
qed

lemma store_inv_read:
  assumes "store_inv st w" "wf_digest d" "get_bytes st d w = (Inr bs, w')"
  shows "object_hash (os_b3 st) bs d"
proof -
  have "content w (object_path st d) = Some bs" using get_bytes_run [OF assms(3)] by blast
  moreover have "good_object st w d" using assms(1,2) by (simp add: store_inv_def)
  ultimately show ?thesis
    by (auto simp: content_def good_object_def split: option.splits dirent.splits)
qed

text \<open>A writer that runs alone and makes eleven calls has done what \<open>put_bytes\<close> does, with the
  same result and the same world, whatever fails: the machine is a refinement of the model of \<open>Jet_Store\<close>.\<close>

lemma writer_alone_is_put_bytes:
  "insert_concurrently st [bs] (replicate 11 0) w =
     (case put_bytes st bs w of (r, w') \<Rightarrow> ([WDone r], w'))"
  using writer_run [of WHas 11 st "blob_digest (os_b3 st) bs" bs w, unfolded remaining_start]
  by (simp add: insert_concurrently_def blob_writers_def put_bytes_object)

section \<open>Two writers of the same bytes\<close>

text \<open>Both hold the staging file: no call fails from here on, the object is absent, and its fan-out directory exists
  or can be made.\<close>

definition staged_open :: "'h ObjectStore \<Rightarrow> digest \<Rightarrow> world \<Rightarrow> bool" where
  "staged_open st d w \<longleftrightarrow> quiet w \<and> ent w (object_path st d) = None \<and> ent w (os_tmp st) = Some DDir \<and>
     ent w (os_objects st) = Some DDir \<and> ent w (os_objects st @ [fanout d]) \<in> {None, Some DDir}"

definition staged_file :: "'h ObjectStore \<Rightarrow> digest \<Rightarrow> nat \<Rightarrow> bytes \<Rightarrow> world \<Rightarrow> bool" where
  "staged_file st d i bs w \<longleftrightarrow> staged_open st d w \<and> ent w (staging_path st d) = Some (DFile i) \<and> ino_data (inos w i) = bs"

definition published :: "'h ObjectStore \<Rightarrow> digest \<Rightarrow> nat \<Rightarrow> bytes \<Rightarrow> world \<Rightarrow> bool" where
  "published st d i bs w \<longleftrightarrow> quiet w \<and> ent w (object_path st d) = Some (DFile i) \<and>
     ent w (staging_path st d) = None \<and> ino_data (inos w i) = bs"

lemma staging_parent: "butlast (staging_path st d) = os_tmp st" "staging_path st d \<noteq> []"
  by (simp_all add: staging_path_def)

lemma object_parent: "butlast (object_path st d) = os_objects st @ [fanout d]" "object_path st d \<noteq> []"
  by (simp_all add: object_path_def butlast_append)

lemma quiet_create_dir_all:
  assumes "quiet w" "ent w (butlast p) = Some DDir" "p \<noteq> []" "ent w p \<in> {None, Some DDir}"
  shows "create_dir_all p w =
    (Inr (), (if ent w p = None then set_ent p DDir else (\<lambda>w. w)) (w\<lparr>tick := Suc (tick w)\<rparr>))"
proof -
  obtain n where "length p = Suc n" using assms(3) by (cases p) simp_all
  moreover have "parent_err w p = None" using assms(2,3) by (simp add: parent_err_None)
  ultimately show ?thesis using assms
    by (auto simp: create_dir_all_def create_dir_def quiet_sys try_with_def ret_def is_dir_def bnd_def)
qed

lemma quiet_fault: "quiet w \<Longrightarrow> fault w (tick w) = None"
  by (simp add: quiet_def)

lemma tick_upd [simp]: "tick (set_ino i x w) = tick w" "tick (new_file p x w) = tick w" "tick (set_ent p e w) = tick w"
  by (simp_all add: set_ino_def new_file_def set_ent_def)

lemma staged_quiet: "staged_open st d w \<Longrightarrow> quiet w" "staged_file st d i bs w \<Longrightarrow> quiet w"
  by (simp_all add: staged_open_def staged_file_def)

lemmas quiet_step = call_def try_with_def ret_def syscall_def Let_def quiet_fault

lemma step_has:
  "staged_open st d w \<Longrightarrow> writer_step st (d, bs) WHas w = (WOpen, w\<lparr>tick := Suc (tick w)\<rparr>)"
  by (simp add: quiet_step has_def exists_path_def staged_open_def)

lemma staged_open_tick: "staged_open st d w \<Longrightarrow> tick w \<le> n \<Longrightarrow> staged_open st d (w\<lparr>tick := n\<rparr>)"
  by (simp add: staged_open_def)

lemma staged_file_tick: "staged_file st d i bs w \<Longrightarrow> tick w \<le> n \<Longrightarrow> staged_file st d i bs (w\<lparr>tick := n\<rparr>)"
  by (simp add: staged_file_def staged_open_tick)

lemma step_open_new:
  assumes "store_wf st" "staged_open st d w" "ent w (staging_path st d) = None"
  shows "\<exists>w'. writer_step st (d, bs) WOpen w = (WWrite (next_ino w), w') \<and> staged_file st d (next_ino w) [] w'"
proof -
  let ?w = "w\<lparr>tick := Suc (tick w)\<rparr>" and ?s = "staging_path st d"
  have "parent_err ?w ?s = None" using assms(2) by (simp add: parent_err_None staging_parent staged_open_def)
  then have "writer_step st (d, bs) WOpen w = (WWrite (next_ino w), new_file ?s (empty_file ?w) ?w)"
    using assms(2,3) by (simp add: quiet_step open_truncate_def staged_open_def)
  moreover have "staged_file st d (next_ino w) [] (new_file ?s (empty_file ?w) ?w)"
    using assms(2) store_paths [OF assms(1)] store_paths(1) [OF assms(1), symmetric] object_parent [of st d]
    by (auto simp: staged_file_def staged_open_def empty_file_def quiet_def)
  ultimately show ?thesis by blast
qed

lemma staged_file_set_ino:
  assumes "staged_file st d i xs w"
  shows "staged_file st d i (ino_data x) (set_ino i x (w\<lparr>tick := Suc (tick w)\<rparr>))"
  using assms by (simp add: staged_file_def staged_open_def quiet_def)

lemma step_open_again:
  assumes "staged_file st d i xs w"
  shows "\<exists>w'. writer_step st (d, bs) WOpen w = (WWrite i, w') \<and> staged_file st d i [] w'"
proof -
  let ?w = "w\<lparr>tick := Suc (tick w)\<rparr>" and ?s = "staging_path st d"
  let ?x = "(inos w i)\<lparr>ino_data := [], ino_mtime := now w\<rparr>"
  have "parent_err w ?s = None" "file_at w ?s = Inr i" "quiet w" "ent w ?s \<noteq> None"
    using assms by (simp_all add: parent_err_None file_at_Inr staging_parent staged_open_def staged_file_def)
  then have "writer_step st (d, bs) WOpen w = (WWrite i, set_ino i ?x ?w)"
    by (auto simp: call_def quiet_sys Let_def open_truncate_def)
  then show ?thesis using staged_file_set_ino [OF assms, of ?x] by auto
qed

lemma step_write:
  assumes "staged_file st d i xs w"
  shows "\<exists>w'. writer_step st (d, bs) (WWrite i) w = (if os_durability st = Synced then WSync i else WStat, w') \<and>
    staged_file st d i (overwrite xs bs) w'"
proof -
  let ?w = "w\<lparr>tick := Suc (tick w)\<rparr>"
  let ?x = "(inos w i)\<lparr>ino_data := overwrite xs bs, ino_mtime := now w\<rparr>"
  have "fault w (tick w) = None" "ino_data (inos w i) = xs" using assms by (simp_all add: staged_file_def staged_open_def quiet_def)
  then have "writer_step st (d, bs) (WWrite i) w = (if os_durability st = Synced then WSync i else WStat, set_ino i ?x ?w)"
    by (simp add: call_def write_start_def syscall_def put_data_def Let_def)
  then show ?thesis using staged_file_set_ino [OF assms, of ?x] by auto
qed

lemma race_begins:
  assumes "store_wf st" "staged_open st d w" "ent w (staging_path st d) = None"
  shows "\<exists>w1. run_schedule (writer_step st) [(d, bs), (d, bs)] [0, 0, 0, 1, 1] ([WHas, WHas], w) =
      ([if os_durability st = Synced then WSync (next_ino w) else WStat, WWrite (next_ino w)], w1) \<and>
    staged_file st d (next_ino w) [] w1"
proof -
  let ?i = "next_ino w" and ?after = "if os_durability st = Synced then WSync (next_ino w) else WStat"
  let ?w1 = "w\<lparr>tick := Suc (tick w)\<rparr>"
  obtain w2 where 2: "writer_step st (d, bs) WOpen ?w1 = (WWrite ?i, w2)" "staged_file st d ?i [] w2"
    using step_open_new [OF assms(1) staged_open_tick [OF assms(2), of "Suc (tick w)"]] assms(3) by auto
  obtain w3 where 3: "writer_step st (d, bs) (WWrite ?i) w2 = (?after, w3)" "staged_file st d ?i (overwrite [] bs) w3"
    using step_write [OF 2(2)] by blast
  let ?w4 = "w3\<lparr>tick := Suc (tick w3)\<rparr>"
  obtain w5 where 5: "writer_step st (d, bs) WOpen ?w4 = (WWrite ?i, w5)" "staged_file st d ?i [] w5"
    using step_open_again [OF staged_file_tick [OF 3(2), of "Suc (tick w3)"]] by auto
  have "staged_open st d w3" using 3(2) by (simp add: staged_file_def)
  then show ?thesis using 5(2)
    by (simp add: sched_step_def step_has assms(2) 2(1) 3(1) 5(1) del: writer_step.simps)
qed

text \<open>The first writer goes on with what is now in the file.\<close>

lemma race_publishes:
  assumes "store_wf st" "staged_file st d i xs w"
  shows "\<exists>w'. remaining st d bs (if os_durability st = Synced then WSync i else WStat) w = (Inr d, w') \<and> published st d i xs w'"
proof -
  let ?s = "staging_path st d" and ?o = "object_path st d"
  have sealed: "\<exists>w'. bnd (seal_and_commit st d ?s) (\<lambda>_. ret d) v = (Inr d, w') \<and> published st d i xs w'"
    if v: "staged_file st d i xs v" for v
  proof -
    let ?v1 = "v\<lparr>tick := Suc (tick v)\<rparr>"
    let ?x = "(inos v i)\<lparr>ino_mode := OBJECT_MODE\<rparr>"
    let ?v2 = "set_ino i ?x (v\<lparr>tick := Suc (Suc (tick v))\<rparr>)"
    have f: "ent v ?s = Some (DFile i)" "ino_data (inos v i) = xs" "quiet v" using v by (simp_all add: staged_file_def staged_open_def)
    have 1: "fs_metadata ?s v = (Inr (inos v i), ?v1)" using f quiet_calls(3) by blast
    have 2: "set_permissions ?s OBJECT_MODE ?v1 = (Inr (), ?v2)"
      using f file_at_Inr [of ?v1 ?s i] by (auto simp: set_permissions_def quiet_sys)
    have dir: "ent ?v2 (butlast (butlast ?o)) = Some DDir" "ent ?v2 (butlast ?o) \<in> {None, Some DDir}" "butlast ?o \<noteq> []"
      using v by (auto simp: staged_file_def staged_open_def object_parent(1) butlast_append)
    have q2: "quiet ?v2" using f(3) by (simp add: quiet_def)
    obtain v3 where 3: "create_dir_all (butlast ?o) ?v2 = (Inr (), v3)" "quiet v3" "inos v3 = inos ?v2"
      "ent v3 = (ent v)(butlast ?o \<mapsto> DDir)"
    proof (rule that)
      show "create_dir_all (butlast ?o) ?v2 = (Inr (), snd (create_dir_all (butlast ?o) ?v2))"
        "quiet (snd (create_dir_all (butlast ?o) ?v2))" "inos (snd (create_dir_all (butlast ?o) ?v2)) = inos ?v2"
        "ent (snd (create_dir_all (butlast ?o) ?v2)) = (ent v)(butlast ?o \<mapsto> DDir)"
        using quiet_create_dir_all [OF q2 dir(1,3,2)] dir(2,3) q2 by (auto simp: quiet_def fun_eq_iff)
    qed
    let ?v4 = "set_ent ?o (DFile i) (del_ent ?s (v3\<lparr>tick := Suc (tick v3)\<rparr>))"
    have o: "ent v3 ?s = Some (DFile i)" "ent v3 ?o = None" "ent v3 (butlast ?o) = Some DDir"
      using v store_paths [OF assms(1)] store_paths(3,4) [OF assms(1), symmetric]
      by (simp_all add: 3(4) staged_file_def staged_open_def)
    have "parent_err (v3\<lparr>tick := Suc (tick v3)\<rparr>) ?o = None" using o(3) object_parent(2) by (simp add: parent_err_None)
    then have 4: "rename ?s ?o v3 = (Inr (), ?v4)" using o 3(2) by (simp add: rename_def quiet_sys)
    have p: "published st d i xs (?v4\<lparr>tick := n\<rparr>)" if "tick v3 \<le> n" for n
      using 3(2,3) f(2) that store_paths(1) [OF assms(1), of d d] object_parent(2) [of st d] staging_parent(2) [of st d]
      by (simp add: published_def quiet_def)
    have q4: "quiet ?v4" using 3(2) by (simp add: quiet_def)
    obtain n where n: "commit_object st d ?s v3 = (Inr (), ?v4\<lparr>tick := n\<rparr>)" "tick v3 \<le> n"
    proof (cases "os_durability st = Synced")
      case True
      have "ent ?v4 (butlast ?o) = Some DDir"
        using o(3) store_paths(3) [OF assms(1)] store_paths(4) [OF assms(1)] by simp
      then have 5: "open_dir (butlast ?o) ?v4 = (Inr (), ?v4\<lparr>tick := Suc (tick ?v4)\<rparr>)"
        using q4 by (simp only: open_dir_def quiet_sys [OF q4] ent_simps) simp
      have "quiet (?v4\<lparr>tick := Suc (tick ?v4)\<rparr>)" using quiet_tick [OF q4, of "Suc (tick ?v4)"] by simp
      then have "sync_all 0 (?v4\<lparr>tick := Suc (tick ?v4)\<rparr>) = (Inr (), ?v4\<lparr>tick := Suc (Suc (tick ?v4))\<rparr>)"
        by (simp only: sync_all_def quiet_sys ret_def) simp
      then show thesis
        using that [of "Suc (Suc (tick ?v4))"] 4 5 True
        by (simp add: commit_object_def Let_def try_with_def ignore_def ret_def)
    next
      case False
      then show thesis using that [of "tick ?v4"] 4 by (simp add: commit_object_def Let_def try_with_def ret_def)
    qed
    have "bnd (seal_and_commit st d ?s) (\<lambda>_. ret d) v = (Inr d, ?v4\<lparr>tick := n\<rparr>)"
      using 1 2 3(1) n(1) by (simp add: seal_and_commit_def Let_def bnd_assoc bnd_cas_io) (simp add: bnd_def try_with_def ret_def)
    then show ?thesis using p [OF n(2)] by blast
  qed
  show ?thesis
  proof (cases "os_durability st = Synced")
    case True
    have "sync_all i w = (Inr (), w\<lparr>tick := Suc (tick w)\<rparr>)"
      using staged_quiet(2) [OF assms(2)] by (simp add: sync_all_def quiet_sys ret_def)
    then show ?thesis using sealed [OF staged_file_tick [OF assms(2), of "Suc (tick w)"]] True
      by (simp add: Let_def bnd_cas_io)
  next
    case False
    then show ?thesis using sealed [OF assms(2)] by simp
  qed
qed

text \<open>The second writer, when it goes on, writes to the file that is published, and fails.\<close>

lemma race_over:
  assumes "published st d i [] w"
  shows "\<exists>w'. run_schedule (writer_step st) [(d, bs), (d, bs)] [1, 1, 1] ([WDone (Inr d), WWrite i], w) =
    ([WDone (Inr d), wfail ''stat staging file'' (staging_path st d) ENOENT], w') \<and> content w' (object_path st d) = Some bs"
proof -
  let ?s = "staging_path st d" and ?after = "if os_durability st = Synced then WSync i else WStat"
  let ?w1 = "put_data i bs (w\<lparr>tick := Suc (tick w)\<rparr>)"
  have f: "quiet w" "ent w (object_path st d) = Some (DFile i)" "ent w ?s = None" "ino_data (inos w i) = []"
    using assms by (simp_all add: published_def)
  have q1: "quiet ?w1" using f(1) by (simp add: quiet_def put_data_def)
  have e1: "ent ?w1 p = ent w p" "content (?w1\<lparr>tick := n\<rparr>) (object_path st d) = Some bs" for p n
    using f by (simp_all add: put_data_def content_def overwrite_def)
  have 1: "writer_step st (d, bs) (WWrite i) w = (?after, ?w1)"
    using f(1) by (simp add: quiet_step write_start_def)
  have 2: "writer_step st (d, bs) WStat v = (wfail ''stat staging file'' ?s ENOENT, v\<lparr>tick := Suc (tick v)\<rparr>)"
    if "quiet v" "ent v ?s = None" for v
    using that by (simp add: quiet_step fs_metadata_def file_at_def)
  have 3: "writer_step st (d, bs) (WSync i) ?w1 = (WStat, ?w1\<lparr>tick := Suc (tick ?w1)\<rparr>)"
    using q1 by (simp add: quiet_step sync_all_def)
  have 4: "writer_step st (d, bs) (wfail op q e) v = (wfail op q e, v)" for op q e v by (simp add: wfail_def)
  have q2: "quiet (?w1\<lparr>tick := Suc (tick ?w1)\<rparr>)" using q1 by (simp add: quiet_def)
  show ?thesis
    using e1 f(3) by (auto simp: sched_step_def 1 3 4 2 [OF q1] 2 [OF q2] simp del: writer_step.simps)
qed

section \<open>Properties\<close>

text \<open>C3: Writers of blobs with pairwise different digests, under any schedule of their calls and
  with any call failing: at every moment every object in the store is complete and read-only
  and a plain read returns the bytes its name is the digest of; nothing outside the store's
  directory changes and no object disappears; a writer that reports success has its object in
  the store; and a writer given eleven turns has finished, whatever the others do.\<close>

theorem concurrent_inserts_are_safe:
  assumes "store_wf st" "store_inv st w" "distinct (map (blob_digest (os_b3 st)) bss)"
    "insert_concurrently st bss sched w = (ps, w')"
  shows "store_inv st w' \<and> evolves st w w' \<and>
    (\<forall>d bs w''. wf_digest d \<longrightarrow> get_bytes st d w' = (Inr bs, w'') \<longrightarrow> object_hash (os_b3 st) bs d) \<and>
    (\<forall>k < length bss.
       (\<forall>x. ps ! k = WDone (Inr x) \<longrightarrow>
          x = blob_digest (os_b3 st) (bss ! k) \<and> ent w' (object_path st x) \<noteq> None) \<and>
       (11 \<le> count_list sched k \<longrightarrow> (\<exists>r. ps ! k = WDone r)))"
proof -
  let ?ids = "blob_writers st bss"
  note apart = blob_writers_apart [OF assms(1,3)]
  note run = assms(4) [unfolded insert_concurrently_def]
  have ready: "all_at (store_inv st) (writer_at st) ?ids (ps, w')"
    using writers.ready_run [OF apart blob_writers_ready [OF assms(2)], of sched] run by simp
  have "evolves st w w'"
    using writers.run_preserves [OF apart, of "evolves st" "(map (\<lambda>_. WHas) bss, w)" sched]
      blob_writers_ready [OF assms(2)] evolves_trans run
    by (simp add: writer_guarantee_def) blast
  moreover have "store_inv st w'" using ready by (simp add: all_at_def)
  moreover have "x = blob_digest (os_b3 st) (bss ! k) \<and> ent w' (object_path st x) \<noteq> None"
    if "k < length bss" "ps ! k = WDone (Inr x)" for k x
  proof -
    have "writer_at st (blob_digest (os_b3 st) (bss ! k), bss ! k) (WDone (Inr x)) w'"
      using ready that by (auto simp: all_at_def blob_writers_def)
    then show ?thesis by simp
  qed
  moreover have "\<exists>r. ps ! k = WDone r" if "k < length bss" "11 \<le> count_list sched k" for k
    using run_schedule_calls_left [OF _ _ run, of k] that calls_left_0 by (simp add: blob_writers_def)
  ultimately show ?thesis using store_inv_read by blast
qed

lemma example_concurrent:
  "fst (insert_concurrently example_store [[1], [2, 3]] [0, 1, 1, 0, 0, 1, 1, 0, 0, 1, 0, 1, 0, 1] example_src_world) =
     [WDone (Inr (blob_digest blake3_ref [1])), WDone (Inr (blob_digest blake3_ref [2, 3]))]"
  by code_simp

theorem concurrent_inserts_are_safe_witness:
  "\<exists>w'. store_inv example_store w' \<and>
     ent w' (object_path example_store (blob_digest blake3_ref [1])) \<noteq> None \<and>
     ent w' (object_path example_store (blob_digest blake3_ref [2, 3])) \<noteq> None"
proof -
  let ?run = "insert_concurrently example_store [[1], [2, 3]] [0, 1, 1, 0, 0, 1, 1, 0, 0, 1, 0, 1, 0, 1] example_src_world"
  have b: "os_b3 example_store = blake3_ref" by (simp add: example_store_def)
  have dist: "distinct (map (blob_digest (os_b3 example_store)) [[1], [2, 3]])" unfolding b by code_simp
  have "?run = (fst ?run, snd ?run)" by simp
  note S = concurrent_inserts_are_safe [OF example_store_ok dist this, unfolded example_concurrent b]
  have "ent (snd ?run) (object_path example_store (blob_digest blake3_ref ([[1], [2, 3]] ! k))) \<noteq> None"
    if "k < 2" for k
    using S that by (auto simp: less_2_cases_iff)
  from this [of 0] this [of 1] S show ?thesis by auto
qed

text \<open>C37: Two writers of the same bytes are not safe, although no call fails. In any store without the object and
  without a staging file of its name, the second writer may open the staging file between the write and the commit of the
  first. The first then reports success, and the object is an empty file, whatever the bytes. Inserting the bytes again
  reports success and changes neither names nor contents. The second writer, when it goes on, fills the file that is already
  published and sealed, and then fails, because its staging file is gone.\<close>

theorem same_bytes_race:
  assumes "store_wf st" "store_inv st w" "quiet w" "d = blob_digest (os_b3 st) bs"
    "ent w (object_path st d) = None" "ent w (staging_path st d) = None"
    "ent w (os_objects st @ [fanout d]) \<in> {None, Some DDir}"
  shows "\<exists>i w1 w2 w3.
     insert_concurrently st [bs, bs] ([0, 0, 0, 1, 1] @ replicate 8 0) w = ([WDone (Inr d), WWrite i], w1) \<and>
     content w1 (object_path st d) = Some [] \<and>
     put_bytes st bs w1 = (Inr d, w2) \<and> ents w2 = ents w1 \<and> inos w2 = inos w1 \<and>
     insert_concurrently st [bs, bs] ([0, 0, 0, 1, 1] @ replicate 8 0 @ [1, 1, 1]) w =
       ([WDone (Inr d), wfail ''stat staging file'' (staging_path st d) ENOENT], w3) \<and>
     content w3 (object_path st d) = Some bs"
proof -
  let ?ids = "[(d, bs), (d, bs)]" and ?i = "next_ino w"
  let ?mid = "if os_durability st = Synced then WSync ?i else WStat"
  have run: "insert_concurrently st [bs, bs] sched w = run_schedule (writer_step st) ?ids sched ([WHas, WHas], w)" for sched
    by (simp add: insert_concurrently_def blob_writers_def assms(4))
  have "staged_open st d w" using assms(2,3,5,7) by (simp add: staged_open_def store_inv_def)
  then obtain w0 where 0: "run_schedule (writer_step st) ?ids [0, 0, 0, 1, 1] ([WHas, WHas], w) = ([?mid, WWrite ?i], w0)"
    "staged_file st d ?i [] w0"
    using race_begins [OF assms(1) _ assms(6)] by blast
  obtain w1 where r: "remaining st d bs ?mid w0 = (Inr d, w1)" and p: "published st d ?i [] w1"
    using race_publishes [OF assms(1) 0(2)] by blast
  have 1: "run_schedule (writer_step st) ?ids (replicate 8 0) ([?mid, WWrite ?i], w0) = ([WDone (Inr d), WWrite ?i], w1)"
    using writer_run_at [of 0 ?ids d bs "[?mid, WWrite ?i]" 8 st w0] r by simp
  obtain w3 where 3: "run_schedule (writer_step st) ?ids [1, 1, 1] ([WDone (Inr d), WWrite ?i], w1) =
      ([WDone (Inr d), wfail ''stat staging file'' (staging_path st d) ENOENT], w3)" "content w3 (object_path st d) = Some bs"
    using race_over [OF p] by blast
  have "put_bytes st bs w1 = (Inr d, w1\<lparr>tick := Suc (tick w1)\<rparr>)"
    using p unfolding put_bytes_def Let_def assms(4) [symmetric]
    by (simp add: published_def has_def exists_path_def quiet_step bnd_def)
  moreover have "content w1 (object_path st d) = Some []" using p by (simp add: published_def content_def)
  ultimately show ?thesis unfolding run run_schedule_append 0(1) 1 using 3 by auto
qed

theorem same_bytes_race_witness:
  "\<exists>i w1. insert_concurrently example_store [[7], [7]] ([0, 0, 0, 1, 1] @ replicate 8 0) example_src_world =
      ([WDone (Inr (blob_digest blake3_ref [7])), WWrite i], w1) \<and>
    content w1 (object_path example_store (blob_digest blake3_ref [7])) = Some []"
proof -
  have b: "os_b3 example_store = blake3_ref" by (simp add: example_store_def)
  have q: "quiet example_src_world" by (simp add: quiet_def example_src_world_def)
  have n: "ent example_src_world (object_path example_store (blob_digest blake3_ref [7])) = None"
    "ent example_src_world (staging_path example_store (blob_digest blake3_ref [7])) = None"
    "ent example_src_world (os_objects example_store @ [fanout (blob_digest blake3_ref [7])]) = None"
    by code_simp+
  show ?thesis
    using same_bytes_race [OF example_store_ok q, of "blob_digest blake3_ref [7]" "[7]"] n unfolding b by fastforce
qed

end
