(* ===== verification/Jet_Ids.thy ===== *)
theory Jet_Ids
  imports Jet_Prelude
begin

text \<open>
  Typed identifiers (\<open>crates/jet-core/src/id.rs\<close>). The macro \<open>typed_id!\<close> declares fourteen
  newtypes over a ULID, each with a prefix; its functions are written once here over the
  prefix, and the newtypes are datatypes of their own, so that an organization id is not a
  project id. The crate \<open>ulid\<close> is the parameter \<open>ulid_crate\<close>; \<open>ulid_ok\<close> states its
  documentation: the canonical form is 26 characters of Crockford base 32, and parsing
  inverts it and accepts nothing of another length.
\<close>

type_synonym ulid = "128 word"

record ulid_crate =
  ulid_to_string :: "ulid \<Rightarrow> string"
  ulid_from_string :: "string \<Rightarrow> ulid option"
  ulid_timestamp_ms :: "ulid \<Rightarrow> 64 word"

definition crockford :: string where
  "crockford = ''0123456789ABCDEFGHJKMNPQRSTVWXYZ''"

definition ulid_ok :: "ulid_crate \<Rightarrow> bool" where
  "ulid_ok u \<longleftrightarrow>
     (\<forall>x. ulid_from_string u (ulid_to_string u x) = Some x) \<and>
     (\<forall>x. set (ulid_to_string u x) \<subseteq> set crockford) \<and>
     (\<forall>s x. ulid_from_string u s = Some x \<longrightarrow> length s = 26)"

section \<open>Identifier types\<close>

datatype org_id = OrgId ulid
datatype user_id = UserId ulid
datatype team_id = TeamId ulid
datatype project_id = ProjectId ulid
datatype pipeline_id = PipelineId ulid
datatype run_id = RunId ulid
datatype step_id = StepId ulid
datatype service_account_id = ServiceAccountId ulid
datatype role_id = RoleId ulid
datatype token_id = TokenId ulid
datatype invitation_id = InvitationId ulid
datatype worker_id = WorkerId ulid
datatype volume_id = VolumeId ulid
datatype secret_id = SecretId ulid

datatype id_kind = KOrg | KUser | KTeam | KProject | KPipeline | KRun | KStep | KServiceAccount | KRole | KToken | KInvitation | KWorker | KVolume | KSecret

fun PREFIX :: "id_kind \<Rightarrow> string" where
  "PREFIX KOrg = ''org''"
| "PREFIX KUser = ''user''"
| "PREFIX KTeam = ''team''"
| "PREFIX KProject = ''proj''"
| "PREFIX KPipeline = ''pipe''"
| "PREFIX KRun = ''run''"
| "PREFIX KStep = ''step''"
| "PREFIX KServiceAccount = ''sa''"
| "PREFIX KRole = ''role''"
| "PREFIX KToken = ''tok''"
| "PREFIX KInvitation = ''inv''"
| "PREFIX KWorker = ''wrk''"
| "PREFIX KVolume = ''vol''"
| "PREFIX KSecret = ''sec''"

datatype IdParseError = IdParseError string string

definition id_to_canonical :: "ulid_crate \<Rightarrow> ulid \<Rightarrow> string" where
  "id_to_canonical u x = ulid_to_string u x"

definition id_created_at_ms :: "ulid_crate \<Rightarrow> ulid \<Rightarrow> 64 word" where
  "id_created_at_ms u x = ulid_timestamp_ms u x"

definition id_display :: "ulid_crate \<Rightarrow> ulid \<Rightarrow> string" where
  "id_display u x = ulid_to_string u x"

definition id_debug :: "ulid_crate \<Rightarrow> id_kind \<Rightarrow> ulid \<Rightarrow> string" where
  "id_debug u k x = PREFIX k @ ''_'' @ ulid_to_string u x"

definition id_from_str :: "ulid_crate \<Rightarrow> id_kind \<Rightarrow> string \<Rightarrow> IdParseError + ulid" where
  "id_from_str u k s =
     (let bare = unwrap_or (strip_prefix (PREFIX k @ ''_'') s) s in
      case ulid_from_string u bare of
        None \<Rightarrow> Inl (IdParseError (PREFIX k) s)
      | Some x \<Rightarrow> Inr x)"

section \<open>A reference instance\<close>

text \<open>Big-endian base 32 in 26 digits, the first of which holds the top three bits.\<close>

fun base32 :: "nat \<Rightarrow> nat \<Rightarrow> string" where
  "base32 0 n = []"
| "base32 (Suc k) n = base32 k (n div 32) @ [crockford ! (n mod 32)]"

definition base32_digit :: "char \<Rightarrow> nat option" where
  "base32_digit c = (if c \<in> set crockford
     then Some (length (takeWhile (\<lambda>d. d \<noteq> c) crockford)) else None)"

fun base32_val :: "nat \<Rightarrow> string \<Rightarrow> nat option" where
  "base32_val a [] = Some a"
| "base32_val a (c # s) =
     (case base32_digit c of None \<Rightarrow> None | Some d \<Rightarrow> base32_val (a * 32 + d) s)"

definition ulid_ref :: ulid_crate where
  "ulid_ref = \<lparr>ulid_to_string = (\<lambda>x. base32 26 (unat x)),
     ulid_from_string = (\<lambda>s. if length s = 26 then map_option of_nat (base32_val 0 s) else None),
     ulid_timestamp_ms = (\<lambda>x. of_nat (unat x div 2 ^ 80))\<rparr>"

lemma length_base32 [simp]: "length (base32 k n) = k"
  by (induction k arbitrary: n) simp_all

lemma base32_val_append:
  "base32_val a (s @ t) = (case base32_val a s of None \<Rightarrow> None | Some b \<Rightarrow> base32_val b t)"
  by (induction s arbitrary: a) (simp_all split: option.splits)

lemma base32_digit_all: "list_all (\<lambda>n. base32_digit (crockford ! n) = Some n) [0..<32]"
  by code_simp

lemma base32_digit_nth: "n < 32 \<Longrightarrow> base32_digit (crockford ! n) = Some n"
  using base32_digit_all by (simp add: list_all_iff)

lemma base32_val_base32: "base32_val 0 (base32 k n) = Some (n mod 32 ^ k)"
proof (induction k arbitrary: n)
  case 0
  then show ?case by simp
next
  case (Suc k)
  have "n mod 32 + 32 * (n div 32 mod 32 ^ k) = n mod 32 ^ Suc k"
    by (simp add: mod_mult2_eq)
  then show ?case
    by (simp add: Suc.IH base32_val_append base32_digit_nth algebra_simps)
qed

lemma set_base32: "set (base32 k n) \<subseteq> set crockford"
proof (induction k arbitrary: n)
  case (Suc k)
  have "n mod 32 < length crockford" by (simp add: crockford_def)
  then have "crockford ! (n mod 32) \<in> set crockford" by (rule nth_mem)
  with Suc show ?case by auto
qed simp

lemma ulid_ref_ok: "ulid_ok ulid_ref"
proof -
  have bound: "unat (x :: 128 word) mod 32 ^ 26 = unat x" for x
    using unsigned_less [of x, where 'a = nat] by simp
  have "base32_val 0 (base32 26 (unat x)) = Some (unat x)" for x :: "128 word"
    using base32_val_base32 [of 26 "unat x"] by (simp only: bound)
  then show ?thesis
    using set_base32 by (auto simp: ulid_ok_def ulid_ref_def split: if_splits)
qed

section \<open>Lemmas\<close>

lemma ulid_to_string_inject:
  "ulid_ok u \<Longrightarrow> ulid_to_string u x = ulid_to_string u y \<longleftrightarrow> x = y"
  by (metis option.inject ulid_ok_def)

lemma canonical_no_underscore: "ulid_ok u \<Longrightarrow> CHR ''_'' \<notin> set (ulid_to_string u x)"
proof -
  assume "ulid_ok u"
  then have "set (ulid_to_string u x) \<subseteq> set crockford" by (simp add: ulid_ok_def)
  moreover have "CHR ''_'' \<notin> set crockford" by (simp add: crockford_def)
  ultimately show ?thesis by blast
qed

lemma strip_prefix_canonical:
  "ulid_ok u \<Longrightarrow> strip_prefix (p @ ''_'') (ulid_to_string u x) = None"
  using canonical_no_underscore [of u x]
  by (auto simp: strip_prefix_None_iff)

lemma id_from_str_canonical: "ulid_ok u \<Longrightarrow> id_from_str u k (id_to_canonical u x) = Inr x"
  by (simp add: id_from_str_def id_to_canonical_def strip_prefix_canonical ulid_ok_def)

lemma id_from_str_debug: "ulid_ok u \<Longrightarrow> id_from_str u k (id_debug u k x) = Inr x"
  using strip_prefix_append [of "PREFIX k @ ''_''" "ulid_to_string u x"]
  by (simp add: id_from_str_def id_debug_def ulid_ok_def)

lemma strip_other_prefix:
  "k \<noteq> k' \<Longrightarrow> strip_prefix (PREFIX k @ ''_'') (PREFIX k' @ ''_'' @ s) = None"
  by (cases k; cases k') simp_all

lemma id_from_str_other:
  assumes "ulid_ok u" "k \<noteq> k'"
  shows "id_from_str u k (id_debug u k' x) = Inl (IdParseError (PREFIX k) (id_debug u k' x))"
proof -
  have len: "length (ulid_to_string u x) = 26"
    using assms(1) by (auto simp: ulid_ok_def)
  have "PREFIX k' @ ''_'' \<noteq> []" by simp
  then have "length (id_debug u k' x) \<noteq> 26"
    by (simp add: id_debug_def len)
  then have "ulid_from_string u (id_debug u k' x) = None"
    using assms(1) by (cases "ulid_from_string u (id_debug u k' x)") (auto simp: ulid_ok_def)
  then show ?thesis
    using strip_other_prefix [OF assms(2)] by (simp add: id_from_str_def id_debug_def)
qed

section \<open>Properties\<close>

text \<open>Identifiers parse back from their canonical and from their prefixed log form, and
  the prefixed form of one kind of identifier is refused by the parser of every other kind,
  so a pasted organization id never parses as a project id.\<close>

theorem id_roundtrip_and_kind_safety:
  assumes "ulid_ok u"
  shows "id_from_str u k (id_to_canonical u x) = Inr x \<and>
    id_from_str u k (id_debug u k x) = Inr x \<and>
    (\<forall>k'. k' \<noteq> k \<longrightarrow>
       id_from_str u k (id_debug u k' x) = Inl (IdParseError (PREFIX k) (id_debug u k' x)))"
  using assms by (simp add: id_from_str_canonical id_from_str_debug id_from_str_other)

theorem id_roundtrip_and_kind_safety_witness:
  "id_from_str ulid_ref KProject (id_debug ulid_ref KProject 5) = Inr 5 \<and>
   \<not> is_ok (id_from_str ulid_ref KProject (id_debug ulid_ref KOrg 5))"
  using id_roundtrip_and_kind_safety [OF ulid_ref_ok, of KProject 5] by simp

end
