(* ===== verification/Jet_Permission.thy ===== *)
theory Jet_Permission
  imports Jet_Ids
begin

text \<open>
  Authorization values (\<open>crates/jet-core/src/authz.rs\<close>): permissions and their names,
  principals, scopes with their lineage, and the permission sets of the built-in roles.
  Scopes are compared through canonical id strings, so the functions that read them take
  the \<open>ulid_crate\<close> parameter.
\<close>

section \<open>Permissions\<close>

datatype Permission =
    OrgRead | OrgManage | MemberInvite | MemberRemove | TeamManage
  | RoleManage | BillingManage | ProjectCreate | ProjectRead | ProjectManage
  | PipelineRead | PipelineWrite | PipelineRun | RunRead | RunCancel
  | LogRead | SecretWrite | SecretRead | CacheRead | CachePurge
  | WorkerRead | WorkerAdmin | TokenManage | AuditRead

definition Permission_ALL :: "Permission list" where
  "Permission_ALL =
     [OrgRead, OrgManage, MemberInvite, MemberRemove, TeamManage,
      RoleManage, BillingManage, ProjectCreate, ProjectRead, ProjectManage,
      PipelineRead, PipelineWrite, PipelineRun, RunRead, RunCancel,
      LogRead, SecretWrite, SecretRead, CacheRead, CachePurge,
      WorkerRead, WorkerAdmin, TokenManage, AuditRead]"

fun perm_as_str :: "Permission \<Rightarrow> string" where
  "perm_as_str OrgRead = ''org.read''"
| "perm_as_str OrgManage = ''org.manage''"
| "perm_as_str MemberInvite = ''member.invite''"
| "perm_as_str MemberRemove = ''member.remove''"
| "perm_as_str TeamManage = ''team.manage''"
| "perm_as_str RoleManage = ''role.manage''"
| "perm_as_str BillingManage = ''billing.manage''"
| "perm_as_str ProjectCreate = ''project.create''"
| "perm_as_str ProjectRead = ''project.read''"
| "perm_as_str ProjectManage = ''project.manage''"
| "perm_as_str PipelineRead = ''pipeline.read''"
| "perm_as_str PipelineWrite = ''pipeline.write''"
| "perm_as_str PipelineRun = ''pipeline.run''"
| "perm_as_str RunRead = ''run.read''"
| "perm_as_str RunCancel = ''run.cancel''"
| "perm_as_str LogRead = ''log.read''"
| "perm_as_str SecretWrite = ''secret.write''"
| "perm_as_str SecretRead = ''secret.read''"
| "perm_as_str CacheRead = ''cache.read''"
| "perm_as_str CachePurge = ''cache.purge''"
| "perm_as_str WorkerRead = ''worker.read''"
| "perm_as_str WorkerAdmin = ''worker.admin''"
| "perm_as_str TokenManage = ''token.manage''"
| "perm_as_str AuditRead = ''audit.read''"

datatype UnknownPermission = UnknownPermission string

definition perm_from_str :: "string \<Rightarrow> UnknownPermission + Permission" where
  "perm_from_str s = ok_or (find (\<lambda>p. perm_as_str p = s) Permission_ALL) (UnknownPermission s)"

text \<open>The derived order: declaration order.\<close>

fun perm_rank :: "Permission \<Rightarrow> nat" where
  "perm_rank OrgRead = 0"
| "perm_rank OrgManage = 1"
| "perm_rank MemberInvite = 2"
| "perm_rank MemberRemove = 3"
| "perm_rank TeamManage = 4"
| "perm_rank RoleManage = 5"
| "perm_rank BillingManage = 6"
| "perm_rank ProjectCreate = 7"
| "perm_rank ProjectRead = 8"
| "perm_rank ProjectManage = 9"
| "perm_rank PipelineRead = 10"
| "perm_rank PipelineWrite = 11"
| "perm_rank PipelineRun = 12"
| "perm_rank RunRead = 13"
| "perm_rank RunCancel = 14"
| "perm_rank LogRead = 15"
| "perm_rank SecretWrite = 16"
| "perm_rank SecretRead = 17"
| "perm_rank CacheRead = 18"
| "perm_rank CachePurge = 19"
| "perm_rank WorkerRead = 20"
| "perm_rank WorkerAdmin = 21"
| "perm_rank TokenManage = 22"
| "perm_rank AuditRead = 23"

lemma perm_rank_inject: "perm_rank p = perm_rank q \<Longrightarrow> p = q"
proof -
  have "map_of (map (\<lambda>p. (perm_rank p, p)) Permission_ALL) (perm_rank p) = Some p" for p
    by (cases p) (simp_all add: Permission_ALL_def)
  then show "perm_rank p = perm_rank q \<Longrightarrow> p = q" by (metis option.inject)
qed

instantiation Permission :: linorder
begin

definition less_eq_Permission :: "Permission \<Rightarrow> Permission \<Rightarrow> bool" where
  "p \<le> q \<longleftrightarrow> perm_rank p \<le> perm_rank q"

definition less_Permission :: "Permission \<Rightarrow> Permission \<Rightarrow> bool" where
  "p < q \<longleftrightarrow> perm_rank p < perm_rank q"

instance
  by standard (auto simp: less_eq_Permission_def less_Permission_def intro: perm_rank_inject)

end

section \<open>Principals\<close>

datatype PrincipalKind = PK_User | PK_Team | PK_ServiceAccount

fun principal_kind_as_str :: "PrincipalKind \<Rightarrow> string" where
  "principal_kind_as_str PK_User = ''user''"
| "principal_kind_as_str PK_Team = ''team''"
| "principal_kind_as_str PK_ServiceAccount = ''service_account''"

datatype Principal =
    PrincipalUser org_id user_id
  | PrincipalServiceAccount org_id service_account_id
  | PrincipalSystem org_id

fun principal_org :: "Principal \<Rightarrow> org_id" where
  "principal_org (PrincipalUser org _) = org"
| "principal_org (PrincipalServiceAccount org _) = org"
| "principal_org (PrincipalSystem org) = org"

fun principal_kind :: "Principal \<Rightarrow> PrincipalKind option" where
  "principal_kind (PrincipalUser _ _) = Some PK_User"
| "principal_kind (PrincipalServiceAccount _ _) = Some PK_ServiceAccount"
| "principal_kind (PrincipalSystem _) = None"

fun org_canonical :: "ulid_crate \<Rightarrow> org_id \<Rightarrow> string" where
  "org_canonical u (OrgId x) = id_to_canonical u x"

fun user_canonical :: "ulid_crate \<Rightarrow> user_id \<Rightarrow> string" where
  "user_canonical u (UserId x) = id_to_canonical u x"

fun service_account_canonical :: "ulid_crate \<Rightarrow> service_account_id \<Rightarrow> string" where
  "service_account_canonical u (ServiceAccountId x) = id_to_canonical u x"

fun project_canonical :: "ulid_crate \<Rightarrow> project_id \<Rightarrow> string" where
  "project_canonical u (ProjectId x) = id_to_canonical u x"

fun pipeline_canonical :: "ulid_crate \<Rightarrow> pipeline_id \<Rightarrow> string" where
  "pipeline_canonical u (PipelineId x) = id_to_canonical u x"

fun principal_id_string :: "ulid_crate \<Rightarrow> Principal \<Rightarrow> string option" where
  "principal_id_string u (PrincipalUser _ user) = Some (user_canonical u user)"
| "principal_id_string u (PrincipalServiceAccount _ sa) = Some (service_account_canonical u sa)"
| "principal_id_string u (PrincipalSystem _) = None"

fun is_system :: "Principal \<Rightarrow> bool" where
  "is_system (PrincipalSystem _) = True"
| "is_system _ = False"

section \<open>Scopes\<close>

datatype ScopeKind = SK_Org | SK_Project | SK_Pipeline

fun scope_kind_as_str :: "ScopeKind \<Rightarrow> string" where
  "scope_kind_as_str SK_Org = ''org''"
| "scope_kind_as_str SK_Project = ''project''"
| "scope_kind_as_str SK_Pipeline = ''pipeline''"

datatype Scope =
    ScopeOrg org_id
  | ScopeProject org_id project_id
  | ScopePipeline org_id project_id pipeline_id

fun scope_org :: "Scope \<Rightarrow> org_id" where
  "scope_org (ScopeOrg org) = org"
| "scope_org (ScopeProject org _) = org"
| "scope_org (ScopePipeline org _ _) = org"

fun scope_kind :: "Scope \<Rightarrow> ScopeKind" where
  "scope_kind (ScopeOrg _) = SK_Org"
| "scope_kind (ScopeProject _ _) = SK_Project"
| "scope_kind (ScopePipeline _ _ _) = SK_Pipeline"

fun lineage :: "ulid_crate \<Rightarrow> Scope \<Rightarrow> (ScopeKind \<times> string) list" where
  "lineage u (ScopeOrg org) = [(SK_Org, org_canonical u org)]"
| "lineage u (ScopeProject org project) =
     [(SK_Project, project_canonical u project), (SK_Org, org_canonical u org)]"
| "lineage u (ScopePipeline org project pipeline) =
     [(SK_Pipeline, pipeline_canonical u pipeline),
      (SK_Project, project_canonical u project),
      (SK_Org, org_canonical u org)]"

definition covered_by :: "ulid_crate \<Rightarrow> Scope \<Rightarrow> ScopeKind \<Rightarrow> string \<Rightarrow> bool" where
  "covered_by u s kind gid \<longleftrightarrow> list_ex (\<lambda>(k, i). k = kind \<and> i = gid) (lineage u s)"

section \<open>Built-in roles\<close>

datatype SystemRole = Owner | Admin | Maintainer | Developer | Viewer | Billing

definition SystemRole_ALL :: "SystemRole list" where
  "SystemRole_ALL = [Owner, Admin, Maintainer, Developer, Viewer, Billing]"

fun role_key :: "SystemRole \<Rightarrow> string" where
  "role_key Owner = ''owner''"
| "role_key Admin = ''admin''"
| "role_key Maintainer = ''maintainer''"
| "role_key Developer = ''developer''"
| "role_key Viewer = ''viewer''"
| "role_key Billing = ''billing''"

fun role_display_name :: "SystemRole \<Rightarrow> string" where
  "role_display_name Owner = ''Owner''"
| "role_display_name Admin = ''Admin''"
| "role_display_name Maintainer = ''Maintainer''"
| "role_display_name Developer = ''Developer''"
| "role_display_name Viewer = ''Viewer''"
| "role_display_name Billing = ''Billing''"

fun role_description :: "SystemRole \<Rightarrow> string" where
  "role_description Owner = ''Full control, including billing and secret values''"
| "role_description Admin = ''Full control except billing and revealing secret values''"
| "role_description Maintainer = ''Manage projects, pipelines, secrets and caches''"
| "role_description Developer = ''Run pipelines and read results''"
| "role_description Viewer = ''Read-only access''"
| "role_description Billing = ''Manage billing only''"

fun role_permissions :: "SystemRole \<Rightarrow> Permission list" where
  "role_permissions Owner = Permission_ALL"
| "role_permissions Admin =
     filter (\<lambda>p. p \<noteq> BillingManage \<and> p \<noteq> SecretRead) Permission_ALL"
| "role_permissions Maintainer =
     [OrgRead, ProjectCreate, ProjectRead, ProjectManage, PipelineRead, PipelineWrite,
      PipelineRun, RunRead, RunCancel, LogRead, SecretWrite, CacheRead, CachePurge, WorkerRead]"
| "role_permissions Developer =
     [OrgRead, ProjectRead, PipelineRead, PipelineRun, RunRead, RunCancel, LogRead, CacheRead]"
| "role_permissions Viewer = [OrgRead, ProjectRead, PipelineRead, RunRead, LogRead]"
| "role_permissions Billing = [OrgRead, BillingManage]"

section \<open>Lemmas\<close>

lemma Permission_ALL_complete [simp]: "p \<in> set Permission_ALL"
  by (cases p) (simp_all add: Permission_ALL_def)

lemma set_Permission_ALL [simp]: "set Permission_ALL = UNIV"
  by auto

lemma SystemRole_ALL_complete [simp]: "r \<in> set SystemRole_ALL"
  by (cases r) (simp_all add: SystemRole_ALL_def)

lemma perm_from_str_as_str [simp]: "perm_from_str (perm_as_str p) = Inr p"
  by (cases p) (simp_all add: perm_from_str_def Permission_ALL_def)

lemma perm_as_str_inject: "perm_as_str p = perm_as_str q \<longleftrightarrow> p = q"
  by (metis perm_from_str_as_str sum.inject(2))

lemma perm_from_str_Inr: "perm_from_str s = Inr p \<longleftrightarrow> s = perm_as_str p"
proof
  assume "perm_from_str s = Inr p"
  then have "find (\<lambda>p. perm_as_str p = s) Permission_ALL = Some p"
    by (simp add: perm_from_str_def ok_or_eq_Inr)
  then show "s = perm_as_str p" by (auto simp: find_Some_iff)
qed simp

lemma role_key_inject: "role_key r = role_key s \<longleftrightarrow> r = s"
  by (cases r; cases s) simp_all

lemma distinct_role_permissions: "distinct (role_permissions r)"
  by (cases r) (simp_all add: Permission_ALL_def)

lemma canonical_inject [simp]:
  assumes "ulid_ok u"
  shows "org_canonical u o1 = org_canonical u o2 \<longleftrightarrow> o1 = o2"
    and "project_canonical u p1 = project_canonical u p2 \<longleftrightarrow> p1 = p2"
    and "pipeline_canonical u l1 = pipeline_canonical u l2 \<longleftrightarrow> l1 = l2"
    and "user_canonical u u1 = user_canonical u u2 \<longleftrightarrow> u1 = u2"
    and "service_account_canonical u s1 = service_account_canonical u s2 \<longleftrightarrow> s1 = s2"
  subgoal by (cases o1; cases o2) (simp add: id_to_canonical_def ulid_to_string_inject [OF assms])
  subgoal by (cases p1; cases p2) (simp add: id_to_canonical_def ulid_to_string_inject [OF assms])
  subgoal by (cases l1; cases l2) (simp add: id_to_canonical_def ulid_to_string_inject [OF assms])
  subgoal by (cases u1; cases u2) (simp add: id_to_canonical_def ulid_to_string_inject [OF assms])
  subgoal by (cases s1; cases s2) (simp add: id_to_canonical_def ulid_to_string_inject [OF assms])
  done

lemma covered_by_iff: "covered_by u s kind gid \<longleftrightarrow> (kind, gid) \<in> set (lineage u s)"
  by (auto simp: covered_by_def list_ex_iff)

lemma lineage_not_Nil [simp]: "lineage u s \<noteq> []"
  by (cases s) simp_all

text \<open>The scopes above a scope, itself included, and the string a grant at a scope names.\<close>

fun ancestors :: "Scope \<Rightarrow> Scope set" where
  "ancestors (ScopeOrg org) = {ScopeOrg org}"
| "ancestors (ScopeProject org project) = {ScopeProject org project, ScopeOrg org}"
| "ancestors (ScopePipeline org project pipeline) =
     {ScopePipeline org project pipeline, ScopeProject org project, ScopeOrg org}"

definition grant_id :: "ulid_crate \<Rightarrow> Scope \<Rightarrow> string" where
  "grant_id u s = snd (hd (lineage u s))"

text \<open>Two scopes speak of one hierarchy when a shared pipeline has one project in both and a
  shared project one organization.\<close>

fun scope_project :: "Scope \<Rightarrow> project_id option" where
  "scope_project (ScopeOrg _) = None"
| "scope_project (ScopeProject _ project) = Some project"
| "scope_project (ScopePipeline _ project _) = Some project"

fun scope_pipeline :: "Scope \<Rightarrow> pipeline_id option" where
  "scope_pipeline (ScopePipeline _ _ pipeline) = Some pipeline"
| "scope_pipeline _ = None"

definition one_hierarchy :: "Scope \<Rightarrow> Scope \<Rightarrow> bool" where
  "one_hierarchy g s \<longleftrightarrow>
     (scope_pipeline g \<noteq> None \<and> scope_pipeline g = scope_pipeline s \<longrightarrow>
        scope_project g = scope_project s) \<and>
     (scope_project g \<noteq> None \<and> scope_project g = scope_project s \<longrightarrow>
        scope_org g = scope_org s)"

section \<open>Properties\<close>

text \<open>Permission names are a bijection onto the catalogue: every permission parses back
  from its name, a name parses only to the permission it is the name of, and \<open>ALL\<close> lists
  each of the permissions once.\<close>

theorem permission_names_roundtrip:
  "perm_from_str (perm_as_str p) = Inr p \<and>
   (perm_from_str s = Inr q \<longleftrightarrow> s = perm_as_str q) \<and>
   (s \<notin> range perm_as_str \<longrightarrow> perm_from_str s = Inl (UnknownPermission s)) \<and>
   distinct Permission_ALL \<and> set Permission_ALL = UNIV \<and> length Permission_ALL = 24"
proof -
  have "perm_from_str s = Inl (UnknownPermission s)" if "s \<notin> range perm_as_str"
    using that by (auto simp: perm_from_str_def ok_or_def find_Some_iff split: option.splits)
  then show ?thesis
    by (auto simp: perm_from_str_Inr) (simp_all add: Permission_ALL_def)
qed

theorem permission_names_roundtrip_witness:
  "perm_from_str ''not.a.permission'' = Inl (UnknownPermission ''not.a.permission'')"
proof -
  have "perm_as_str p \<noteq> ''not.a.permission''" for p
    by (cases p) simp_all
  then have "''not.a.permission'' \<notin> range perm_as_str" by (metis rangeE)
  then show ?thesis
    using permission_names_roundtrip [of _ "''not.a.permission''"] by blast
qed

text \<open>The built-in roles form a ladder from viewer to owner, each step adding permissions
  and removing none; \<open>SecretRead\<close> is the owner's alone, so holding \<open>SecretWrite\<close> never lets a
  role read secrets back; administrators lack exactly billing and secret reads; and the
  billing role can do nothing but read the organization and manage billing.\<close>

theorem system_role_matrix:
  "set (role_permissions Viewer) \<subset> set (role_permissions Developer) \<and>
   set (role_permissions Developer) \<subset> set (role_permissions Maintainer) \<and>
   set (role_permissions Maintainer) \<subset> set (role_permissions Admin) \<and>
   set (role_permissions Admin) \<subset> set (role_permissions Owner) \<and>
   (SecretRead \<in> set (role_permissions r) \<longleftrightarrow> r = Owner) \<and>
   set (role_permissions Admin) = UNIV - {BillingManage, SecretRead} \<and>
   set (role_permissions Billing) = {OrgRead, BillingManage} \<and>
   distinct (role_permissions r)"
proof -
  have "(SecretRead \<in> set (role_permissions r)) = (r = Owner)" by (cases r) simp_all
  moreover have "set (role_permissions Admin) = UNIV - {BillingManage, SecretRead}" by auto
  moreover have "set (role_permissions Maintainer) \<subset> UNIV - {BillingManage, SecretRead}"
    by (simp add: psubset_eq) (metis DiffI Diff_iff UNIV_I empty_iff insert_iff Permission.distinct)
  ultimately show ?thesis
    by (simp add: distinct_role_permissions) auto
qed

text \<open>Permissions flow down the hierarchy and nowhere else: within one hierarchy, a grant
  recorded at scope \<open>g\<close> covers a request at scope \<open>s\<close> exactly when \<open>g\<close> is \<open>s\<close> or an ancestor of
  \<open>s\<close>; in particular a project grant never covers its organization, nor a sibling project.\<close>

theorem grants_flow_down_only:
  assumes "ulid_ok u" and "one_hierarchy g s"
  shows "covered_by u s (scope_kind g) (grant_id u g) \<longleftrightarrow> g \<in> ancestors s"
  using assms
  by (cases g; cases s) (auto simp: covered_by_iff grant_id_def one_hierarchy_def)

theorem grants_flow_down_only_witness:
  "covered_by ulid_ref (ScopePipeline (OrgId 1) (ProjectId 2) (PipelineId 3)) SK_Project
     (grant_id ulid_ref (ScopeProject (OrgId 1) (ProjectId 2))) \<and>
   \<not> covered_by ulid_ref (ScopeOrg (OrgId 1)) SK_Project
     (grant_id ulid_ref (ScopeProject (OrgId 1) (ProjectId 2)))"
  using grants_flow_down_only [OF ulid_ref_ok, of "ScopeProject (OrgId 1) (ProjectId 2)"
      "ScopePipeline (OrgId 1) (ProjectId 2) (PipelineId 3)"]
    grants_flow_down_only [OF ulid_ref_ok, of "ScopeProject (OrgId 1) (ProjectId 2)"
      "ScopeOrg (OrgId 1)"]
  by (simp add: one_hierarchy_def)

end
