(* ===== verification/Jet_Db.thy ===== *)
theory Jet_Db
  imports Jet_Permission
begin

text \<open>
  The metadata store as far as authorization uses it: the tables of \<open>migrations/0001_core.sql\<close> and
  \<open>0002_authz.sql\<close> as lists of rows, statements that may fail, transactions
  (\<open>crates/jet-store/src/db.rs\<close>), and the seeding of the built-in roles
  (\<open>crates/jet-store/src/bootstrap.rs\<close>). \<open>sqlx\<close> and SQLite are not modelled beyond this: a statement
  fails, or it does what its SQL says; a transaction that is not committed changes nothing.
\<close>

section \<open>Tables\<close>

record RoleRow =
  ro_id :: string
  ro_org :: "string option"
  ro_key :: string
  ro_name :: string
  ro_description :: string
  ro_is_system :: bool
  ro_created_at :: int

record Assignment =
  ra_org_id :: string
  ra_principal_kind :: string
  ra_principal_id :: string
  ra_role_id :: string
  ra_scope_kind :: string
  ra_scope_id :: string

record Tables =
  t_permissions :: "string list"
  t_roles :: "RoleRow list"
  t_role_permissions :: "(string \<times> string) list"
  t_users :: "(string \<times> string) list"
  t_memberships :: "(string \<times> string \<times> string) list"
  t_service_accounts :: "(string \<times> string \<times> int option) list"
  t_teams :: "(string \<times> string) list"
  t_team_members :: "(string \<times> string) list"
  t_role_assignments :: "Assignment list"

datatype StoreError =
    Sqlx string
  | Migrate string
  | Fs string
  | StoreNotFound string string
  | Conflict string
  | StoreInvalid string

definition not_found :: "string \<Rightarrow> string \<Rightarrow> StoreError" where
  "not_found entity ident = StoreNotFound entity ident"

fun store_error_display :: "StoreError \<Rightarrow> string" where
  "store_error_display (Sqlx e) = ''database error: '' @ e"
| "store_error_display (Migrate e) = ''migration failed: '' @ e"
| "store_error_display (Fs e) = ''filesystem error: '' @ e"
| "store_error_display (StoreNotFound entity ident) = entity @ '' '' @ ident @ '' not found''"
| "store_error_display (Conflict e) = e"
| "store_error_display (StoreInvalid e) = ''invalid input: '' @ e"

text \<open>The database: its tables, and the fate of the coming statements.\<close>

record Db =
  db_tables :: Tables
  db_faults :: "string option list"

definition stmt :: "(Tables \<Rightarrow> string + 'a \<times> Tables) \<Rightarrow> (Db, StoreError, 'a) act" where
  "stmt f db =
     (case db_faults db of
        Some e # fs \<Rightarrow> (Inl (Sqlx e), db\<lparr>db_faults := fs\<rparr>)
      | fs \<Rightarrow>
          (case f (db_tables db) of
             Inl e \<Rightarrow> (Inl (Sqlx e), db\<lparr>db_faults := tl fs\<rparr>)
           | Inr (x, t) \<Rightarrow> (Inr x, db\<lparr>db_tables := t, db_faults := tl fs\<rparr>)))"

definition query :: "(Tables \<Rightarrow> 'a) \<Rightarrow> (Db, StoreError, 'a) act" where
  "query f = stmt (\<lambda>t. Inr (f t, t))"

text \<open>\<open>begin\<close>, the body, \<open>commit\<close>; an error on the way drops the transaction, which rolls it back.\<close>

definition transaction :: "(Db, StoreError, 'a) act \<Rightarrow> (Db, StoreError, 'a) act" where
  "transaction body db =
     (case abind (stmt (\<lambda>t. Inr ((), t))) (\<lambda>_. abind body (\<lambda>x. abind (stmt (\<lambda>t. Inr ((), t))) (\<lambda>_. aret x))) db of
        (Inr x, db') \<Rightarrow> (Inr x, db')
      | (Inl e, db') \<Rightarrow> (Inl e, db'\<lparr>db_tables := db_tables db\<rparr>))"

section \<open>Bootstrap\<close>

text \<open>\<open>INSERT OR IGNORE INTO roles\<close>: ignored when the id or the system key is taken.\<close>

definition insert_role_or_ignore :: "RoleRow \<Rightarrow> Tables \<Rightarrow> string + unit \<times> Tables" where
  "insert_role_or_ignore row t =
     Inr ((), if list_ex (\<lambda>r. ro_id r = ro_id row \<or> ro_org r = None \<and> ro_key r = ro_key row) (t_roles t) then t
              else t\<lparr>t_roles := t_roles t @ [row]\<rparr>)"

definition system_roles_with_key :: "string \<Rightarrow> Tables \<Rightarrow> string list" where
  "system_roles_with_key key t = map ro_id (filter (\<lambda>r. ro_org r = None \<and> ro_key r = key) (t_roles t))"

text \<open>\<open>fetch_one\<close> fails when there is no row.\<close>

definition select_role_id :: "string \<Rightarrow> Tables \<Rightarrow> string + string \<times> Tables" where
  "select_role_id key t =
     (case system_roles_with_key key t of [] \<Rightarrow> Inl ''no rows returned'' | i # _ \<Rightarrow> Inr (i, t))"

definition delete_role_permissions :: "string \<Rightarrow> Tables \<Rightarrow> string + unit \<times> Tables" where
  "delete_role_permissions rid t =
     Inr ((), t\<lparr>t_role_permissions := filter (\<lambda>e. fst e \<noteq> rid) (t_role_permissions t)\<rparr>)"

text \<open>The foreign key to \<open>permissions\<close> and the primary key are checked.\<close>

definition insert_role_permission :: "string \<Rightarrow> string \<Rightarrow> Tables \<Rightarrow> string + unit \<times> Tables" where
  "insert_role_permission rid pk t =
     (if pk \<notin> set (t_permissions t) then Inl ''FOREIGN KEY constraint failed''
      else if (rid, pk) \<in> set (t_role_permissions t) then Inl ''UNIQUE constraint failed''
      else Inr ((), t\<lparr>t_role_permissions := t_role_permissions t @ [(rid, pk)]\<rparr>))"

primrec insert_role_permissions :: "string \<Rightarrow> Permission list \<Rightarrow> (Db, StoreError, unit) act" where
  "insert_role_permissions rid [] = aret ()"
| "insert_role_permissions rid (p # ps) =
     abind (stmt (insert_role_permission rid (perm_as_str p))) (\<lambda>_. insert_role_permissions rid ps)"

definition system_row :: "string \<Rightarrow> int \<Rightarrow> SystemRole \<Rightarrow> RoleRow" where
  "system_row ident now role =
     \<lparr>ro_id = ident, ro_org = None, ro_key = role_key role, ro_name = role_display_name role,
      ro_description = role_description role, ro_is_system = True, ro_created_at = now\<rparr>"

text \<open>One turn of the loop; \<open>generate\<close> is the identifier drawn for the role.\<close>

definition seed_role :: "(SystemRole \<Rightarrow> string) \<Rightarrow> int \<Rightarrow> SystemRole \<Rightarrow> (Db, StoreError, unit) act" where
  "seed_role generate now role =
     abind (stmt (insert_role_or_ignore (system_row (generate role) now role))) (\<lambda>_.
     abind (stmt (select_role_id (role_key role))) (\<lambda>role_id.
     abind (stmt (delete_role_permissions role_id)) (\<lambda>_.
     insert_role_permissions role_id (role_permissions role))))"

primrec seed_roles :: "(SystemRole \<Rightarrow> string) \<Rightarrow> int \<Rightarrow> SystemRole list \<Rightarrow> (Db, StoreError, unit) act" where
  "seed_roles generate now [] = aret ()"
| "seed_roles generate now (r # rs) = abind (seed_role generate now r) (\<lambda>_. seed_roles generate now rs)"

fun debug_strs :: "string list \<Rightarrow> string" where
  "debug_strs [] = ''''"
| "debug_strs [x] = CHR 0x22 # x @ [CHR 0x22]"
| "debug_strs (x # xs) = (CHR 0x22 # x @ [CHR 0x22]) @ '', '' @ debug_strs xs"

definition verify_permission_catalog :: "(Db, StoreError, unit) act" where
  "verify_permission_catalog =
     abind (query t_permissions) (\<lambda>rows.
     let missing = filter (\<lambda>p. p \<notin> set rows) (map perm_as_str Permission_ALL) in
     if missing \<noteq> [] then
       athrow (StoreInvalid (''permission catalog is missing ['' @ debug_strs missing @
         '']; a migration is needed to add them''))
     else aret ())"

definition bootstrap :: "(SystemRole \<Rightarrow> string) \<Rightarrow> int \<Rightarrow> (Db, StoreError, unit) act" where
  "bootstrap generate now =
     abind verify_permission_catalog (\<lambda>_.
     transaction (seed_roles generate now SystemRole_ALL))"

definition system_role_id :: "SystemRole \<Rightarrow> (Db, StoreError, string) act" where
  "system_role_id role =
     abind (query (system_roles_with_key (role_key role))) (\<lambda>rows.
     case rows of [] \<Rightarrow> athrow (not_found ''system role'' (role_key role)) | i # _ \<Rightarrow> aret i)"

section \<open>The effect of one turn\<close>

definition sys_id :: "Tables \<Rightarrow> SystemRole \<Rightarrow> string option" where
  "sys_id t r = (case system_roles_with_key (role_key r) t of [] \<Rightarrow> None | i # _ \<Rightarrow> Some i)"

definition perms_of :: "Tables \<Rightarrow> string \<Rightarrow> string set" where
  "perms_of t rid = {p. (rid, p) \<in> set (t_role_permissions t)}"

text \<open>Ids are unique, there is one row per system key, permissions of roles are unique.\<close>

definition roles_wf :: "Tables \<Rightarrow> bool" where
  "roles_wf t \<longleftrightarrow> distinct (map ro_id (t_roles t)) \<and>
     (\<forall>r \<in> set (t_roles t). \<forall>s \<in> set (t_roles t). ro_org r = None \<longrightarrow> ro_org s = None \<longrightarrow> ro_key r = ro_key s \<longrightarrow> r = s) \<and>
     distinct (t_role_permissions t)"

definition catalog_complete :: "Tables \<Rightarrow> bool" where
  "catalog_complete t \<longleftrightarrow> (\<forall>p. perm_as_str p \<in> set (t_permissions t))"

definition with_perms :: "string \<Rightarrow> Permission list \<Rightarrow> Tables \<Rightarrow> Tables" where
  "with_perms rid ps t = t\<lparr>t_role_permissions :=
     filter (\<lambda>e. fst e \<noteq> rid) (t_role_permissions t) @ map (\<lambda>p. (rid, perm_as_str p)) ps\<rparr>"

definition with_role :: "RoleRow \<Rightarrow> Tables \<Rightarrow> Tables" where
  "with_role row t = (if list_ex (\<lambda>r. ro_id r = ro_id row \<or> ro_org r = None \<and> ro_key r = ro_key row) (t_roles t) then t
     else t\<lparr>t_roles := t_roles t @ [row]\<rparr>)"

lemma stmt_run: "db_faults db = [] \<Longrightarrow> stmt f db = (case f (db_tables db) of Inl e \<Rightarrow> (Inl (Sqlx e), db)
    | Inr (x, t) \<Rightarrow> (Inr x, db\<lparr>db_tables := t\<rparr>))"
  by (cases "f (db_tables db)") (auto simp: stmt_def split: sum.split)

lemma insert_role_permissions_run:
  assumes "db_faults db = []" "set (map perm_as_str ps) \<subseteq> set (t_permissions (db_tables db))" "distinct ps"
    "\<forall>p \<in> set ps. (rid, perm_as_str p) \<notin> set (t_role_permissions (db_tables db))"
  shows "insert_role_permissions rid ps db = (Inr (), db\<lparr>db_tables := (db_tables db)
    \<lparr>t_role_permissions := t_role_permissions (db_tables db) @ map (\<lambda>p. (rid, perm_as_str p)) ps\<rparr>\<rparr>)"
  using assms
proof (induction ps arbitrary: db)
  case (Cons p ps)
  let ?db = "db\<lparr>db_tables := (db_tables db)\<lparr>t_role_permissions := t_role_permissions (db_tables db) @ [(rid, perm_as_str p)]\<rparr>\<rparr>"
  have 1: "stmt (insert_role_permission rid (perm_as_str p)) db = (Inr (), ?db)"
    using Cons.prems by (simp add: stmt_run insert_role_permission_def)
  have "insert_role_permissions rid ps ?db = (Inr (), ?db\<lparr>db_tables := (db_tables ?db)
    \<lparr>t_role_permissions := t_role_permissions (db_tables ?db) @ map (\<lambda>p. (rid, perm_as_str p)) ps\<rparr>\<rparr>)"
    using Cons.prems by (intro Cons.IH) (auto simp: perm_as_str_inject)
  then show ?case using 1 by (simp add: abind_def)
qed simp

definition row_ids :: "Tables \<Rightarrow> string set" where
  "row_ids t = ro_id ` set (t_roles t)"

definition seeded :: "(SystemRole \<Rightarrow> string) \<Rightarrow> int \<Rightarrow> SystemRole \<Rightarrow> Tables \<Rightarrow> Tables" where
  "seeded gen now r t =
     with_perms (case sys_id t r of Some i \<Rightarrow> i | None \<Rightarrow> gen r) (role_permissions r) (with_role (system_row (gen r) now r) t)"

lemma sys_id_Some:
  assumes "roles_wf t"
  shows "sys_id t r = Some i \<longleftrightarrow> (\<exists>row \<in> set (t_roles t). ro_org row = None \<and> ro_key row = role_key r \<and> ro_id row = i)"
proof -
  let ?f = "filter (\<lambda>x. ro_org x = None \<and> ro_key x = role_key r) (t_roles t)"
  have eq: "x = y" if "x \<in> set ?f" "y \<in> set ?f" for x y
    using that assms unfolding roles_wf_def by auto
  show ?thesis
  proof (cases ?f)
    case Nil
    then show ?thesis by (auto simp: sys_id_def system_roles_with_key_def filter_empty_conv)
  next
    case (Cons a xs)
    have "x \<in> set ?f \<longleftrightarrow> x = a" for x using eq [of x a] Cons by auto
    then have "(x \<in> set (t_roles t) \<and> ro_org x = None \<and> ro_key x = role_key r) \<longleftrightarrow> x = a" for x by simp
    moreover have "sys_id t r = Some (ro_id a)" using Cons by (simp add: sys_id_def system_roles_with_key_def)
    ultimately show ?thesis by (metis option.inject)
  qed
qed

lemma sys_id_None: "roles_wf t \<Longrightarrow> sys_id t r = None \<longleftrightarrow>
    (\<forall>row \<in> set (t_roles t). \<not> (ro_org row = None \<and> ro_key row = role_key r))"
  using sys_id_Some [of t r] by (metis not_Some_eq)

lemma with_role_cases:
  assumes "roles_wf t" "g \<notin> row_ids t"
  shows "t_roles (with_role (system_row g now r) t) =
     (if sys_id t r = None then t_roles t @ [system_row g now r] else t_roles t)"
proof -
  have "list_ex (\<lambda>x. ro_id x = g \<or> ro_org x = None \<and> ro_key x = role_key r) (t_roles t) \<longleftrightarrow> sys_id t r \<noteq> None"
    using assms(2) unfolding list_ex_iff sys_id_None [OF assms(1)] row_ids_def by (auto intro: rev_image_eqI)
  then show ?thesis by (auto simp: with_role_def system_row_def)
qed

lemma with_role_other [simp]:
  "t_role_permissions (with_role row t) = t_role_permissions t" "t_permissions (with_role row t) = t_permissions t"
  by (simp_all add: with_role_def)

lemma roles_wf_with_role:
  assumes "roles_wf t" "g \<notin> row_ids t"
  shows "roles_wf (with_role (system_row g now r) t)"
proof (cases "sys_id t r")
  case None
  let ?new = "system_row g now r"
  have new: "ro_id ?new = g" "ro_key ?new = role_key r" by (simp_all add: system_row_def)
  have "\<not> (ro_org x = None \<and> ro_key x = role_key r)" if "x \<in> set (t_roles t)" for x
    using None that sys_id_None [OF assms(1), of r] by blast
  then have "x = y" if "x \<in> insert ?new (set (t_roles t))" "y \<in> insert ?new (set (t_roles t))"
    "ro_org x = None" "ro_org y = None" "ro_key x = ro_key y" for x y
    using that assms(1) new(2) unfolding roles_wf_def by (metis insertE)
  moreover have "distinct (map ro_id (t_roles t @ [?new]))"
    using assms new(1) by (simp add: roles_wf_def row_ids_def)
  ultimately show ?thesis
    using assms(1) None unfolding roles_wf_def with_role_cases [OF assms] by simp
next
  case (Some i)
  then show ?thesis using assms by (simp add: roles_wf_def with_role_cases [OF assms])
qed

lemma sys_id_with_role:
  assumes "roles_wf t" "g \<notin> row_ids t"
  shows "sys_id (with_role (system_row g now r) t) q =
    (if q = r then Some (case sys_id t r of Some i \<Rightarrow> i | None \<Rightarrow> g) else sys_id t q)"
proof -
  let ?new = "system_row g now r"
  let ?keyed = "\<lambda>x. ro_org x = None \<and> ro_key x = role_key q"
  have new: "ro_id ?new = g" "?keyed ?new \<longleftrightarrow> q = r"
    by (auto simp: system_row_def role_key_inject)
  note roles = with_role_cases [OF assms, of now r]
  show ?thesis
  proof (cases "sys_id t r")
    case None
    have none: "filter (\<lambda>x. ro_org x = None \<and> ro_key x = role_key r) (t_roles t) = []"
      using None by (simp add: sys_id_def system_roles_with_key_def split: list.splits)
    show ?thesis
      using None none new unfolding sys_id_def system_roles_with_key_def roles by (cases "q = r") auto
  next
    case (Some j)
    then show ?thesis unfolding sys_id_def system_roles_with_key_def roles by auto
  qed
qed
lemma sys_id_with_perms [simp]: "sys_id (with_perms rid ps t) q = sys_id t q"
  by (simp add: sys_id_def system_roles_with_key_def with_perms_def)

lemma perms_of_with_perms:
  "perms_of (with_perms rid ps t) i = (if i = rid then perm_as_str ` set ps else perms_of t i)"
  by (auto simp: perms_of_def with_perms_def)

lemma roles_wf_with_perms: "roles_wf t \<Longrightarrow> distinct ps \<Longrightarrow> roles_wf (with_perms rid ps t)"
  by (auto simp: roles_wf_def with_perms_def distinct_map inj_on_def perm_as_str_inject)

lemma seed_role_run:
  assumes "db_faults db = []" "roles_wf (db_tables db)" "catalog_complete (db_tables db)" "gen r \<notin> row_ids (db_tables db)"
  shows "seed_role gen now r db = (Inr (), db\<lparr>db_tables := seeded gen now r (db_tables db)\<rparr>)"
proof -
  let ?t = "db_tables db" and ?t1 = "with_role (system_row (gen r) now r) (db_tables db)"
  let ?rid = "case sys_id (db_tables db) r of Some i \<Rightarrow> i | None \<Rightarrow> gen r"
  let ?t2 = "?t1\<lparr>t_role_permissions := filter (\<lambda>e. fst e \<noteq> ?rid) (t_role_permissions ?t)\<rparr>"
  have 1: "stmt (insert_role_or_ignore (system_row (gen r) now r)) db = (Inr (), db\<lparr>db_tables := ?t1\<rparr>)"
    using assms(1) by (simp add: stmt_run insert_role_or_ignore_def with_role_def)
  have "sys_id ?t1 r = Some ?rid" using sys_id_with_role [where g = "gen r", OF assms(2,4)] by simp
  then have 2: "select_role_id (role_key r) ?t1 = Inr (?rid, ?t1)"
    by (auto simp: sys_id_def select_role_id_def split: list.splits)
  have 3: "insert_role_permissions ?rid (role_permissions r) (db\<lparr>db_tables := ?t2\<rparr>) =
      (Inr (), db\<lparr>db_tables := seeded gen now r ?t\<rparr>)"
    using assms(1,3) distinct_role_permissions [of r]
    by (subst insert_role_permissions_run) (auto simp: catalog_complete_def seeded_def with_perms_def)
  show ?thesis
    unfolding seed_role_def using 1 2 3 assms(1)
    by (simp add: abind_def stmt_run delete_role_permissions_def)
qed

text \<open>Every table but \<open>roles\<close> and \<open>role_permissions\<close> is the same.\<close>

definition same_rest :: "Tables \<Rightarrow> Tables \<Rightarrow> bool" where
  "same_rest t t' \<longleftrightarrow> t' = t\<lparr>t_roles := t_roles t', t_role_permissions := t_role_permissions t'\<rparr>"

lemma same_rest_refl [simp]: "same_rest t t"
  by (simp add: same_rest_def)

lemma same_rest_trans: "same_rest t t' \<Longrightarrow> same_rest t' t'' \<Longrightarrow> same_rest t t''"
  by (cases t, cases t', cases t'') (simp add: same_rest_def)

lemma same_rest_seeded: "same_rest t (seeded gen now r t)"
  by (simp add: same_rest_def seeded_def with_perms_def with_role_def)

lemma same_rest_tables:
  assumes "same_rest t t'"
  shows "t_permissions t' = t_permissions t" "t_users t' = t_users t" "t_memberships t' = t_memberships t"
    "t_service_accounts t' = t_service_accounts t" "t_teams t' = t_teams t" "t_team_members t' = t_team_members t"
    "t_role_assignments t' = t_role_assignments t"
  using assms by (cases t; cases t'; simp add: same_rest_def)+

text \<open>What seeding leaves of the tables \<open>t\<close>, for the roles \<open>R\<close>.\<close>

definition reconciled :: "(SystemRole \<Rightarrow> string) \<Rightarrow> SystemRole set \<Rightarrow> Tables \<Rightarrow> Tables \<Rightarrow> bool" where
  "reconciled gen R t t' \<longleftrightarrow> roles_wf t' \<and> catalog_complete t' \<and> same_rest t t' \<and> set (t_roles t) \<subseteq> set (t_roles t') \<and>
     row_ids t' \<subseteq> row_ids t \<union> gen ` R \<and>
     (\<forall>r. sys_id t' r = (if r \<in> R then Some (case sys_id t r of Some i \<Rightarrow> i | None \<Rightarrow> gen r) else sys_id t r)) \<and>
     (\<forall>r \<in> R. \<forall>i. sys_id t' r = Some i \<longrightarrow> perms_of t' i = perm_as_str ` set (role_permissions r)) \<and>
     (\<forall>i. (\<forall>r \<in> R. sys_id t' r \<noteq> Some i) \<longrightarrow> perms_of t' i = perms_of t i)"

lemma sys_id_inj:
  assumes "roles_wf t" "sys_id t r = Some i" "sys_id t q = Some i"
  shows "r = q"
proof -
  obtain x where x: "x \<in> set (t_roles t)" "ro_key x = role_key r" "ro_id x = i"
    using assms(2) unfolding sys_id_Some [OF assms(1)] by blast
  obtain y where y: "y \<in> set (t_roles t)" "ro_key y = role_key q" "ro_id y = i"
    using assms(3) unfolding sys_id_Some [OF assms(1)] by blast
  have "x = y" using assms(1) x y by (auto simp: roles_wf_def distinct_map inj_on_def)
  then show ?thesis using x y role_key_inject by metis
qed

lemma reconciled_step:
  assumes "reconciled gen R t u" "r \<notin> R" "gen r \<notin> row_ids u"
  shows "reconciled gen (insert r R) t (seeded gen now r u)"
proof -
  let ?w = "with_role (system_row (gen r) now r) u" and ?s = "seeded gen now r u"
  have wf: "roles_wf u" using assms(1) by (simp add: reconciled_def)
  define rid where "rid = (case sys_id u r of Some i \<Rightarrow> i | None \<Rightarrow> gen r)"
  have s: "?s = with_perms rid (role_permissions r) ?w" by (simp add: seeded_def rid_def)
  have wfs: "roles_wf ?s"
    unfolding s by (intro roles_wf_with_perms roles_wf_with_role wf assms(3) distinct_role_permissions)
  have ids: "sys_id ?s q = (if q = r then Some rid else sys_id u q)" for q
    unfolding s using sys_id_with_role [where g = "gen r", OF wf assms(3)] by (simp add: rid_def)
  have perms: "perms_of ?s i = (if i = rid then perm_as_str ` set (role_permissions r) else perms_of u i)" for i
    unfolding s perms_of_with_perms by (simp add: perms_of_def)
  have roles: "t_roles ?s = (if sys_id u r = None then t_roles u @ [system_row (gen r) now r] else t_roles u)"
    unfolding s using with_role_cases [where g = "gen r", OF wf assms(3)] by (simp add: with_perms_def)
  have old: "sys_id u r = sys_id t r" using assms(1,2) by (simp add: reconciled_def)
  have neq: "rid \<noteq> i" if "q \<noteq> r" "sys_id ?s q = Some i" for q i
    using sys_id_inj [OF wfs, of q i r] that ids by auto
  show ?thesis
    unfolding reconciled_def
  proof (intro conjI allI ballI impI)
    show "roles_wf ?s" by (rule wfs)
    show "catalog_complete ?s" using assms(1) by (simp add: s reconciled_def catalog_complete_def with_perms_def)
    show "same_rest t ?s" using assms(1) by (auto simp: reconciled_def intro: same_rest_trans same_rest_seeded)
    show "set (t_roles t) \<subseteq> set (t_roles ?s)" using assms(1) by (auto simp: roles reconciled_def)
    show "row_ids ?s \<subseteq> row_ids t \<union> gen ` insert r R"
      using assms(1) by (auto simp: row_ids_def roles reconciled_def system_row_def)
    show "sys_id ?s q = (if q \<in> insert r R then Some (case sys_id t q of Some i \<Rightarrow> i | None \<Rightarrow> gen q) else sys_id t q)" for q
      using assms(1) ids [of q] old by (auto simp: reconciled_def rid_def)
  next
    fix q i assume "q \<in> insert r R" and i: "sys_id ?s q = Some i"
    then show "perms_of ?s i = perm_as_str ` set (role_permissions q)"
      using neq [OF _ i] assms(1) ids [of q] perms [of i] by (cases "q = r") (auto simp: reconciled_def)
  next
    fix i assume no: "\<forall>q \<in> insert r R. sys_id ?s q \<noteq> Some i"
    then have "i \<noteq> rid" using ids [of r] by auto
    moreover have "\<forall>q \<in> R. sys_id u q \<noteq> Some i" using no ids assms(2) by (metis insertCI)
    ultimately show "perms_of ?s i = perms_of t i" using assms(1) perms [of i] by (simp add: reconciled_def)
  qed
qed

lemma seed_roles_run:
  assumes "db_faults db = []" "reconciled gen R t (db_tables db)" "distinct rs" "R \<inter> set rs = {}"
    "inj gen" "\<forall>r. gen r \<notin> row_ids t"
  shows "\<exists>t'. seed_roles gen now rs db = (Inr (), db\<lparr>db_tables := t'\<rparr>) \<and> reconciled gen (R \<union> set rs) t t'"
  using assms
proof (induction rs arbitrary: db R)
  case Nil
  have "db = db\<lparr>db_tables := db_tables db\<rparr>" by simp
  then show ?case using Nil(2) by (intro exI [of _ "db_tables db"]) simp
next
  case (Cons r rs)
  let ?u = "db_tables db" and ?s = "seeded gen now r (db_tables db)"
  have r: "r \<notin> R" using Cons.prems(4) by auto
  have "row_ids ?u \<subseteq> row_ids t \<union> gen ` R" using Cons.prems(2) by (simp add: reconciled_def)
  then have fresh: "gen r \<notin> row_ids ?u" using r Cons.prems(5,6) by (auto dest: injD)
  have run: "seed_role gen now r db = (Inr (), db\<lparr>db_tables := ?s\<rparr>)"
    using Cons.prems(1,2) fresh by (intro seed_role_run) (auto simp: reconciled_def)
  have step: "reconciled gen (insert r R) t ?s" by (rule reconciled_step [OF Cons.prems(2) r fresh])
  obtain t' where "seed_roles gen now rs (db\<lparr>db_tables := ?s\<rparr>) = (Inr (), db\<lparr>db_tables := t'\<rparr>)"
    "reconciled gen (insert r R \<union> set rs) t t'"
    using Cons.IH [of "db\<lparr>db_tables := ?s\<rparr>" "insert r R"] Cons.prems step by auto
  then show ?case using run by (auto simp: abind_def)
qed

lemma reconciled_refl: "roles_wf t \<Longrightarrow> catalog_complete t \<Longrightarrow> reconciled gen {} t t"
  by (simp add: reconciled_def)

lemma set_SystemRole_ALL: "set SystemRole_ALL = UNIV" "distinct SystemRole_ALL"
  using SystemRole_ALL_complete by (auto simp: SystemRole_ALL_def)

lemma bootstrap_of_seed:
  assumes "db_faults db = []" "catalog_complete (db_tables db)"
    "seed_roles gen now SystemRole_ALL db = (Inr (), db\<lparr>db_tables := t\<rparr>)"
  shows "bootstrap gen now db = (Inr (), db\<lparr>db_tables := t\<rparr>)"
proof -
  have same: "db\<lparr>db_tables := db_tables db\<rparr> = db" by simp
  have "verify_permission_catalog db = (Inr (), db)"
    using assms(1,2) by (auto simp: verify_permission_catalog_def query_def abind_def stmt_run Let_def
        catalog_complete_def filter_empty_conv)
  moreover have "transaction (seed_roles gen now SystemRole_ALL) db = (Inr (), db\<lparr>db_tables := t\<rparr>)"
    using assms(1,3) by (simp add: transaction_def abind_def stmt_run same)
  ultimately show ?thesis by (simp add: bootstrap_def abind_def)
qed

lemma bootstrap_run:
  assumes "db_faults db = []" "roles_wf (db_tables db)" "catalog_complete (db_tables db)"
    "inj gen" "\<forall>r. gen r \<notin> row_ids (db_tables db)"
  shows "\<exists>t'. seed_roles gen now SystemRole_ALL db = (Inr (), db\<lparr>db_tables := t'\<rparr>) \<and>
    bootstrap gen now db = (Inr (), db\<lparr>db_tables := t'\<rparr>) \<and> reconciled gen UNIV (db_tables db) t'"
proof -
  obtain t' where t': "seed_roles gen now SystemRole_ALL db = (Inr (), db\<lparr>db_tables := t'\<rparr>)"
    "reconciled gen ({} \<union> set SystemRole_ALL) (db_tables db) t'"
    using seed_roles_run [OF assms(1) reconciled_refl [OF assms(2,3)] set_SystemRole_ALL(2) _ assms(4,5)] by auto
  then show ?thesis using bootstrap_of_seed [OF assms(1,3)] by (auto simp: set_SystemRole_ALL)
qed

section \<open>Properties\<close>

lemma stmt_tables_Inl: "stmt f db = (Inl e, db') \<Longrightarrow> db_tables db' = db_tables db"
  by (auto simp: stmt_def split: list.splits option.splits sum.splits prod.splits)

lemma query_tables: "query f db = (r, db') \<Longrightarrow> db_tables db' = db_tables db"
  by (auto simp: query_def stmt_def split: list.splits option.splits)

lemma verify_permission_catalog_tables: "verify_permission_catalog db = (r, db') \<Longrightarrow> db_tables db' = db_tables db"
  unfolding verify_permission_catalog_def Let_def
  by (auto simp: abind_def athrow_def aret_def split: prod.splits sum.splits if_splits dest: query_tables)

lemma transaction_Inl: "transaction body db = (Inl e, db') \<Longrightarrow> db_tables db' = db_tables db"
  by (auto simp: transaction_def split: prod.splits sum.splits)

text \<open>A run of \<open>bootstrap\<close> that fails, at whatever statement, leaves every table as it was.\<close>

theorem bootstrap_is_atomic:
  assumes "bootstrap gen now db = (Inl e, db')"
  shows "db_tables db' = db_tables db"
  using assms unfolding bootstrap_def
  by (auto simp: abind_def split: prod.splits sum.splits dest!: transaction_Inl verify_permission_catalog_tables)

definition example_tables :: Tables where
  "example_tables = \<lparr>t_permissions = map perm_as_str Permission_ALL, t_roles = [], t_role_permissions = [],
     t_users = [], t_memberships = [], t_service_accounts = [], t_teams = [], t_team_members = [],
     t_role_assignments = []\<rparr>"

text \<open>The eleventh statement fails, inside the first role.\<close>

definition example_faulty :: Db where
  "example_faulty = \<lparr>db_tables = example_tables, db_faults = replicate 10 None @ [Some ''disk I/O error'']\<rparr>"

lemma example_bootstrap_fails:
  "fst (bootstrap role_key 7 example_faulty) = Inl (Sqlx ''disk I/O error'')"
  by code_simp

theorem bootstrap_is_atomic_witness:
  "\<exists>db'. bootstrap role_key 7 example_faulty = (Inl (Sqlx ''disk I/O error''), db') \<and>
     db_tables db' = example_tables"
proof -
  obtain db' where b: "bootstrap role_key 7 example_faulty = (Inl (Sqlx ''disk I/O error''), db')"
    using example_bootstrap_fails by (metis prod.collapse)
  then show ?thesis using bootstrap_is_atomic [OF b] by (auto simp: example_faulty_def)
qed

text \<open>C24: when no statement fails, ids are fresh and the permission catalog is complete, \<open>bootstrap\<close> succeeds and
  reconciles: afterwards every built-in role exists, under the id it already had if it had one, with exactly
  the permissions the code gives it; no role row is lost, the permissions of every other role
  are as before, and no other table changes.\<close>

theorem bootstrap_reconciles:
  assumes "db_faults db = []" "roles_wf (db_tables db)" "catalog_complete (db_tables db)"
    "inj gen" "\<forall>r. gen r \<notin> row_ids (db_tables db)"
  shows "\<exists>db'. bootstrap gen now db = (Inr (), db') \<and> roles_wf (db_tables db') \<and> same_rest (db_tables db) (db_tables db') \<and>
    set (t_roles (db_tables db)) \<subseteq> set (t_roles (db_tables db')) \<and>
    (\<forall>r. \<exists>i. sys_id (db_tables db') r = Some i \<and> (sys_id (db_tables db) r \<noteq> None \<longrightarrow> sys_id (db_tables db) r = Some i) \<and>
       perms_of (db_tables db') i = perm_as_str ` set (role_permissions r)) \<and>
    (\<forall>i. (\<forall>r. sys_id (db_tables db') r \<noteq> Some i) \<longrightarrow> perms_of (db_tables db') i = perms_of (db_tables db) i)"
proof -
  obtain t' where b: "bootstrap gen now db = (Inr (), db\<lparr>db_tables := t'\<rparr>)" and r: "reconciled gen UNIV (db_tables db) t'"
    using bootstrap_run [OF assms] by blast
  have "\<exists>i. sys_id t' q = Some i \<and> (sys_id (db_tables db) q \<noteq> None \<longrightarrow> sys_id (db_tables db) q = Some i) \<and>
       perms_of t' i = perm_as_str ` set (role_permissions q)" for q
    using r by (auto simp: reconciled_def split: option.split)
  then show ?thesis using b r by (intro exI [of _ "db\<lparr>db_tables := t'\<rparr>"]) (simp add: reconciled_def)
qed

definition example_db :: Db where
  "example_db = \<lparr>db_tables = example_tables\<lparr>t_roles := [\<lparr>ro_id = ''r1'', ro_org = None, ro_key = ''viewer'',
     ro_name = ''Looker'', ro_description = '''', ro_is_system = True, ro_created_at = 1\<rparr>],
     t_role_permissions := [(''r1'', ''secret.write'')]\<rparr>, db_faults = []\<rparr>"

theorem bootstrap_reconciles_witness:
  "\<exists>db'. bootstrap role_key 7 example_db = (Inr (), db') \<and> sys_id (db_tables db') Viewer = Some ''r1'' \<and>
    perms_of (db_tables db') ''r1'' = perm_as_str ` set (role_permissions Viewer)"
proof -
  have "inj role_key" by (auto intro: injI simp: role_key_inject)
  moreover have "\<forall>r. role_key r \<notin> row_ids (db_tables example_db)"
  proof
    show "role_key r \<notin> row_ids (db_tables example_db)" for r
      by (cases r) (simp_all add: example_db_def row_ids_def example_tables_def)
  qed
  moreover have "catalog_complete (db_tables example_db)"
    using Permission_ALL_complete by (auto simp: catalog_complete_def example_db_def example_tables_def)
  moreover have "db_faults example_db = []" "roles_wf (db_tables example_db)"
    "sys_id (db_tables example_db) Viewer = Some ''r1''"
    by (simp_all add: example_db_def example_tables_def roles_wf_def sys_id_def system_roles_with_key_def)
  ultimately show ?thesis using bootstrap_reconciles [of example_db role_key 7] by (metis option.distinct(1) option.inject)
qed

text \<open>Looking a role up after seeding finds the id the seeding used.\<close>

lemma system_role_id_run:
  "db_faults db = [] \<Longrightarrow> system_role_id r db =
     ((case sys_id (db_tables db) r of Some i \<Rightarrow> Inr i | None \<Rightarrow> Inl (StoreNotFound ''system role'' (role_key r))), db)"
  by (auto simp: system_role_id_def query_def stmt_run abind_def sys_id_def not_found_def athrow_def aret_def split: list.split)

end
