(* ===== verification/Jet_Authz.thy ===== *)
theory Jet_Authz
  imports Jet_Db "HOL-Library.Word"
begin

text \<open>
  Authorization (\<open>crates/jet-authz/src/lib.rs\<close>): the decision cache, the standing check, the grant query
  and \<open>authorize\<close>. The state is the database, the generation counter, the cached entries, whether the
  lock around them is poisoned, and the monotonic clock in milliseconds. The specification is
  declarative: a grant that names the principal, includes the permission, and sits at the scope or
  above it. The key of the cache leaves out the project of a pipeline, so an answer from the cache may be that of the same pipeline
  under another project (\<open>twin\<close>). A step relation splits a cache fill at its suspension points, so that fills, table changes and
  invalidations interleave.
\<close>

section \<open>Data\<close>

datatype Denied =
    MissingPermission Permission string
  | NotAMember
  | WrongOrg

datatype AuthzError = DeniedErr Denied | StoreErr StoreError

fun denied_display :: "Denied \<Rightarrow> string" where
  "denied_display (MissingPermission p k) = ''permission '' @ perm_as_str p @ '' is not granted at '' @ k"
| "denied_display NotAMember = ''principal is not an active member of this organization''"
| "denied_display WrongOrg = ''cross-organization access is not permitted''"

fun authz_error_display :: "AuthzError \<Rightarrow> string" where
  "authz_error_display (DeniedErr d) = denied_display d"
| "authz_error_display (StoreErr e) = ''authorization lookup failed: '' @ store_error_display e"

definition CACHE_TTL :: int where
  "CACHE_TTL = 30 * 1000"

record CacheEntry =
  ce_permissions :: "Permission set"
  ce_generation :: "64 word"
  ce_at :: int

type_synonym CacheKey = "string \<times> string \<times> string \<times> string"

record DecisionCache =
  dc_db :: Db
  dc_generation :: "64 word"
  dc_entries :: "CacheKey \<Rightarrow> CacheEntry option"
  dc_poisoned :: bool
  dc_clock :: int

definition cache_new :: "Db \<Rightarrow> int \<Rightarrow> DecisionCache" where
  "cache_new db now = \<lparr>dc_db = db, dc_generation = 0, dc_entries = Map.empty, dc_poisoned = False, dc_clock = now\<rparr>"

section \<open>Operations\<close>

definition bump_generation :: "DecisionCache \<Rightarrow> DecisionCache" where
  "bump_generation c = c\<lparr>dc_generation := dc_generation c + 1\<rparr>"

definition clear_entries :: "DecisionCache \<Rightarrow> DecisionCache" where
  "clear_entries c = (if dc_poisoned c then c else c\<lparr>dc_entries := Map.empty\<rparr>)"

definition invalidate :: "DecisionCache \<Rightarrow> DecisionCache" where
  "invalidate c = clear_entries (bump_generation c)"

fun scope_id_string :: "ulid_crate \<Rightarrow> Scope \<Rightarrow> string" where
  "scope_id_string u (ScopeOrg org) = org_canonical u org"
| "scope_id_string u (ScopeProject _ project) = project_canonical u project"
| "scope_id_string u (ScopePipeline _ _ pipeline) = pipeline_canonical u pipeline"

definition cache_key :: "ulid_crate \<Rightarrow> Principal \<Rightarrow> Scope \<Rightarrow> CacheKey option" where
  "cache_key u p s =
     (case principal_id_string u p of
        None \<Rightarrow> None
      | Some i \<Rightarrow> Some (org_canonical u (principal_org p), i, scope_kind_as_str (scope_kind s), scope_id_string u s))"

text \<open>Statements go to the database of the cache; their errors become \<open>AuthzError::Store\<close>.\<close>

definition on_db :: "(Db, StoreError, 'a) act \<Rightarrow> (DecisionCache, AuthzError, 'a) act" where
  "on_db m c = (case m (dc_db c) of
      (Inl e, db) \<Rightarrow> (Inl (StoreErr e), c\<lparr>dc_db := db\<rparr>)
    | (Inr x, db) \<Rightarrow> (Inr x, c\<lparr>dc_db := db\<rparr>))"

definition count_active_memberships :: "string \<Rightarrow> string \<Rightarrow> Tables \<Rightarrow> nat" where
  "count_active_memberships org user t =
     length (filter (\<lambda>((o', u', st), (i, ust)).
         i = u' \<and> o' = org \<and> u' = user \<and> st = ''active'' \<and> ust = ''active'')
       (List.product (t_memberships t) (t_users t)))"

definition count_enabled_accounts :: "string \<Rightarrow> string \<Rightarrow> Tables \<Rightarrow> nat" where
  "count_enabled_accounts org sa t =
     length (filter (\<lambda>(i, o', disabled). o' = org \<and> i = sa \<and> disabled = None) (t_service_accounts t))"

fun is_active_principal :: "ulid_crate \<Rightarrow> Principal \<Rightarrow> (DecisionCache, AuthzError, bool) act" where
  "is_active_principal u (PrincipalSystem org) = aret True"
| "is_active_principal u (PrincipalUser org user) =
     abind (on_db (query (count_active_memberships (org_canonical u org) (user_canonical u user)))) (\<lambda>n. aret (0 < n))"
| "is_active_principal u (PrincipalServiceAccount org sa) =
     abind (on_db (query (count_enabled_accounts (org_canonical u org) (service_account_canonical u sa)))) (\<lambda>n. aret (0 < n))"

definition teams_of :: "string \<Rightarrow> string \<Rightarrow> Tables \<Rightarrow> string list" where
  "teams_of user org t =
     [tm. (tm, usr) \<leftarrow> t_team_members t, (i, o') \<leftarrow> t_teams t, i = tm \<and> usr = user \<and> o' = org]"

definition assignment_matches :: "string \<Rightarrow> string \<Rightarrow> (ScopeKind \<times> string) list \<Rightarrow> Tables \<Rightarrow> Assignment \<Rightarrow> bool" where
  "assignment_matches org pid scopes t a \<longleftrightarrow>
     ra_org_id a = org \<and>
     (ra_principal_kind a \<in> set [''user'', ''service_account''] \<and> ra_principal_id a = pid \<or>
      ra_principal_kind a = ''team'' \<and> ra_principal_id a \<in> set (teams_of pid org t)) \<and>
     list_ex (\<lambda>(kind, i). ra_scope_kind a = scope_kind_as_str kind \<and> ra_scope_id a = i) scopes"

definition select_permission_keys :: "string \<Rightarrow> string \<Rightarrow> (ScopeKind \<times> string) list \<Rightarrow> Tables \<Rightarrow> string list" where
  "select_permission_keys org pid scopes t =
     remdups [pk. a \<leftarrow> t_role_assignments t, (rid, pk) \<leftarrow> t_role_permissions t,
       rid = ra_role_id a \<and> assignment_matches org pid scopes t a]"

definition known_permissions :: "string list \<Rightarrow> Permission set" where
  "known_permissions rows =
     set (List.map_filter (\<lambda>k. case perm_from_str k of Inr p \<Rightarrow> Some p | Inl _ \<Rightarrow> None) rows)"

definition query_permissions :: "ulid_crate \<Rightarrow> Principal \<Rightarrow> Scope \<Rightarrow> (DecisionCache, AuthzError, Permission set) act" where
  "query_permissions u p s =
     (case principal_id_string u p of
        None \<Rightarrow> aret {}
      | Some pid \<Rightarrow>
          abind (on_db (query (select_permission_keys (org_canonical u (principal_org p)) pid (lineage u s)))) (\<lambda>rows.
          aret (known_permissions rows)))"

text \<open>The read side of the cache: the entry has the generation loaded before, and is young enough.\<close>

definition cache_lookup :: "CacheKey \<Rightarrow> 64 word \<Rightarrow> DecisionCache \<Rightarrow> Permission set option" where
  "cache_lookup k gen_now c =
     (if dc_poisoned c then None
      else case dc_entries c k of
        None \<Rightarrow> None
      | Some e \<Rightarrow>
          if ce_generation e = gen_now \<and> max 0 (dc_clock c - ce_at e) < CACHE_TTL then Some (ce_permissions e) else None)"

definition cache_fill :: "CacheKey \<Rightarrow> Permission set \<Rightarrow> 64 word \<Rightarrow> DecisionCache \<Rightarrow> DecisionCache" where
  "cache_fill k perms gen_now c =
     (if dc_poisoned c then c
      else c\<lparr>dc_entries := (dc_entries c)(k \<mapsto>
        \<lparr>ce_permissions = perms, ce_generation = gen_now, ce_at = dc_clock c\<rparr>)\<rparr>)"

definition permissions :: "ulid_crate \<Rightarrow> Principal \<Rightarrow> Scope \<Rightarrow> (DecisionCache, AuthzError, Permission set) act" where
  "permissions u p s =
     (case cache_key u p s of
        None \<Rightarrow> aret {}
      | Some k \<Rightarrow>
          abind (agets dc_generation) (\<lambda>gen_now.
          abind (agets (cache_lookup k gen_now)) (\<lambda>hit.
          case hit of
            Some ps \<Rightarrow> aret ps
          | None \<Rightarrow>
              abind (query_permissions u p s) (\<lambda>perms.
              abind (amodify (cache_fill k perms gen_now)) (\<lambda>_.
              aret perms)))))"

definition effective_permissions :: "ulid_crate \<Rightarrow> Principal \<Rightarrow> Scope \<Rightarrow> (DecisionCache, AuthzError, Permission set) act" where
  "effective_permissions u p s =
     (if is_system p then aret (set Permission_ALL)
      else if scope_org s \<noteq> principal_org p then aret {}
      else abind (is_active_principal u p) (\<lambda>active.
        if \<not> active then aret {} else permissions u p s))"

fun scope_kind_word :: "ScopeKind \<Rightarrow> string" where
  "scope_kind_word SK_Org = ''organization''"
| "scope_kind_word SK_Project = ''project''"
| "scope_kind_word SK_Pipeline = ''pipeline''"

definition authorize :: "ulid_crate \<Rightarrow> Principal \<Rightarrow> Permission \<Rightarrow> Scope \<Rightarrow> (DecisionCache, AuthzError, unit) act" where
  "authorize u p perm s =
     (if is_system p then aret ()
      else if scope_org s \<noteq> principal_org p then athrow (DeniedErr WrongOrg)
      else abind (is_active_principal u p) (\<lambda>active.
        if \<not> active then athrow (DeniedErr NotAMember)
        else abind (permissions u p s) (\<lambda>held.
          if perm \<in> held then aret ()
          else athrow (DeniedErr (MissingPermission perm (scope_kind_word (scope_kind s)))))))"

section \<open>Specification\<close>

text \<open>Who may act at all.\<close>

fun in_standing :: "ulid_crate \<Rightarrow> Tables \<Rightarrow> Principal \<Rightarrow> bool" where
  "in_standing u t (PrincipalSystem org) \<longleftrightarrow> True"
| "in_standing u t (PrincipalUser org user) \<longleftrightarrow>
     (org_canonical u org, user_canonical u user, ''active'') \<in> set (t_memberships t) \<and>
     (user_canonical u user, ''active'') \<in> set (t_users t)"
| "in_standing u t (PrincipalServiceAccount org sa) \<longleftrightarrow>
     (service_account_canonical u sa, org_canonical u org, None) \<in> set (t_service_accounts t)"

text \<open>An assignment names a principal directly, or a team of the same organization the principal is in.\<close>

definition names_principal :: "ulid_crate \<Rightarrow> Tables \<Rightarrow> Principal \<Rightarrow> Assignment \<Rightarrow> bool" where
  "names_principal u t p a \<longleftrightarrow>
     (\<exists>i. principal_id_string u p = Some i \<and>
       (ra_principal_kind a \<in> {''user'', ''service_account''} \<and> ra_principal_id a = i \<or>
        ra_principal_kind a = ''team'' \<and> (ra_principal_id a, i) \<in> set (t_team_members t) \<and>
          (ra_principal_id a, org_canonical u (principal_org p)) \<in> set (t_teams t)))"

text \<open>The grant \<open>a\<close> gives \<open>p\<close> the permission at \<open>s\<close>.\<close>

definition grants :: "ulid_crate \<Rightarrow> Tables \<Rightarrow> Principal \<Rightarrow> Permission \<Rightarrow> Scope \<Rightarrow> Assignment \<Rightarrow> bool" where
  "grants u t p perm s a \<longleftrightarrow>
     ra_org_id a = org_canonical u (principal_org p) \<and> names_principal u t p a \<and>
     perm_as_str perm \<in> perms_of t (ra_role_id a) \<and>
     (\<exists>g \<in> ancestors s. ra_scope_kind a = scope_kind_as_str (scope_kind g) \<and> ra_scope_id a = grant_id u g)"

definition holds_permission :: "ulid_crate \<Rightarrow> Tables \<Rightarrow> Principal \<Rightarrow> Scope \<Rightarrow> Permission set" where
  "holds_permission u t p s = {perm. \<exists>a \<in> set (t_role_assignments t). grants u t p perm s a}"

definition verdict :: "ulid_crate \<Rightarrow> Tables \<Rightarrow> Principal \<Rightarrow> Permission \<Rightarrow> Scope \<Rightarrow> AuthzError + unit" where
  "verdict u t p perm s =
     (if is_system p then Inr ()
      else if scope_org s \<noteq> principal_org p then Inl (DeniedErr WrongOrg)
      else if \<not> in_standing u t p then Inl (DeniedErr NotAMember)
      else if perm \<in> holds_permission u t p s then Inr ()
      else Inl (DeniedErr (MissingPermission perm (scope_kind_word (scope_kind s)))))"

section \<open>The query decides the specification\<close>

lemma on_db_query:
  "on_db (query f) c = (r, c') \<Longrightarrow>
    (\<exists>fs. c' = c\<lparr>dc_db := (dc_db c)\<lparr>db_faults := fs\<rparr>\<rparr>) \<and> (\<forall>x. r = Inr x \<longrightarrow> x = f (db_tables (dc_db c))) \<and>
    (\<forall>e. r = Inl e \<longrightarrow> (\<exists>m. e = StoreErr (Sqlx m)))"
  by (auto simp: on_db_def query_def stmt_def split: list.splits option.splits)

lemma on_db_query_run: "db_faults (dc_db c) = [] \<Longrightarrow> on_db (query f) c = (Inr (f (db_tables (dc_db c))), c)"
  by (simp add: on_db_def query_def stmt_run)

lemma count_active_memberships_pos:
  "0 < count_active_memberships org user t \<longleftrightarrow> (org, user, ''active'') \<in> set (t_memberships t) \<and> (user, ''active'') \<in> set (t_users t)"
  unfolding count_active_memberships_def length_greater_0_conv
  by (auto simp: filter_empty_conv intro!: bexI [where x = "(org, user, ''active'')"] bexI [where x = "(user, ''active'')"])

lemma count_enabled_accounts_pos:
  "0 < count_enabled_accounts org sa t \<longleftrightarrow> (sa, org, None) \<in> set (t_service_accounts t)"
  unfolding count_enabled_accounts_def length_greater_0_conv by (auto simp: filter_empty_conv)

lemma is_active_principal_run:
  "db_faults (dc_db c) = [] \<Longrightarrow> is_active_principal u p c = (Inr (in_standing u (db_tables (dc_db c)) p), c)"
  by (cases p) (simp_all add: abind_def on_db_query_run count_active_memberships_pos count_enabled_accounts_pos)

lemma teams_of_iff: "tm \<in> set (teams_of i org t) \<longleftrightarrow> (tm, i) \<in> set (t_team_members t) \<and> (tm, org) \<in> set (t_teams t)"
  by (auto simp: teams_of_def)

lemma lineage_ancestors: "(k, i) \<in> set (lineage u s) \<longleftrightarrow> (\<exists>g \<in> ancestors s. k = scope_kind g \<and> i = grant_id u g)"
  by (cases s) (auto simp: grant_id_def)

lemma scope_kind_as_str_inject: "scope_kind_as_str k = scope_kind_as_str l \<longleftrightarrow> k = l"
  by (cases k; cases l) simp_all

lemma assignment_matches_iff:
  assumes "principal_id_string u p = Some i"
  shows "assignment_matches (org_canonical u (principal_org p)) i (lineage u s) t a \<longleftrightarrow>
    ra_org_id a = org_canonical u (principal_org p) \<and> names_principal u t p a \<and>
    (\<exists>g \<in> ancestors s. ra_scope_kind a = scope_kind_as_str (scope_kind g) \<and> ra_scope_id a = grant_id u g)"
proof -
  have "list_ex (\<lambda>(kind, i). ra_scope_kind a = scope_kind_as_str kind \<and> ra_scope_id a = i) (lineage u s) \<longleftrightarrow>
    (\<exists>g \<in> ancestors s. ra_scope_kind a = scope_kind_as_str (scope_kind g) \<and> ra_scope_id a = grant_id u g)"
    by (cases s) (auto simp: grant_id_def)
  then show ?thesis
    using assms by (auto simp: assignment_matches_def names_principal_def teams_of_iff)
qed

lemma known_permissions_iff: "perm \<in> known_permissions rows \<longleftrightarrow> perm_as_str perm \<in> set rows"
  by (induction rows) (auto simp: known_permissions_def List.map_filter_simps perm_from_str_Inr perm_as_str_inject split: sum.split)

lemma select_permission_keys_iff:
  "pk \<in> set (select_permission_keys org pid scopes t) \<longleftrightarrow>
    (\<exists>a \<in> set (t_role_assignments t). assignment_matches org pid scopes t a \<and> pk \<in> perms_of t (ra_role_id a))"
  by (auto simp: select_permission_keys_def perms_of_def)

lemma known_permissions_select:
  assumes "principal_id_string u p = Some i"
  shows "known_permissions (select_permission_keys (org_canonical u (principal_org p)) i (lineage u s) t) = holds_permission u t p s"
  unfolding holds_permission_def grants_def set_eq_iff known_permissions_iff select_permission_keys_iff
    assignment_matches_iff [OF assms] mem_Collect_eq by blast

lemma query_permissions_result:
  assumes "query_permissions u p s c = (r, c')"
  shows "(\<exists>fs. c' = c\<lparr>dc_db := (dc_db c)\<lparr>db_faults := fs\<rparr>\<rparr>) \<and>
    (\<forall>x. r = Inr x \<longrightarrow> x = holds_permission u (db_tables (dc_db c)) p s) \<and> (\<forall>e. r = Inl e \<longrightarrow> (\<exists>m. e = StoreErr (Sqlx m)))"
proof (cases "principal_id_string u p")
  case None
  then have "holds_permission u (db_tables (dc_db c)) p s = {}"
    by (auto simp: holds_permission_def grants_def names_principal_def)
  moreover have "\<exists>fs. c = c\<lparr>dc_db := (dc_db c)\<lparr>db_faults := fs\<rparr>\<rparr>"
    by (rule exI [of _ "db_faults (dc_db c)"]) simp
  ultimately show ?thesis using assms None by (simp add: query_permissions_def) blast
next
  case (Some i)
  let ?q = "on_db (query (select_permission_keys (org_canonical u (principal_org p)) i (lineage u s))) c"
  obtain r1 c1 where q: "?q = (r1, c1)" by fastforce
  then show ?thesis
    using assms Some on_db_query [OF q] known_permissions_select [OF Some]
    by (cases r1) (auto simp: query_permissions_def abind_def)
qed

lemma query_permissions_run:
  assumes "db_faults (dc_db c) = []"
  shows "query_permissions u p s c = (Inr (holds_permission u (db_tables (dc_db c)) p s), c)"
proof (cases "principal_id_string u p")
  case None
  then show ?thesis by (auto simp: query_permissions_def holds_permission_def grants_def names_principal_def)
next
  case (Some i)
  then show ?thesis
    using assms known_permissions_select [OF Some] by (simp add: query_permissions_def abind_def on_db_query_run)
qed

section \<open>The cache\<close>

text \<open>Scopes that the key of the cache does not tell apart: the same pipeline, under whatever project.\<close>

fun twin :: "Scope \<Rightarrow> Scope \<Rightarrow> bool" where
  "twin (ScopePipeline org project pipeline) s \<longleftrightarrow> (\<exists>project'. s = ScopePipeline org project' pipeline)"
| "twin s s' \<longleftrightarrow> s' = s"

text \<open>Under a key, \<open>ps\<close> is what the tables give every request with that key at a scope of \<open>A\<close> of that key.\<close>

definition right_for :: "ulid_crate \<Rightarrow> Scope set \<Rightarrow> Tables \<Rightarrow> CacheKey \<Rightarrow> Permission set \<Rightarrow> bool" where
  "right_for u A t k ps \<longleftrightarrow>
     (\<forall>p s. scope_org s = principal_org p \<longrightarrow> cache_key u p s = Some k \<longrightarrow>
        (\<exists>s' \<in> A. twin s s' \<and> ps = holds_permission u t p s'))"

text \<open>The live entries were filled by requests at scopes of \<open>A\<close>.\<close>

definition coherent :: "ulid_crate \<Rightarrow> Scope set \<Rightarrow> DecisionCache \<Rightarrow> bool" where
  "coherent u A c \<longleftrightarrow>
     (\<forall>k e. dc_entries c k = Some e \<longrightarrow> ce_generation e = dc_generation c \<longrightarrow>
        right_for u A (db_tables (dc_db c)) k (ce_permissions e))"

text \<open>No live entry answers the request.\<close>

definition cold :: "ulid_crate \<Rightarrow> Principal \<Rightarrow> Scope \<Rightarrow> DecisionCache \<Rightarrow> bool" where
  "cold u p s c \<longleftrightarrow> (\<forall>k. cache_key u p s = Some k \<longrightarrow> cache_lookup k (dc_generation c) c = None)"

lemma twin_refl [simp]: "twin s s"
  by (cases s) auto

lemma twin_same: "twin s s' \<Longrightarrow> scope_org s' = scope_org s \<and> scope_kind s' = scope_kind s"
  by (cases s) auto

lemma scope_of_key:
  assumes "ulid_ok u" "scope_org s = scope_org s'" "scope_kind s = scope_kind s'" "scope_id_string u s = scope_id_string u s'"
  shows "twin s s'"
  using assms by (cases s; cases s') auto

lemma right_for_holds_permission:
  assumes "ulid_ok u" "scope_org s = principal_org p" "cache_key u p s = Some k" "s \<in> A"
  shows "right_for u A t k (holds_permission u t p s)"
  unfolding right_for_def
proof (intro allI impI)
  fix p' s' assume p': "scope_org s' = principal_org p'" and k: "cache_key u p' s' = Some k"
  have ids: "principal_id_string u p = principal_id_string u p'" and
    orgs: "org_canonical u (principal_org p) = org_canonical u (principal_org p')" and
    sc: "scope_kind s' = scope_kind s" "scope_id_string u s' = scope_id_string u s"
    using assms(3) k by (auto simp: cache_key_def scope_kind_as_str_inject split: option.splits)
  have "principal_org p = principal_org p'" using orgs assms(1) by simp
  then have "twin s' s" using assms(1,2) p' sc by (intro scope_of_key) simp_all
  moreover have "holds_permission u t p s = holds_permission u t p' s"
    using ids orgs by (simp add: holds_permission_def grants_def names_principal_def)
  ultimately show "\<exists>a \<in> A. twin s' a \<and> holds_permission u t p s = holds_permission u t p' a" using assms(4) by blast
qed

lemma right_for_mono: "right_for u A t k ps \<Longrightarrow> A \<subseteq> B \<Longrightarrow> right_for u B t k ps"
  unfolding right_for_def by blast

lemma coherent_mono: "coherent u A c \<Longrightarrow> A \<subseteq> B \<Longrightarrow> coherent u B c"
  unfolding coherent_def using right_for_mono by blast

lemma cold_db_faults [simp]: "cold u p s (c\<lparr>dc_db := (dc_db c)\<lparr>db_faults := fs\<rparr>\<rparr>) = cold u p s c"
  by (simp add: cold_def cache_lookup_def cong: option.case_cong)

lemma coherent_db_faults [simp]:
  "coherent u A (c\<lparr>dc_db := (dc_db c)\<lparr>db_faults := fs\<rparr>\<rparr>) = coherent u A c"
  by (simp add: coherent_def)

lemma coherent_fill:
  "coherent u A c \<Longrightarrow> (g = dc_generation c \<Longrightarrow> right_for u A (db_tables (dc_db c)) k ps) \<Longrightarrow>
    coherent u A (cache_fill k ps g c)"
  by (auto simp: coherent_def cache_fill_def)

lemma coherent_invalidate: "dc_poisoned c = False \<Longrightarrow> coherent u A (invalidate c)"
  by (simp add: coherent_def invalidate_def clear_entries_def bump_generation_def)

lemma coherent_new: "coherent u A (cache_new db now)"
  by (simp add: coherent_def cache_new_def)

lemma cache_lookup_coherent:
  assumes "coherent u A c" "cache_lookup k (dc_generation c) c = Some ps" "scope_org s = principal_org p" "cache_key u p s = Some k"
  shows "\<exists>s' \<in> A. twin s s' \<and> ps = holds_permission u (db_tables (dc_db c)) p s'"
proof -
  obtain e where "dc_entries c k = Some e" "ce_generation e = dc_generation c" "ps = ce_permissions e"
    using assms(2) by (auto simp: cache_lookup_def split: if_splits option.splits)
  then show ?thesis using assms(1,3,4) unfolding coherent_def right_for_def by blast
qed

text \<open>What a request leaves of the cache: the tables and a coherent cache.\<close>

definition serves :: "ulid_crate \<Rightarrow> Scope set \<Rightarrow> DecisionCache \<Rightarrow> DecisionCache \<Rightarrow> bool" where
  "serves u A c c' \<longleftrightarrow> coherent u A c' \<and> db_tables (dc_db c') = db_tables (dc_db c) \<and>
     dc_generation c' = dc_generation c \<and> (db_faults (dc_db c) = [] \<longrightarrow> db_faults (dc_db c') = [])"

lemma cache_key_None: "cache_key u p s = None \<longleftrightarrow> is_system p"
  by (cases p) (simp_all add: cache_key_def)

lemma permissions_result:
  assumes "ulid_ok u" "coherent u A c" "scope_org s = principal_org p" "s \<in> A" "permissions u p s c = (r, c')"
  shows "serves u A c c' \<and>
    (\<forall>x. r = Inr x \<longrightarrow> (\<exists>s' \<in> A. twin s s' \<and> x = holds_permission u (db_tables (dc_db c)) p s' \<and> (cold u p s c \<longrightarrow> s' = s))) \<and>
    (db_faults (dc_db c) = [] \<longrightarrow> (\<exists>x. r = Inr x)) \<and> (\<forall>e. r = Inl e \<longrightarrow> (\<exists>m. e = StoreErr (Sqlx m)))"
proof (cases "cache_key u p s")
  case None
  then have "is_system p" by (simp add: cache_key_None)
  then have "holds_permission u (db_tables (dc_db c)) p s = {}"
    by (cases p) (auto simp: holds_permission_def grants_def names_principal_def)
  then show ?thesis using assms None by (auto simp: permissions_def serves_def intro!: bexI [of _ s])
next
  case (Some k)
  show ?thesis
  proof (cases "cache_lookup k (dc_generation c) c")
    case None
    obtain r1 c1 where q: "query_permissions u p s c = (r1, c1)" by fastforce
    note res = query_permissions_result [OF q]
    have "coherent u A c1" "dc_generation c1 = dc_generation c" "db_tables (dc_db c1) = db_tables (dc_db c)"
      using res assms(2) by auto
    moreover have "db_faults (dc_db c) = [] \<longrightarrow> c1 = c \<and> (\<exists>x. r1 = Inr x)"
      using q by (auto simp: query_permissions_run)
    moreover have "coherent u A (cache_fill k x (dc_generation c) c1)" if "r1 = Inr x" for x
      using that res calculation(1,3) right_for_holds_permission [OF assms(1,3) Some assms(4)] by (intro coherent_fill) auto
    ultimately show ?thesis
      using assms(4,5) Some None q res
      by (cases r1) (auto simp: permissions_def abind_def serves_def cache_fill_def intro!: bexI [of _ s])
  next
    case (Some ps)
    then have "\<not> cold u p s c" using \<open>cache_key u p s = Some k\<close> by (simp add: cold_def)
    then show ?thesis
      using assms Some cache_lookup_coherent [OF assms(2) Some assms(3)] \<open>cache_key u p s = Some k\<close>
      by (auto simp: permissions_def serves_def)
  qed
qed

lemma is_active_principal_result:
  assumes "is_active_principal u p c = (r, c')"
  shows "(\<exists>fs. c' = c\<lparr>dc_db := (dc_db c)\<lparr>db_faults := fs\<rparr>\<rparr>) \<and> (\<forall>x. r = Inr x \<longrightarrow> x = in_standing u (db_tables (dc_db c)) p) \<and>
    (\<forall>e. r = Inl e \<longrightarrow> (\<exists>m. e = StoreErr (Sqlx m)))"
proof (cases "is_system p")
  case True
  have "\<exists>fs. c = c\<lparr>dc_db := (dc_db c)\<lparr>db_faults := fs\<rparr>\<rparr>" by (rule exI [of _ "db_faults (dc_db c)"]) simp
  then show ?thesis using True assms by (cases p) auto
next
  case False
  define f where "f = (case p of
      PrincipalUser org user \<Rightarrow> count_active_memberships (org_canonical u org) (user_canonical u user)
    | PrincipalServiceAccount org sa \<Rightarrow> count_enabled_accounts (org_canonical u org) (service_account_canonical u sa)
    | PrincipalSystem org \<Rightarrow> \<lambda>t. 0)"
  have f: "is_active_principal u p c = abind (on_db (query f)) (\<lambda>n. aret (0 < n)) c" and
    s: "in_standing u (db_tables (dc_db c)) p \<longleftrightarrow> 0 < f (db_tables (dc_db c))"
    using False by (cases p; simp add: f_def count_active_memberships_pos count_enabled_accounts_pos)+
  obtain r1 c1 where q: "on_db (query f) c = (r1, c1)" by fastforce
  show ?thesis using assms on_db_query [OF q] q unfolding f s by (cases r1) (auto simp: abind_def)
qed

text \<open>One lemma carries \<open>authorize\<close>: whatever statements fail, the answer is the verdict or a store error.\<close>

lemma authorize_result:
  assumes "ulid_ok u" "coherent u A c" "s \<in> A" "authorize u p perm s c = (r, c')"
  shows "coherent u A c' \<and> db_tables (dc_db c') = db_tables (dc_db c) \<and>
    ((\<exists>s' \<in> A. twin s s' \<and> r = verdict u (db_tables (dc_db c)) p perm s' \<and> (cold u p s c \<longrightarrow> s' = s)) \<or>
     db_faults (dc_db c) \<noteq> [] \<and> (\<exists>m. r = Inl (StoreErr (Sqlx m))))"
proof (cases "is_system p \<or> scope_org s \<noteq> principal_org p")
  case True
  then show ?thesis using assms by (auto simp: authorize_def verdict_def split: if_splits intro!: bexI [of _ s])
next
  case False
  then have pr: "scope_org s = principal_org p" by simp
  obtain r1 c1 where a: "is_active_principal u p c = (r1, c1)" by fastforce
  note ra = is_active_principal_result [OF a]
  have c1: "coherent u A c1" "db_tables (dc_db c1) = db_tables (dc_db c)" using ra assms(2) by auto
  have nf: "db_faults (dc_db c) = [] \<Longrightarrow> c1 = c \<and> (\<exists>x. r1 = Inr x)"
    using a by (auto simp: is_active_principal_run)
  show ?thesis
  proof (cases "r1 = Inr True")
    case True
    obtain r2 c2 where b: "permissions u p s c1 = (r2, c2)" by fastforce
    note rb = permissions_result [OF assms(1) c1(1) pr assms(3) b]
    have st: "in_standing u (db_tables (dc_db c)) p" using ra True by auto
    have cl: "cold u p s c1 = cold u p s c" using ra by auto
    have "authorize u p perm s c = (case r2 of Inl e \<Rightarrow> Inl e
        | Inr held \<Rightarrow> if perm \<in> held then Inr () else Inl (DeniedErr (MissingPermission perm (scope_kind_word (scope_kind s)))), c2)"
      using False a b True by (cases r2) (auto simp: authorize_def abind_def)
    then have r: "c' = c2" "r = (case r2 of Inl e \<Rightarrow> Inl e
        | Inr held \<Rightarrow> if perm \<in> held then Inr () else Inl (DeniedErr (MissingPermission perm (scope_kind_word (scope_kind s)))))"
      using assms(4) by simp_all
    have keeps: "coherent u A c'" "db_tables (dc_db c') = db_tables (dc_db c)" using rb c1 r(1) by (auto simp: serves_def)
    show ?thesis
    proof (cases r2)
      case (Inl e)
      then have "db_faults (dc_db c) \<noteq> []" "\<exists>m. e = StoreErr (Sqlx m)" using rb nf by auto
      then show ?thesis using keeps r(2) Inl by auto
    next
      case (Inr held)
      then obtain s' where s': "s' \<in> A" "twin s s'" "held = holds_permission u (db_tables (dc_db c)) p s'" "cold u p s c \<longrightarrow> s' = s"
        using rb c1(2) cl by auto
      have "verdict u (db_tables (dc_db c)) p perm s' = r"
        using False st twin_same [OF s'(2)] s'(3) r(2) Inr by (simp add: verdict_def)
      then show ?thesis using keeps s'(1,2,4) by blast
    qed
  next
    case False
    then show ?thesis
      using assms(3,4) \<open>\<not> (is_system p \<or> scope_org s \<noteq> principal_org p)\<close> a ra c1 nf
      by (cases r1) (auto simp: authorize_def abind_def verdict_def intro!: bexI [of _ s])
  qed
qed

section \<open>The interface\<close>

text \<open>The trait \<open>Authorizer\<close>: an answer \<open>Ok\<close> is sound, and asking changes neither what is allowed nor the
  health of the state. What follows for a sequence of checks is proved once.\<close>

primrec answers :: "('p \<Rightarrow> 'q \<Rightarrow> 's \<Rightarrow> ('c, 'e, unit) act) \<Rightarrow> ('p \<times> 'q \<times> 's) list \<Rightarrow> 'c \<Rightarrow> bool list" where
  "answers authz [] c = []"
| "answers authz (x # xs) c =
     (case x of (p, q, s) \<Rightarrow> case authz p q s c of (r, c') \<Rightarrow> is_ok r # answers authz xs c')"

locale authorizer =
  fixes authz :: "'p \<Rightarrow> 'q \<Rightarrow> 's \<Rightarrow> ('c, 'e, unit) act"
    and ok :: "'c \<Rightarrow> bool" and fits :: "'s \<Rightarrow> bool" and allowed :: "'c \<Rightarrow> 'p \<Rightarrow> 'q \<Rightarrow> 's \<Rightarrow> bool"
  assumes keeps: "ok c \<Longrightarrow> fits s \<Longrightarrow> authz p q s c = (r, c') \<Longrightarrow> ok c' \<and> allowed c' = allowed c"
    and sound: "ok c \<Longrightarrow> fits s \<Longrightarrow> authz p q s c = (Inr x, c') \<Longrightarrow> allowed c p q s"
begin

lemma answers_sound:
  assumes "ok c" "list_all (\<lambda>(p, q, s). fits s) xs"
  shows "list_all2 (\<lambda>(p, q, s) yes. yes \<longrightarrow> allowed c p q s) xs (answers authz xs c)"
  using assms
proof (induction xs arbitrary: c)
  case (Cons x xs)
  obtain p q s where x: "x = (p, q, s)" by (cases x)
  obtain r c' where a: "authz p q s c = (r, c')" by fastforce
  have k: "ok c'" "allowed c' = allowed c" using keeps [OF _ _ a] Cons.prems x by auto
  have "allowed c p q s" if "r = Inr y" for y using sound a that Cons.prems x by auto
  moreover have "list_all2 (\<lambda>(p, q, s) yes. yes \<longrightarrow> allowed c p q s) xs (answers authz xs c')"
    using Cons.IH [OF k(1)] Cons.prems(2) k(2) by simp
  ultimately show ?case using a x by (cases r) auto
qed simp

end

definition authz_ok :: "ulid_crate \<Rightarrow> Scope set \<Rightarrow> DecisionCache \<Rightarrow> bool" where
  "authz_ok u A c \<longleftrightarrow> ulid_ok u \<and> coherent u A c"

definition authz_allowed :: "ulid_crate \<Rightarrow> Scope set \<Rightarrow> DecisionCache \<Rightarrow> Principal \<Rightarrow> Permission \<Rightarrow> Scope \<Rightarrow> bool" where
  "authz_allowed u A c p perm s \<longleftrightarrow> (\<exists>s' \<in> A. twin s s' \<and> verdict u (db_tables (dc_db c)) p perm s' = Inr ())"

interpretation dba: authorizer "authorize u" "authz_ok u A" "\<lambda>s. s \<in> A" "authz_allowed u A" for u A
proof unfold_locales
  fix c s p perm r c'
  assume "authz_ok u A c" "s \<in> A" "authorize u p perm s c = (r, c')"
  then show "authz_ok u A c' \<and> authz_allowed u A c' = authz_allowed u A c"
    using authorize_result [of u A c s p perm r c'] by (auto simp: authz_ok_def authz_allowed_def fun_eq_iff)
next
  fix c s p perm x c'
  assume "authz_ok u A c" "s \<in> A" "authorize u p perm s c = (Inr x, c')"
  then show "authz_allowed u A c p perm s"
    using authorize_result [of u A c s p perm "Inr x" c'] by (auto simp: authz_ok_def authz_allowed_def)
qed

section \<open>Interleaving\<close>

text \<open>A request for permissions that misses the cache is suspended twice: after it has loaded the
  generation, and after the query. In between other requests fill, the tables change, and
  \<open>invalidate\<close> runs; it too is two steps, the bump and the clearing. Two ghosts: \<open>as_dirty\<close>, the
  tables have changed since the last bump; \<open>as_asked\<close>, the scopes of the requests so far.\<close>

datatype Fill =
    Loaded Principal Scope CacheKey "64 word"
  | Queried CacheKey "64 word" "Permission set"

record AuthzSys =
  as_cache :: DecisionCache
  as_fills :: "Fill list"
  as_dirty :: bool
  as_asked :: "Scope set"

fun fill_generation :: "Fill \<Rightarrow> 64 word" where
  "fill_generation (Loaded _ _ _ g) = g"
| "fill_generation (Queried _ g _) = g"

inductive authz_step :: "ulid_crate \<Rightarrow> AuthzSys \<Rightarrow> AuthzSys \<Rightarrow> bool" for u :: ulid_crate where
  load: "scope_org s = principal_org p \<Longrightarrow> cache_key u p s = Some k \<Longrightarrow>
    authz_step u y (y\<lparr>as_fills := Loaded p s k (dc_generation (as_cache y)) # as_fills y, as_asked := insert s (as_asked y)\<rparr>)"
| run_query: "as_fills y = xs @ Loaded p s k g # ys \<Longrightarrow> query_permissions u p s (as_cache y) = (Inr ps, c) \<Longrightarrow>
    authz_step u y (y\<lparr>as_cache := c, as_fills := xs @ Queried k g ps # ys\<rparr>)"
| fail_query: "as_fills y = xs @ Loaded p s k g # ys \<Longrightarrow> query_permissions u p s (as_cache y) = (Inl e, c) \<Longrightarrow>
    authz_step u y (y\<lparr>as_cache := c, as_fills := xs @ ys\<rparr>)"
| hit: "as_fills y = xs @ Loaded p s k g # ys \<Longrightarrow> cache_lookup k g (as_cache y) = Some ps \<Longrightarrow>
    authz_step u y (y\<lparr>as_fills := xs @ ys\<rparr>)"
| fill: "as_fills y = xs @ Queried k g ps # ys \<Longrightarrow>
    authz_step u y (y\<lparr>as_cache := cache_fill k ps g (as_cache y), as_fills := xs @ ys\<rparr>)"
| change: "authz_step u y (y\<lparr>as_cache := (as_cache y)\<lparr>dc_db := db\<rparr>, as_dirty := True\<rparr>)"
| bump: "dc_generation (as_cache y) < - 1 \<Longrightarrow>
    authz_step u y (y\<lparr>as_cache := bump_generation (as_cache y), as_dirty := False\<rparr>)"
| clear: "authz_step u y (y\<lparr>as_cache := clear_entries (as_cache y)\<rparr>)"
| tick: "0 \<le> d \<Longrightarrow> authz_step u y (y\<lparr>as_cache := (as_cache y)\<lparr>dc_clock := dc_clock (as_cache y) + d\<rparr>\<rparr>)"

definition authz_start :: "Db \<Rightarrow> int \<Rightarrow> AuthzSys" where
  "authz_start db now = \<lparr>as_cache = cache_new db now, as_fills = [], as_dirty = False, as_asked = {}\<rparr>"

definition generations_bounded :: "AuthzSys \<Rightarrow> bool" where
  "generations_bounded y \<longleftrightarrow>
     (\<forall>k e. dc_entries (as_cache y) k = Some e \<longrightarrow> ce_generation e \<le> dc_generation (as_cache y)) \<and>
     (\<forall>f \<in> set (as_fills y). fill_generation f \<le> dc_generation (as_cache y))"

fun fill_proper :: "ulid_crate \<Rightarrow> Scope set \<Rightarrow> Fill \<Rightarrow> bool" where
  "fill_proper u A (Loaded p s k g) \<longleftrightarrow> scope_org s = principal_org p \<and> cache_key u p s = Some k \<and> s \<in> A"
| "fill_proper u A (Queried k g ps) \<longleftrightarrow> True"

fun fill_right :: "ulid_crate \<Rightarrow> Scope set \<Rightarrow> DecisionCache \<Rightarrow> Fill \<Rightarrow> bool" where
  "fill_right u A c (Loaded p s k g) \<longleftrightarrow> True"
| "fill_right u A c (Queried k g ps) \<longleftrightarrow> (g = dc_generation c \<longrightarrow> right_for u A (db_tables (dc_db c)) k ps)"

definition authz_inv :: "ulid_crate \<Rightarrow> AuthzSys \<Rightarrow> bool" where
  "authz_inv u y \<longleftrightarrow> generations_bounded y \<and> (\<forall>f \<in> set (as_fills y). fill_proper u (as_asked y) f) \<and>
     (\<not> as_dirty y \<longrightarrow> coherent u (as_asked y) (as_cache y) \<and> (\<forall>f \<in> set (as_fills y). fill_right u (as_asked y) (as_cache y) f))"

lemmas authz_inv_defs = authz_inv_def generations_bounded_def

lemma fill_right_keeps:
  "dc_generation c' = dc_generation c \<Longrightarrow> db_tables (dc_db c') = db_tables (dc_db c) \<Longrightarrow>
    fill_right u A c' f = fill_right u A c f"
  by (cases f) simp_all

lemma fill_mono: "A \<subseteq> B \<Longrightarrow> fill_proper u A f \<Longrightarrow> fill_proper u B f" "A \<subseteq> B \<Longrightarrow> fill_right u A c f \<Longrightarrow> fill_right u B c f"
  using right_for_mono by (cases f; auto)+

lemma fill_right_older: "fill_generation f < dc_generation c \<Longrightarrow> fill_right u A c f"
  by (cases f) auto

lemma query_permissions_keeps:
  assumes "query_permissions u p s c = (r, c')"
  shows "dc_entries c' = dc_entries c" "dc_generation c' = dc_generation c" "db_tables (dc_db c') = db_tables (dc_db c)"
    "coherent u A c' = coherent u A c"
  using query_permissions_result [OF assms] by auto

lemma bumped: "(g :: 64 word) \<le> h \<Longrightarrow> h < - 1 \<Longrightarrow> g < h + 1"
  by unat_arith

lemma authz_step_inv:
  assumes "authz_step u y y'" "ulid_ok u" "authz_inv u y"
  shows "authz_inv u y'"
  using assms(1,3)
proof (induction rule: authz_step.induct)
  case (load s p k y)
  have m: "as_asked y \<subseteq> insert s (as_asked y)" by blast
  have "coherent u (insert s (as_asked y)) (as_cache y)" if "\<not> as_dirty y"
    using load that coherent_mono [OF _ m] by (auto simp: authz_inv_defs)
  then show ?case using load fill_mono [OF m] by (auto simp: authz_inv_defs)
next
  case (run_query y xs p s k g ys ps c)
  note q = query_permissions_keeps [OF run_query(2)]
  have "scope_org s = principal_org p" "cache_key u p s = Some k" "s \<in> as_asked y" using run_query by (auto simp: authz_inv_defs)
  then have "right_for u (as_asked y) (db_tables (dc_db (as_cache y))) k ps"
    using query_permissions_result [OF run_query(2)] right_for_holds_permission [OF assms(2)] by simp
  then show ?case using run_query q by (auto simp: authz_inv_defs fill_right_keeps [OF q(2,3)])
next
  case (fail_query y xs p s k g ys e c)
  note q = query_permissions_keeps [OF fail_query(2)]
  show ?case using fail_query q by (auto simp: authz_inv_defs fill_right_keeps [OF q(2,3)])
next
  case (fill y xs k g ps ys)
  have "coherent u (as_asked y) (cache_fill k ps g (as_cache y))" if "\<not> as_dirty y"
    using fill that by (intro coherent_fill) (auto simp: authz_inv_defs)
  moreover have "fill_right u (as_asked y) (cache_fill k ps g (as_cache y)) f = fill_right u (as_asked y) (as_cache y) f" for f
    by (rule fill_right_keeps) (simp_all add: cache_fill_def)
  ultimately show ?case using fill by (auto simp: authz_inv_defs cache_fill_def)
next
  case (bump y)
  then have lt: "dc_entries (as_cache y) k = Some e \<Longrightarrow> ce_generation e < dc_generation (as_cache y) + 1"
    "f \<in> set (as_fills y) \<Longrightarrow> fill_generation f < dc_generation (as_cache y) + 1" for k e f
    unfolding authz_inv_defs using bumped by blast+
  then have "coherent u (as_asked y) (bump_generation (as_cache y))"
    by (fastforce simp: coherent_def bump_generation_def)
  moreover have "fill_right u (as_asked y) (bump_generation (as_cache y)) f" if "f \<in> set (as_fills y)" for f
    using lt(2) [OF that] by (intro fill_right_older) (simp add: bump_generation_def)
  ultimately show ?case using bump lt by (auto simp: authz_inv_defs bump_generation_def less_imp_le)
next
  case (clear y)
  have "fill_right u (as_asked y) (clear_entries (as_cache y)) f = fill_right u (as_asked y) (as_cache y) f" for f
    by (rule fill_right_keeps) (simp_all add: clear_entries_def)
  then show ?case using clear by (auto simp: authz_inv_defs clear_entries_def coherent_def)
next
  case (tick d y)
  have "fill_right u (as_asked y) ((as_cache y)\<lparr>dc_clock := dc_clock (as_cache y) + d\<rparr>) f = fill_right u (as_asked y) (as_cache y) f" for f
    by (rule fill_right_keeps) simp_all
  then show ?case using tick by (auto simp: authz_inv_defs coherent_def)
qed (auto simp: authz_inv_defs)

lemma authz_inv_start: "authz_inv u (authz_start db now)"
  by (simp add: authz_inv_defs authz_start_def cache_new_def coherent_def)

lemma authz_reachable_inv:
  assumes "(authz_step u)\<^sup>*\<^sup>* (authz_start db now) y" "ulid_ok u"
  shows "authz_inv u y"
  using assms(1) by induction (auto intro: authz_inv_start authz_step_inv assms(2))

section \<open>Properties\<close>

text \<open>An organization, a user in it, and a role that may run pipelines, granted on one project.\<close>

definition example_assignment :: Assignment where
  "example_assignment = \<lparr>ra_org_id = org_canonical ulid_ref (OrgId 1), ra_principal_kind = ''user'',
     ra_principal_id = user_canonical ulid_ref (UserId 5), ra_role_id = ''r1'', ra_scope_kind = ''project'',
     ra_scope_id = project_canonical ulid_ref (ProjectId 2)\<rparr>"

definition example_grants :: Tables where
  "example_grants = example_tables\<lparr>
     t_roles := [\<lparr>ro_id = ''r1'', ro_org = Some (org_canonical ulid_ref (OrgId 1)), ro_key = ''runner'', ro_name = ''Runner'',
       ro_description = '''', ro_is_system = False, ro_created_at = 0\<rparr>],
     t_role_permissions := [(''r1'', ''pipeline.run''), (''r1'', ''pipeline.fly'')],
     t_users := [(user_canonical ulid_ref (UserId 5), ''active'')],
     t_memberships := [(org_canonical ulid_ref (OrgId 1), user_canonical ulid_ref (UserId 5), ''active'')],
     t_role_assignments := [example_assignment]\<rparr>"

definition example_cache :: DecisionCache where
  "example_cache = cache_new \<lparr>db_tables = example_grants, db_faults = []\<rparr> 0"

abbreviation example_user :: Principal where
  "example_user \<equiv> PrincipalUser (OrgId 1) (UserId 5)"

lemma cold_new: "cold u p s (cache_new db now)"
  by (simp add: cold_def cache_new_def cache_lookup_def)

lemma authorize_verdict:
  assumes "ulid_ok u" "db_faults db = []"
  shows "fst (authorize u p perm s (cache_new db now)) = verdict u (db_tables db) p perm s"
proof -
  obtain r c' where a: "authorize u p perm s (cache_new db now) = (r, c')" by fastforce
  from authorize_result [OF assms(1) coherent_new _ a, of "{s}"] assms(2) cold_new show ?thesis unfolding a by (auto simp: cache_new_def)
qed

lemma example_permission: "perm_as_str perm \<in> {''pipeline.run'', ''pipeline.fly''} \<longleftrightarrow> perm = PipelineRun"
  by (cases perm) simp_all

lemma example_held:
  "holds_permission ulid_ref example_grants example_user (ScopeProject (OrgId 1) (ProjectId 2)) = {PipelineRun}"
proof -
  have "perms_of example_grants ''r1'' = {''pipeline.run'', ''pipeline.fly''}"
    by (auto simp: perms_of_def example_grants_def)
  then have "grants ulid_ref example_grants example_user perm (ScopeProject (OrgId 1) (ProjectId 2)) example_assignment \<longleftrightarrow>
      perm = PipelineRun" for perm
    using example_permission [of perm]
    by (simp add: grants_def names_principal_def grant_id_def example_assignment_def)
  moreover have "t_role_assignments example_grants = [example_assignment]" by (simp add: example_grants_def)
  ultimately show ?thesis by (simp add: holds_permission_def)
qed

lemma example_standing: "in_standing ulid_ref example_grants example_user"
  by (simp add: example_grants_def)

lemma example_authorized:
  "fst (authorize ulid_ref example_user PipelineRun (ScopeProject (OrgId 1) (ProjectId 2)) example_cache) = Inr ()"
proof -
  have "verdict ulid_ref example_grants example_user PipelineRun (ScopeProject (OrgId 1) (ProjectId 2)) = Inr ()"
    using example_standing example_held by (simp add: verdict_def)
  then show ?thesis
    using authorize_verdict [OF ulid_ref_ok, of "\<lparr>db_tables = example_grants, db_faults = []\<rparr>"] by (simp add: example_cache_def)
qed

text \<open>C13: \<open>authorize\<close> refines its specification. When no statement fails, its
  answer is the declarative verdict: system principals pass, another organization's scope is refused
  before anything else, then a principal without standing, and otherwise the answer is whether some grant
  names the principal (or a team of the organization it is in), includes the permission and sits at the scope or
  above it. When no live entry answers the request, as with a fresh cache, the verdict is that of the scope
  asked about. When a live entry of a coherent cache does, it is the verdict of a scope that the key of the cache does not tell apart
  from it (the same scope, or the same pipeline under another project) and for which a request came before: the
  key leaves out the project. The cache stays coherent and the tables are unchanged.\<close>

theorem authorize_refines_grants:
  assumes "ulid_ok u" "coherent u A c" "db_faults (dc_db c) = []"
  shows "\<exists>c' s'. authorize u p perm s c = (verdict u (db_tables (dc_db c)) p perm s', c') \<and>
    twin s s' \<and> s' \<in> insert s A \<and> (cold u p s c \<longrightarrow> s' = s) \<and>
    coherent u (insert s A) c' \<and> db_tables (dc_db c') = db_tables (dc_db c)"
proof -
  obtain r c' where a: "authorize u p perm s c = (r, c')" by fastforce
  have "coherent u (insert s A) c" using coherent_mono [OF assms(2)] by blast
  from authorize_result [OF assms(1) this _ a] show ?thesis using assms(3) a by auto
qed

theorem authorize_refines_grants_witness:
  "\<exists>c'. authorize ulid_ref example_user PipelineRun (ScopePipeline (OrgId 1) (ProjectId 2) (PipelineId 3)) example_cache =
     (verdict ulid_ref example_grants example_user PipelineRun (ScopePipeline (OrgId 1) (ProjectId 2) (PipelineId 3)), c')"
  using authorize_refines_grants [OF ulid_ref_ok coherent_new [of _ "{}" "\<lparr>db_tables = example_grants, db_faults = []\<rparr>" 0], of example_user PipelineRun
      "ScopePipeline (OrgId 1) (ProjectId 2) (PipelineId 3)"] cold_new
  by (auto simp: example_cache_def cache_new_def)

lemma verdict_Inr:
  "verdict u t p perm s = Inr () \<longleftrightarrow> is_system p \<or>
    scope_org s = principal_org p \<and> in_standing u t p \<and> (\<exists>a \<in> set (t_role_assignments t). grants u t p perm s a)"
  by (auto simp: verdict_def holds_permission_def)

lemma authz_allowed_D:
  "authz_allowed u B c p perm s \<Longrightarrow> is_system p \<or> scope_org s = principal_org p \<and> in_standing u (db_tables (dc_db c)) p \<and>
     (\<exists>s' \<in> B. twin s s' \<and> (\<exists>a \<in> set (t_role_assignments (db_tables (dc_db c))). grants u (db_tables (dc_db c)) p perm s' a))"
  unfolding authz_allowed_def verdict_Inr using twin_same by metis

text \<open>C14: \<open>authorize\<close> fails closed over a whole sequence of checks: whatever statements fail on the way and however
  the checks warm the cache for one another, every check that is answered \<open>Ok\<close> is of a system principal, or of a principal in standing that the
  grants allow, at the scope asked about or, for a pipeline, at the same pipeline under another project that
  was asked about too. Where every pipeline is asked about under one project, that is the scope itself.\<close>

theorem authorize_fails_closed:
  assumes "ulid_ok u" "coherent u A c"
  shows "list_all2 (\<lambda>(p, perm, s) yes. yes \<longrightarrow> is_system p \<or>
      scope_org s = principal_org p \<and> in_standing u (db_tables (dc_db c)) p \<and>
      (\<exists>s' \<in> A \<union> set (map (\<lambda>(p, perm, s). s) xs). twin s s' \<and>
        (\<exists>a \<in> set (t_role_assignments (db_tables (dc_db c))). grants u (db_tables (dc_db c)) p perm s' a)))
    xs (answers (authorize u) xs c)"
proof -
  let ?A = "A \<union> set (map (\<lambda>(p, perm, s). s) xs)"
  have "authz_ok u ?A c" using assms(1) coherent_mono [OF assms(2)] by (simp add: authz_ok_def)
  moreover have "list_all (\<lambda>(p, perm, s). s \<in> ?A) xs" by (force simp: list_all_iff)
  ultimately have "list_all2 (\<lambda>(p, perm, s) yes. yes \<longrightarrow> authz_allowed u ?A c p perm s) xs (answers (authorize u) xs c)"
    by (rule dba.answers_sound)
  then show ?thesis
    by (rule list_all2_mono) (unfold split_beta, blast dest: authz_allowed_D)
qed

theorem authorize_fails_closed_witness:
  "answers (authorize ulid_ref) [(example_user, PipelineRun, ScopeProject (OrgId 1) (ProjectId 2))] example_cache = [True] \<and>
   (\<exists>a \<in> set (t_role_assignments example_grants).
     grants ulid_ref example_grants example_user PipelineRun (ScopeProject (OrgId 1) (ProjectId 2)) a)"
proof -
  let ?xs = "[(example_user, PipelineRun, ScopeProject (OrgId 1) (ProjectId 2))]"
  have a: "answers (authorize ulid_ref) ?xs example_cache = [True]"
    using example_authorized by (auto split: prod.split)
  have "db_tables (dc_db example_cache) = example_grants" "coherent ulid_ref {} example_cache"
    by (simp_all add: example_cache_def cache_new_def coherent_def)
  then show ?thesis using authorize_fails_closed [OF ulid_ref_ok, of "{}" example_cache ?xs] a by simp
qed

text \<open>C15: Invalidation takes effect at once, whatever is in flight. Let requests of any principal at any scope of its
  organization load the generation, query, and fill the cache, let the tables change and the two halves of \<open>invalidate\<close> run, in any order (with fewer than
  \<open>2 ^ 64\<close> invalidations). In every state in which no table has changed since the last bump of the
  generation, \<open>authorize\<close> answers by the current tables, or with the error of a failed statement: a fill that started before a
  revocation cannot put the revoked permission back. The current tables are read at the scope asked about, or, for a pipeline,
  at the same pipeline under another project that a request named before, since the key of the cache leaves out the project.\<close>

theorem invalidation_is_prompt:
  assumes "ulid_ok u" "(authz_step u)\<^sup>*\<^sup>* (authz_start db now) y" "\<not> as_dirty y"
  shows "(\<exists>s' \<in> insert s (as_asked y). twin s s' \<and>
      fst (authorize u p perm s (as_cache y)) = verdict u (db_tables (dc_db (as_cache y))) p perm s') \<or>
    db_faults (dc_db (as_cache y)) \<noteq> [] \<and> (\<exists>m. fst (authorize u p perm s (as_cache y)) = Inl (StoreErr (Sqlx m)))"
proof -
  have "coherent u (as_asked y) (as_cache y)"
    using authz_reachable_inv [OF assms(2,1)] assms(3) by (simp add: authz_inv_def)
  then have "coherent u (insert s (as_asked y)) (as_cache y)" by (rule coherent_mono) blast
  moreover obtain r c' where a: "authorize u p perm s (as_cache y) = (r, c')" by fastforce
  ultimately show ?thesis using authorize_result [OF assms(1) _ _ a] unfolding a fst_conv by blast
qed

text \<open>A fill loads its generation and queries; the grant is revoked; the cache is invalidated; the fill completes.\<close>

definition example_revoked :: Db where
  "example_revoked = \<lparr>db_tables = example_grants\<lparr>t_role_assignments := []\<rparr>, db_faults = []\<rparr>"

definition example_key :: CacheKey where
  "example_key = (org_canonical ulid_ref (OrgId 1), user_canonical ulid_ref (UserId 5), ''project'',
     project_canonical ulid_ref (ProjectId 2))"

definition example_late :: AuthzSys where
  "example_late = \<lparr>as_cache = cache_fill example_key {PipelineRun} 0 (invalidate (example_cache\<lparr>dc_db := example_revoked\<rparr>)),
     as_fills = [], as_dirty = False, as_asked = {ScopeProject (OrgId 1) (ProjectId 2)}\<rparr>"

lemma example_late_reachable:
  "(authz_step ulid_ref)\<^sup>*\<^sup>* (authz_start \<lparr>db_tables = example_grants, db_faults = []\<rparr> 0) example_late"
proof -
  let ?s = "ScopeProject (OrgId 1) (ProjectId 2)" and ?c = example_cache
  let ?z = "\<lambda>c fs d a. \<lparr>as_cache = c, as_fills = fs, as_dirty = d, as_asked = a\<rparr>"
  let ?y = "\<lambda>c fs d. ?z c fs d {?s}"
  let ?L = "Loaded example_user ?s example_key 0" and ?Q = "Queried example_key 0 {PipelineRun}"
  let ?r = "?c\<lparr>dc_db := example_revoked\<rparr>"
  have k: "cache_key ulid_ref example_user ?s = Some example_key" by (simp add: cache_key_def example_key_def)
  have g: "dc_generation ?c = 0" "db_faults (dc_db ?c) = []" by (simp_all add: example_cache_def cache_new_def)
  have q: "query_permissions ulid_ref example_user ?s ?c = (Inr {PipelineRun}, ?c)"
    using example_held query_permissions_run [OF g(2), of ulid_ref example_user ?s] by (simp add: example_cache_def cache_new_def)
  have 1: "authz_step ulid_ref (?z ?c [] False {}) (?y ?c [?L] False)"
    using load [of ?s example_user ulid_ref example_key "?z ?c [] False {}"] k g by simp
  have 2: "authz_step ulid_ref (?y ?c [?L] False) (?y ?c [?Q] False)"
    using run_query [of "?y ?c [?L] False" "[]" example_user ?s example_key 0 "[]" ulid_ref "{PipelineRun}" ?c] q by simp
  have 3: "authz_step ulid_ref (?y ?c [?Q] False) (?y ?r [?Q] True)"
    using change [of ulid_ref "?y ?c [?Q] False" example_revoked] by simp
  have 4: "authz_step ulid_ref (?y ?r [?Q] True) (?y (bump_generation ?r) [?Q] False)"
    using bump [of "?y ?r [?Q] True" ulid_ref] g by (simp add: word_neq_0_conv [symmetric])
  have 5: "authz_step ulid_ref (?y (bump_generation ?r) [?Q] False) (?y (invalidate ?r) [?Q] False)"
    using clear [of ulid_ref "?y (bump_generation ?r) [?Q] False"] by (simp add: invalidate_def)
  have 6: "authz_step ulid_ref (?y (invalidate ?r) [?Q] False) example_late"
    using fill [of "?y (invalidate ?r) [?Q] False" "[]" example_key 0 "{PipelineRun}" "[]" ulid_ref] by (simp add: example_late_def)
  have "authz_start \<lparr>db_tables = example_grants, db_faults = []\<rparr> 0 = ?z ?c [] False {}"
    by (simp add: authz_start_def example_cache_def)
  moreover have "(authz_step ulid_ref)\<^sup>*\<^sup>* (?z ?c [] False {}) example_late"
    by (rule converse_rtranclp_into_rtranclp [where r = "authz_step ulid_ref", OF 1], rule converse_rtranclp_into_rtranclp [where r = "authz_step ulid_ref", OF 2],
        rule converse_rtranclp_into_rtranclp [where r = "authz_step ulid_ref", OF 3], rule converse_rtranclp_into_rtranclp [where r = "authz_step ulid_ref", OF 4],
        rule converse_rtranclp_into_rtranclp [where r = "authz_step ulid_ref", OF 5], rule r_into_rtranclp [where r = "authz_step ulid_ref", OF 6])
  ultimately show ?thesis by simp
qed

theorem invalidation_is_prompt_witness:
  "fst (authorize ulid_ref example_user PipelineRun (ScopeProject (OrgId 1) (ProjectId 2)) (as_cache example_late)) =
     Inl (DeniedErr (MissingPermission PipelineRun ''project''))"
proof -
  have "verdict ulid_ref (db_tables (dc_db (as_cache example_late))) example_user PipelineRun (ScopeProject (OrgId 1) (ProjectId 2)) =
     Inl (DeniedErr (MissingPermission PipelineRun ''project''))"
    by (simp add: verdict_def example_late_def holds_permission_def example_revoked_def cache_fill_def invalidate_def
        clear_entries_def bump_generation_def example_grants_def)
  moreover have "db_faults (dc_db (as_cache example_late)) = []"
    by (simp add: example_late_def example_revoked_def cache_fill_def invalidate_def clear_entries_def bump_generation_def)
  ultimately show ?thesis
    using invalidation_is_prompt [OF ulid_ref_ok example_late_reachable, of "ScopeProject (OrgId 1) (ProjectId 2)" example_user PipelineRun]
    by (simp add: example_late_def)
qed


text \<open>C30: Seeding and checking compose. After a successful \<open>bootstrap\<close>, a principal in standing whose grants are
  all of one built-in role, one of them at the scope or above it, is authorized for exactly the permissions
  the code gives that role.\<close>

theorem bootstrapped_role_authorizes:
  assumes "ulid_ok u" "scope_org s = principal_org p" "\<not> is_system p"
    and "db_faults db = []" "roles_wf (db_tables db)" "catalog_complete (db_tables db)" "inj gen"
      "\<forall>r. gen r \<notin> row_ids (db_tables db)" "bootstrap gen now db = (Inr (), db')"
    and "in_standing u (db_tables db) p" "sys_id (db_tables db') r = Some i"
    and "\<forall>a \<in> set (t_role_assignments (db_tables db)). names_principal u (db_tables db) p a \<longrightarrow> ra_role_id a = i"
    and "\<exists>a \<in> set (t_role_assignments (db_tables db)). names_principal u (db_tables db) p a \<and>
      ra_org_id a = org_canonical u (principal_org p) \<and>
      (\<exists>g \<in> ancestors s. ra_scope_kind a = scope_kind_as_str (scope_kind g) \<and> ra_scope_id a = grant_id u g)"
  shows "fst (authorize u p perm s (cache_new db' t0)) = Inr () \<longleftrightarrow> perm \<in> set (role_permissions r)"
proof -
  obtain t' where t': "bootstrap gen now db = (Inr (), db\<lparr>db_tables := t'\<rparr>)" "reconciled gen UNIV (db_tables db) t'"
    using bootstrap_run [OF assms(4-8)] by blast
  then have db': "db' = db\<lparr>db_tables := t'\<rparr>" using assms(9) by simp
  have rest: "same_rest (db_tables db) t'" using t'(2) by (simp add: reconciled_def)
  note T = same_rest_tables [OF rest]
  have st: "in_standing u t' p" using assms(10) T by (cases p) simp_all
  have nm: "names_principal u t' p a = names_principal u (db_tables db) p a" for a
    using T by (simp add: names_principal_def)
  have pm: "perms_of t' i = perm_as_str ` set (role_permissions r)"
    using t'(2) assms(11) db' by (simp add: reconciled_def)
  have "(\<exists>a \<in> set (t_role_assignments t'). grants u t' p perm s a) \<longleftrightarrow> perm_as_str perm \<in> perms_of t' i"
    using assms(12,13) unfolding grants_def nm T by blast
  also have "\<dots> \<longleftrightarrow> perm \<in> set (role_permissions r)" unfolding pm by (auto simp: perm_as_str_inject)
  finally have "verdict u t' p perm s = Inr () \<longleftrightarrow> perm \<in> set (role_permissions r)"
    unfolding verdict_Inr using st assms(2,3) by simp
  then show ?thesis
    using authorize_verdict [OF assms(1), of db' p perm s t0] assms(4) db' by simp
qed

definition example_viewer :: Db where
  "example_viewer = \<lparr>db_tables = (db_tables example_db)\<lparr>
     t_users := [(user_canonical ulid_ref (UserId 5), ''active'')],
     t_memberships := [(org_canonical ulid_ref (OrgId 1), user_canonical ulid_ref (UserId 5), ''active'')],
     t_role_assignments := [example_assignment]\<rparr>, db_faults = []\<rparr>"

lemma example_viewer_tables:
  "roles_wf (db_tables example_viewer)" "catalog_complete (db_tables example_viewer)" "inj role_key"
  "role_key r \<notin> row_ids (db_tables example_viewer)" "sys_id (db_tables example_viewer) Viewer = Some ''r1''"
  by (cases r; simp add: example_viewer_def example_db_def example_tables_def roles_wf_def sys_id_def row_ids_def
      system_roles_with_key_def catalog_complete_def inj_def role_key_inject)+

theorem bootstrapped_role_authorizes_witness:
  "\<exists>db'. bootstrap role_key 7 example_viewer = (Inr (), db') \<and>
    fst (authorize ulid_ref example_user LogRead (ScopeProject (OrgId 1) (ProjectId 2)) (cache_new db' 0)) = Inr () \<and>
    fst (authorize ulid_ref example_user SecretWrite (ScopeProject (OrgId 1) (ProjectId 2)) (cache_new db' 0)) \<noteq> Inr ()"
proof -
  let ?s = "ScopeProject (OrgId 1) (ProjectId 2)" and ?db = example_viewer
  note T = example_viewer_tables
  have f: "db_faults ?db = []" by (simp add: example_viewer_def)
  obtain t' where b: "bootstrap role_key 7 ?db = (Inr (), ?db\<lparr>db_tables := t'\<rparr>)" and r: "reconciled role_key UNIV (db_tables ?db) t'"
    using bootstrap_run [OF f T(1,2,3)] T(4) by blast
  have i: "sys_id (db_tables (?db\<lparr>db_tables := t'\<rparr>)) Viewer = Some ''r1''" using r T(5) by (simp add: reconciled_def)
  have st: "in_standing ulid_ref (db_tables ?db) example_user" by (simp add: example_viewer_def)
  have as: "t_role_assignments (db_tables ?db) = [example_assignment]" by (simp add: example_viewer_def)
  have n: "names_principal ulid_ref (db_tables ?db) example_user example_assignment"
    by (simp add: names_principal_def example_assignment_def)
  have A: "fst (authorize ulid_ref example_user perm ?s (cache_new (?db\<lparr>db_tables := t'\<rparr>) 0)) = Inr () \<longleftrightarrow>
      perm \<in> set (role_permissions Viewer)" for perm
    using T(4) as n
    by (intro bootstrapped_role_authorizes [OF ulid_ref_ok _ _ f T(1,2,3) _ b st i])
      (simp_all add: example_assignment_def grant_id_def)
  show ?thesis using b A [of LogRead] A [of SecretWrite] by simp
qed

text \<open>The two entry points agree, whatever the cache holds: \<open>authorize\<close> admits a permission exactly when
  \<open>effective_permissions\<close> lists it, and when the listing fails so does the check, with the same error.\<close>

theorem authorize_iff_effective:
  "case fst (effective_permissions u p s c) of
     Inr ps \<Rightarrow> (fst (authorize u p perm s c) = Inr ()) = (perm \<in> ps)
   | Inl e \<Rightarrow> fst (authorize u p perm s c) = Inl e"
  unfolding effective_permissions_def authorize_def by (auto simp: abind_def split: prod.splits sum.splits)

section \<open>The key of the cache\<close>

text \<open>The key of a pipeline scope leaves out the project, which the query reads. A check at a pipeline under the
  project a grant is for answers the next check, at the same pipeline under another project.\<close>

lemma key_ignores_project:
  "cache_key u p (ScopePipeline org project pipeline) = cache_key u p (ScopePipeline org project' pipeline)"
  by (cases "principal_id_string u p") (simp_all add: cache_key_def)

abbreviation scope_in :: "ulid \<Rightarrow> Scope" where
  "scope_in n \<equiv> ScopePipeline (OrgId 1) (ProjectId n) (PipelineId 3)"

lemma example_held_pipeline:
  "holds_permission ulid_ref example_grants example_user (scope_in n) = (if n = 2 then {PipelineRun} else {})"
proof -
  have "perms_of example_grants ''r1'' = {''pipeline.run'', ''pipeline.fly''}"
    by (auto simp: perms_of_def example_grants_def)
  then have "grants ulid_ref example_grants example_user perm (scope_in n) example_assignment \<longleftrightarrow>
      perm = PipelineRun \<and> n = 2" for perm
    using example_permission [of perm] canonical_inject(2) [OF ulid_ref_ok, of "ProjectId 2" "ProjectId n"]
    by (simp add: grants_def names_principal_def grant_id_def example_assignment_def)
  moreover have "t_role_assignments example_grants = [example_assignment]" by (simp add: example_grants_def)
  ultimately show ?thesis by (auto simp: holds_permission_def)
qed

lemma example_cache_fields:
  "db_tables (dc_db example_cache) = example_grants" "db_faults (dc_db example_cache) = []" "dc_generation example_cache = 0"
  "dc_entries example_cache = Map.empty" "dc_poisoned example_cache = False" "dc_clock example_cache = 0"
  by (simp_all add: example_cache_def cache_new_def)


lemma example_active: "is_active_principal ulid_ref example_user example_cache = (Inr True, example_cache)"
  using is_active_principal_run [of example_cache ulid_ref example_user] example_standing by (simp only: example_cache_fields)

lemma example_warmed:
  "snd (authorize ulid_ref example_user PipelineRun (scope_in 2) example_cache) =
     cache_fill (org_canonical ulid_ref (OrgId 1), user_canonical ulid_ref (UserId 5), ''pipeline'', pipeline_canonical ulid_ref (PipelineId 3))
       {PipelineRun} 0 example_cache"
  by (simp add: authorize_def abind_def example_active permissions_def query_permissions_run example_cache_fields
      cache_key_def cache_lookup_def example_held_pipeline del: is_active_principal.simps)

lemma cache_answers_for_other_project:
  "fst (authorize ulid_ref example_user PipelineRun (scope_in 9) example_cache) =
     Inl (DeniedErr (MissingPermission PipelineRun ''pipeline'')) \<and>
   fst (authorize ulid_ref example_user PipelineRun (scope_in 9)
     (snd (authorize ulid_ref example_user PipelineRun (scope_in 2) example_cache))) = Inr ()"
proof -
  have cold: "fst (authorize ulid_ref example_user PipelineRun (scope_in 9) example_cache) =
     Inl (DeniedErr (MissingPermission PipelineRun ''pipeline''))"
    by (simp add: authorize_def abind_def example_active permissions_def query_permissions_run example_cache_fields
        cache_key_def cache_lookup_def example_held_pipeline del: is_active_principal.simps)
  let ?w = "snd (authorize ulid_ref example_user PipelineRun (scope_in 2) example_cache)"
  have "is_active_principal ulid_ref example_user ?w = (Inr True, ?w)"
    using is_active_principal_run [of ?w ulid_ref example_user] example_standing
    by (simp add: example_warmed cache_fill_def example_cache_fields)
  then have "fst (authorize ulid_ref example_user PipelineRun (scope_in 9) ?w) = Inr ()"
    unfolding example_warmed
    by (simp add: authorize_def abind_def permissions_def cache_key_def
        cache_lookup_def cache_fill_def example_cache_fields CACHE_TTL_def del: is_active_principal.simps)
  then show ?thesis using cold by simp
qed

lemma cache_lookup_fill: "\<not> dc_poisoned c \<Longrightarrow> cache_lookup k g (cache_fill k ps g c) = Some ps"
  by (simp add: cache_lookup_def cache_fill_def CACHE_TTL_def)

lemma permissions_warm:
  assumes "permissions u p s c = (Inr ps, c')" "cache_key u p s = Some k" "\<not> dc_poisoned c" "db_faults (dc_db c) = []"
  shows "cache_lookup k (dc_generation c') c' = Some ps" "\<exists>es. c' = c\<lparr>dc_entries := es\<rparr>"
proof -
  have "c' = c \<and> cache_lookup k (dc_generation c) c = Some ps \<or> c' = cache_fill k ps (dc_generation c) c"
    using assms by (auto simp: permissions_def abind_def query_permissions_run split: option.splits)
  moreover have "dc_generation (cache_fill k ps (dc_generation c) c) = dc_generation c" by (simp add: cache_fill_def)
  ultimately show "cache_lookup k (dc_generation c') c' = Some ps" using cache_lookup_fill [OF assms(3)] by metis
  have "c = c\<lparr>dc_entries := dc_entries c\<rparr>" by simp
  then show "\<exists>es. c' = c\<lparr>dc_entries := es\<rparr>"
    using \<open>c' = c \<and> _ \<or> _\<close> assms(3) unfolding cache_fill_def by metis
qed

text \<open>C29: The cache admits at the wrong project. Once a check of a permission at a pipeline under one project has been answered \<open>Ok\<close>,
  the same check at that pipeline under any other project of the organization is answered \<open>Ok\<close> too, by the entry
  the first one used, whatever the grants say there.\<close>

theorem cache_admits_other_project:
  assumes "authorize u p perm (ScopePipeline org project pipeline) c = (Inr (), c1)"
    "\<not> dc_poisoned c" "db_faults (dc_db c) = []"
  shows "fst (authorize u p perm (ScopePipeline org project' pipeline) c1) = Inr ()"
proof (cases "is_system p")
  case True
  then show ?thesis by (simp add: authorize_def)
next
  case False
  let ?s = "ScopePipeline org project pipeline" and ?s' = "ScopePipeline org project' pipeline"
  obtain k where k: "cache_key u p ?s = Some k" using cache_key_None [of u p ?s] False by auto
  have act: "is_active_principal u p c = (Inr (in_standing u (db_tables (dc_db c)) p), c)"
    by (rule is_active_principal_run [OF assms(3)])
  then obtain ps where ps: "permissions u p ?s c = (Inr ps, c1)" "perm \<in> ps" and st: "in_standing u (db_tables (dc_db c)) p"
      "org = principal_org p"
    using assms(1) False by (auto simp: authorize_def abind_def split: if_splits prod.splits sum.splits)
  note W = permissions_warm [OF ps(1) k assms(2,3)]
  then have c1: "db_faults (dc_db c1) = []" "db_tables (dc_db c1) = db_tables (dc_db c)" using assms(3) by auto
  have "permissions u p ?s' c1 = (Inr ps, c1)"
    using W(1) k key_ignores_project [of u p org project' pipeline project] by (simp add: permissions_def)
  then show ?thesis
    using False st ps(2) is_active_principal_run [OF c1(1), of u p] c1(2) by (simp add: authorize_def abind_def)
qed

theorem cache_admits_other_project_witness:
  "fst (authorize ulid_ref example_user PipelineRun (scope_in 9) example_cache) =
     Inl (DeniedErr (MissingPermission PipelineRun ''pipeline'')) \<and>
   fst (authorize ulid_ref example_user PipelineRun (scope_in 9)
     (snd (authorize ulid_ref example_user PipelineRun (scope_in 2) example_cache))) = Inr ()"
proof -
  have "fst (authorize ulid_ref example_user PipelineRun (scope_in 2) example_cache) = Inr ()"
    by (simp add: authorize_def abind_def example_active permissions_def query_permissions_run example_cache_fields
        cache_key_def cache_lookup_def example_held_pipeline del: is_active_principal.simps)
  then have "authorize ulid_ref example_user PipelineRun (scope_in 2) example_cache =
      (Inr (), snd (authorize ulid_ref example_user PipelineRun (scope_in 2) example_cache))"
    by (metis prod.collapse)
  from cache_admits_other_project [OF this, of "ProjectId 9"] cache_answers_for_other_project
  show ?thesis by (simp add: example_cache_fields)
qed

end
