(* ===== verification/Jet_Frame.thy ===== *)
theory Jet_Frame
  imports Jet_Prelude
begin

text \<open>
  The frame header of the wire protocol (\<open>crates/jet-proto/src/frame.rs\<close>): message codes, flags,
  the 16-byte header with its encoder and its decoder, and the limits. The decoder accepts exactly
  the encodings of admissible headers, and its rejections are classified in the order of its checks.
\<close>

section \<open>Constants and message codes\<close>

definition MAGIC :: bytes where "MAGIC = [0x4A, 0x52]"
definition VERSION :: "16 word" where "VERSION = 1"
definition MIN_VERSION :: "16 word" where "MIN_VERSION = 1"
definition HEADER_LEN :: nat where "HEADER_LEN = 16"
definition MAX_PAYLOAD :: "32 word" where "MAX_PAYLOAD = push_bit 20 8"

datatype MsgType =
    MT_Hello | MT_HelloAck | MT_Goodbye | MT_Error | MT_Ping | MT_Pong
  | MT_Auth | MT_AuthOk
  | MT_SubmitRun | MT_RunAccepted | MT_GetRun | MT_RunInfo | MT_CancelRun
  | MT_TailLogs | MT_LogChunk
  | MT_CasQuery | MT_CasMissing | MT_CasPut | MT_CasGet | MT_BulkHeader

text \<open>The discriminants, \<open>self as u16\<close>.\<close>

fun msg_code :: "MsgType \<Rightarrow> 16 word" where
  "msg_code MT_Hello = 0x0001"
| "msg_code MT_HelloAck = 0x0002"
| "msg_code MT_Goodbye = 0x0003"
| "msg_code MT_Error = 0x0004"
| "msg_code MT_Ping = 0x0005"
| "msg_code MT_Pong = 0x0006"
| "msg_code MT_Auth = 0x0101"
| "msg_code MT_AuthOk = 0x0102"
| "msg_code MT_SubmitRun = 0x0201"
| "msg_code MT_RunAccepted = 0x0202"
| "msg_code MT_GetRun = 0x0203"
| "msg_code MT_RunInfo = 0x0204"
| "msg_code MT_CancelRun = 0x0205"
| "msg_code MT_TailLogs = 0x0301"
| "msg_code MT_LogChunk = 0x0302"
| "msg_code MT_CasQuery = 0x0401"
| "msg_code MT_CasMissing = 0x0402"
| "msg_code MT_CasPut = 0x0403"
| "msg_code MT_CasGet = 0x0404"
| "msg_code MT_BulkHeader = 0x0405"

definition from_u16 :: "16 word \<Rightarrow> MsgType option" where
  "from_u16 v =
     (if v = 0x0001 then Some MT_Hello
      else if v = 0x0002 then Some MT_HelloAck
      else if v = 0x0003 then Some MT_Goodbye
      else if v = 0x0004 then Some MT_Error
      else if v = 0x0005 then Some MT_Ping
      else if v = 0x0006 then Some MT_Pong
      else if v = 0x0101 then Some MT_Auth
      else if v = 0x0102 then Some MT_AuthOk
      else if v = 0x0201 then Some MT_SubmitRun
      else if v = 0x0202 then Some MT_RunAccepted
      else if v = 0x0203 then Some MT_GetRun
      else if v = 0x0204 then Some MT_RunInfo
      else if v = 0x0205 then Some MT_CancelRun
      else if v = 0x0301 then Some MT_TailLogs
      else if v = 0x0302 then Some MT_LogChunk
      else if v = 0x0401 then Some MT_CasQuery
      else if v = 0x0402 then Some MT_CasMissing
      else if v = 0x0403 then Some MT_CasPut
      else if v = 0x0404 then Some MT_CasGet
      else if v = 0x0405 then Some MT_BulkHeader
      else None)"

definition allowed_preauth :: "MsgType \<Rightarrow> bool" where
  "allowed_preauth t \<longleftrightarrow>
     t \<in> set [MT_Hello, MT_HelloAck, MT_Auth, MT_AuthOk, MT_Error, MT_Ping, MT_Pong, MT_Goodbye]"

lemma from_u16_msg_code [simp]: "from_u16 (msg_code t) = Some t"
  by (cases t) (simp_all add: from_u16_def)

lemma from_u16_Some: "from_u16 v = Some t \<longleftrightarrow> v = msg_code t"
proof
  assume "from_u16 v = Some t"
  then show "v = msg_code t"
    unfolding from_u16_def by (simp split: if_split_asm) (elim disjE; clarsimp)?
qed simp

lemma msg_code_inject: "msg_code s = msg_code t \<longleftrightarrow> s = t"
  by (metis from_u16_msg_code option.inject)

section \<open>Flags\<close>

datatype Flags = Flags (flag_bits: "16 word")

definition NONE :: Flags where "NONE = Flags 0"
definition COMPRESSED :: Flags where "COMPRESSED = Flags (push_bit 0 1)"
definition END_STREAM :: Flags where "END_STREAM = Flags (push_bit 1 1)"
definition BULK :: Flags where "BULK = Flags (push_bit 2 1)"

definition flags_contains :: "Flags \<Rightarrow> Flags \<Rightarrow> bool" where
  "flags_contains f g \<longleftrightarrow> flag_bits f AND flag_bits g = flag_bits g"

definition flags_with :: "Flags \<Rightarrow> Flags \<Rightarrow> Flags" where
  "flags_with f g = Flags (flag_bits f OR flag_bits g)"

text \<open>\<open>parts.join("|")\<close>\<close>

fun join_bar :: "string list \<Rightarrow> string" where
  "join_bar [] = ''''"
| "join_bar [s] = s"
| "join_bar (s # ss) = s @ ''|'' @ join_bar ss"

definition flags_debug :: "Flags \<Rightarrow> string" where
  "flags_debug f =
     (let parts = (if flags_contains f COMPRESSED then [''COMPRESSED''] else []) @
                  (if flags_contains f END_STREAM then [''END_STREAM''] else []) @
                  (if flags_contains f BULK then [''BULK''] else [])
      in if parts = [] then ''NONE'' else join_bar parts)"

lemmas flag_defs = NONE_def COMPRESSED_def END_STREAM_def BULK_def

text \<open>The flags form a lattice of bit sets: adding flags is a join for containment.\<close>

lemma flags_with_contains:
  "flags_contains (flags_with f g) h \<longleftrightarrow> flag_bits h AND (flag_bits f OR flag_bits g) = flag_bits h"
  by (simp add: flags_contains_def flags_with_def and.commute)

lemma flags_with_lub:
  "flags_contains h (flags_with f g) \<longleftrightarrow> flags_contains h f \<and> flags_contains h g"
proof -
  have lt: "n < 16" if "bit x n" for x :: "16 word" and n using bit_imp_le_length [OF that] by simp
  have "flags_contains h k \<longleftrightarrow> (\<forall>n. bit (flag_bits k) n \<longrightarrow> bit (flag_bits h) n)" for k
    by (auto simp: flags_contains_def bit_eq_iff bit_simps intro: lt)
  then show ?thesis by (auto simp: flags_with_def bit_simps)
qed

section \<open>Headers\<close>

record FrameHeader =
  fh_version :: "16 word"
  fh_msg_type :: MsgType
  fh_flags :: Flags
  fh_stream_id :: "32 word"
  fh_payload_len :: "32 word"

datatype FrameError =
    BadMagic bytes
  | UnsupportedVersion "16 word"
  | UnknownType "16 word"
  | FramePayloadTooLarge "32 word"

definition header_new :: "MsgType \<Rightarrow> 32 word \<Rightarrow> 32 word \<Rightarrow> FrameHeader" where
  "header_new t sid len =
     \<lparr>fh_version = VERSION, fh_msg_type = t, fh_flags = NONE, fh_stream_id = sid, fh_payload_len = len\<rparr>"

definition header_with_flags :: "FrameHeader \<Rightarrow> Flags \<Rightarrow> FrameHeader" where
  "header_with_flags h f = h\<lparr>fh_flags := f\<rparr>"

definition header_encode :: "FrameHeader \<Rightarrow> bytes" where
  "header_encode h =
     MAGIC @ u16_le (fh_version h) @ u16_le (msg_code (fh_msg_type h)) @ u16_le (flag_bits (fh_flags h)) @
     u32_le (fh_stream_id h) @ u32_le (fh_payload_len h)"

text \<open>\<open>&b[i..j]\<close>\<close>

definition slice :: "bytes \<Rightarrow> nat \<Rightarrow> nat \<Rightarrow> bytes" where
  "slice b i j = take (j - i) (drop i b)"

definition header_decode :: "bytes \<Rightarrow> FrameError + FrameHeader" where
  "header_decode b =
     (if slice b 0 2 \<noteq> MAGIC then Inl (BadMagic (slice b 0 2))
      else
        let version = le_u16 (slice b 2 4) in
        if version < MIN_VERSION \<or> version > VERSION then Inl (UnsupportedVersion version)
        else
          let raw_type = le_u16 (slice b 4 6) in
          rbind (ok_or (from_u16 raw_type) (UnknownType raw_type)) (\<lambda>msg_type.
          let payload_len = le_u32 (slice b 12 16) in
          if payload_len > MAX_PAYLOAD then Inl (FramePayloadTooLarge payload_len)
          else
            Inr \<lparr>fh_version = version, fh_msg_type = msg_type, fh_flags = Flags (le_u16 (slice b 6 8)),
                 fh_stream_id = le_u32 (slice b 8 12), fh_payload_len = payload_len\<rparr>))"

definition header_ok :: "FrameHeader \<Rightarrow> bool" where
  "header_ok h \<longleftrightarrow> MIN_VERSION \<le> fh_version h \<and> fh_version h \<le> VERSION \<and> fh_payload_len h \<le> MAX_PAYLOAD"

lemma length_header_encode [simp]: "length (header_encode h) = HEADER_LEN"
  by (simp add: header_encode_def MAGIC_def HEADER_LEN_def)

lemma slice_encode:
  "slice (header_encode h) 0 2 = MAGIC"
  "slice (header_encode h) 2 4 = u16_le (fh_version h)"
  "slice (header_encode h) 4 6 = u16_le (msg_code (fh_msg_type h))"
  "slice (header_encode h) 6 8 = u16_le (flag_bits (fh_flags h))"
  "slice (header_encode h) 8 12 = u32_le (fh_stream_id h)"
  "slice (header_encode h) 12 16 = u32_le (fh_payload_len h)"
  by (simp_all add: slice_def header_encode_def MAGIC_def)

text \<open>The header as the concatenation of its fields.\<close>

lemma slice_split: "i \<le> j \<Longrightarrow> j \<le> k \<Longrightarrow> slice b i j @ slice b j k = slice b i k"
  unfolding slice_def using take_add [of "j - i" "k - j" "drop i b"] by simp

lemma slice_all: "slice b 0 (length b) = b"
  by (simp add: slice_def)

lemma header_fields:
  assumes "length b = HEADER_LEN"
  shows "slice b 0 2 @ slice b 2 4 @ slice b 4 6 @ slice b 6 8 @ slice b 8 12 @ slice b 12 16 = b"
proof -
  have "slice b 0 2 @ slice b 2 4 @ slice b 4 6 @ slice b 6 8 @ slice b 8 12 @ slice b 12 16 = slice b 0 16"
    by (simp add: slice_split)
  then show ?thesis using slice_all [of b] assms by (simp add: HEADER_LEN_def)
qed

lemma length_slice: "length b = HEADER_LEN \<Longrightarrow> j \<le> 16 \<Longrightarrow> length (slice b i j) = j - i"
  by (simp add: slice_def HEADER_LEN_def)

lemma header_decode_encode:
  assumes "header_ok h"
  shows "header_decode (header_encode h) = Inr h"
  using assms unfolding header_decode_def header_ok_def slice_encode le_uN_uN_le
  by (simp add: Let_def not_less)

lemma header_decode_sound:
  assumes "length b = HEADER_LEN" "header_decode b = Inr h"
  shows "b = header_encode h \<and> header_ok h"
proof -
  have m: "slice b 0 2 = MAGIC" and v: "fh_version h = le_u16 (slice b 2 4)"
    and t: "le_u16 (slice b 4 6) = msg_code (fh_msg_type h)"
    and r: "flag_bits (fh_flags h) = le_u16 (slice b 6 8)" "fh_stream_id h = le_u32 (slice b 8 12)"
      "fh_payload_len h = le_u32 (slice b 12 16)"
    and ok: "header_ok h"
    using assms(2)
    by (auto simp: header_decode_def Let_def jet_simps from_u16_Some header_ok_def not_less split: if_splits)
  have "header_encode h = slice b 0 2 @ slice b 2 4 @ slice b 4 6 @ slice b 6 8 @ slice b 8 12 @ slice b 12 16"
    unfolding header_encode_def v r t [symmetric] m [symmetric]
    by (simp add: uN_le_le_uN length_slice [OF assms(1)])
  then show ?thesis using header_fields [OF assms(1)] ok by simp
qed

section \<open>Properties\<close>

text \<open>C35: On 16 bytes the header decoder accepts exactly the encodings of headers whose version is in the
  supported range and whose payload length is within the limit, and returns the header that was
  encoded: nothing is lost, no header has two encodings, and no length above 8 MiB ever reaches
  the buffer reservation of the receiver.\<close>

theorem header_codec_exact:
  assumes "length b = HEADER_LEN"
  shows "header_decode b = Inr h \<longleftrightarrow> b = header_encode h \<and> header_ok h"
  using header_decode_encode [of h] header_decode_sound [OF assms] by blast

definition example_header :: FrameHeader where
  "example_header = header_with_flags (header_new MT_SubmitRun 7 1234) (flags_with COMPRESSED END_STREAM)"

theorem header_codec_exact_witness:
  "header_decode (header_encode example_header) = Inr example_header"
proof -
  have "header_ok example_header"
    by (simp add: header_ok_def example_header_def header_with_flags_def header_new_def MIN_VERSION_def
        VERSION_def MAX_PAYLOAD_def)
  then show ?thesis
    using header_codec_exact [OF length_header_encode [of example_header]] by blast
qed

text \<open>The numeric message codes are a stable bijection: every code of the table decodes to its message
  and to no other, every other code is refused, and exactly the session and authentication
  messages (codes below 0x0200) may be sent before authentication.\<close>

theorem message_codes_exact:
  "(from_u16 v = Some t \<longleftrightarrow> v = msg_code t) \<and> (allowed_preauth t \<longleftrightarrow> msg_code t < 0x0200)"
  using from_u16_Some [of v t] by (cases t) (simp_all add: allowed_preauth_def)

end
