(* ===== verification/Jet_Msg.thy ===== *)
theory Jet_Msg
  imports Jet_Frame
begin

text \<open>
  The payloads of the wire protocol (\<open>crates/jet-proto/src/msg.rs\<close>): one record per message, the
  capability and error codes, the field limits and the \<open>Validate\<close> implementations. Serialization is
  the \<open>rkyv\<close> crate, a parameter with its documented round trip.
\<close>

section \<open>Capabilities and codes\<close>

definition caps_COMPRESSION :: "32 word" where "caps_COMPRESSION = push_bit 0 1"
definition caps_BULK_TRANSFER :: "32 word" where "caps_BULK_TRANSFER = push_bit 1 1"
definition caps_CAS :: "32 word" where "caps_CAS = push_bit 2 1"
definition caps_LOG_TAIL :: "32 word" where "caps_LOG_TAIL = push_bit 3 1"
definition caps_ALL :: "32 word" where
  "caps_ALL = caps_COMPRESSION OR caps_BULK_TRANSFER OR caps_CAS OR caps_LOG_TAIL"

definition code_INTERNAL :: "16 word" where "code_INTERNAL = 1"
definition code_BAD_REQUEST :: "16 word" where "code_BAD_REQUEST = 2"
definition code_UNAUTHENTICATED :: "16 word" where "code_UNAUTHENTICATED = 3"
definition code_FORBIDDEN :: "16 word" where "code_FORBIDDEN = 4"
definition code_NOT_FOUND :: "16 word" where "code_NOT_FOUND = 5"
definition code_VERSION_MISMATCH :: "16 word" where "code_VERSION_MISMATCH = 6"
definition code_RATE_LIMITED :: "16 word" where "code_RATE_LIMITED = 7"
definition code_AUTH_REQUIRED :: "16 word" where "code_AUTH_REQUIRED = 8"

lemmas code_defs = code_INTERNAL_def code_BAD_REQUEST_def code_UNAUTHENTICATED_def code_FORBIDDEN_def
  code_NOT_FOUND_def code_VERSION_MISMATCH_def code_RATE_LIMITED_def code_AUTH_REQUIRED_def

section \<open>Messages\<close>

record Hello =
  he_agent :: string
  he_min_version :: "16 word"
  he_max_version :: "16 word"
  he_capabilities :: "32 word"

record HelloAck =
  ha_agent :: string
  ha_version :: "16 word"
  ha_capabilities :: "32 word"
  ha_session :: string

record Auth =
  au_token :: string

record AuthOk =
  ao_org :: string
  ao_principal_kind :: string
  ao_principal_id :: string
  ao_permissions :: "string list"

record SubmitRun =
  sr_project :: string
  sr_pipeline :: string
  sr_definition :: bytes
  sr_commit_sha :: "string option"
  sr_reference :: "string option"
  sr_idempotency_key :: "string option"

record RunAccepted =
  ra_run_id :: string
  ra_number :: "64 word"
  ra_definition_digest :: string
  ra_deduplicated :: bool

record GetRun =
  gr_run_id :: string

record CancelRun =
  cr_run_id :: string

record StepInfo =
  si_name :: string
  si_status :: string
  si_cache_outcome :: "string option"
  si_action_key :: "string option"
  si_exit_code :: "32 word option"
  si_duration_ms :: "64 word option"

record RunInfo =
  ri_run_id :: string
  ri_number :: "64 word"
  ri_status :: string
  ri_steps :: "StepInfo list"
  ri_created_at_ms :: "64 word"
  ri_finished_at_ms :: "64 word option"

record TailLogs =
  tl_run_id :: string
  tl_step :: "string option"
  tl_from_offset :: "64 word"
  tl_follow :: bool

record LogChunk =
  lc_step :: string
  lc_offset :: "64 word"
  lc_data :: bytes
  lc_eof :: bool

record CasQuery =
  cq_digests :: "string list"

record CasMissing =
  cm_digests :: "string list"

record BulkHeader =
  bh_digest :: string
  bh_len :: "64 word"

record ErrorMsg =
  em_code :: "16 word"
  em_message :: string

record Ping =
  pi_nonce :: "64 word"

record Pong =
  po_nonce :: "64 word"

record Goodbye =
  gb_reason :: string

text \<open>A payload of any of these types. The type parameter \<open>T\<close> of \<open>encode\<close> and \<open>decode\<close> is written as
  the message code that carries \<open>T\<close>.\<close>

datatype Payload =
    PHello Hello | PHelloAck HelloAck | PAuth Auth | PAuthOk AuthOk
  | PSubmitRun SubmitRun | PRunAccepted RunAccepted | PGetRun GetRun | PRunInfo RunInfo | PCancelRun CancelRun
  | PTailLogs TailLogs | PLogChunk LogChunk | PCasQuery CasQuery | PCasMissing CasMissing
  | PBulkHeader BulkHeader | PErrorMsg ErrorMsg | PPing Ping | PPong Pong | PGoodbye Goodbye

fun payload_type :: "Payload \<Rightarrow> MsgType" where
  "payload_type (PHello _) = MT_Hello"
| "payload_type (PHelloAck _) = MT_HelloAck"
| "payload_type (PAuth _) = MT_Auth"
| "payload_type (PAuthOk _) = MT_AuthOk"
| "payload_type (PSubmitRun _) = MT_SubmitRun"
| "payload_type (PRunAccepted _) = MT_RunAccepted"
| "payload_type (PGetRun _) = MT_GetRun"
| "payload_type (PRunInfo _) = MT_RunInfo"
| "payload_type (PCancelRun _) = MT_CancelRun"
| "payload_type (PTailLogs _) = MT_TailLogs"
| "payload_type (PLogChunk _) = MT_LogChunk"
| "payload_type (PCasQuery _) = MT_CasQuery"
| "payload_type (PCasMissing _) = MT_CasMissing"
| "payload_type (PBulkHeader _) = MT_BulkHeader"
| "payload_type (PErrorMsg _) = MT_Error"
| "payload_type (PPing _) = MT_Ping"
| "payload_type (PPong _) = MT_Pong"
| "payload_type (PGoodbye _) = MT_Goodbye"

section \<open>Limits and validation\<close>

definition MAX_AGENT_LEN :: nat where "MAX_AGENT_LEN = 128"
definition MAX_TOKEN_LEN :: nat where "MAX_TOKEN_LEN = 512"
definition MAX_NAME_LEN :: nat where "MAX_NAME_LEN = 128"
definition MAX_DEFINITION_LEN :: nat where "MAX_DEFINITION_LEN = 2 ^ 20"
definition MAX_REF_LEN :: nat where "MAX_REF_LEN = 512"
definition MAX_ID_LEN :: nat where "MAX_ID_LEN = 64"
definition MAX_IDEMPOTENCY_LEN :: nat where "MAX_IDEMPOTENCY_LEN = 128"
definition MAX_QUERY_DIGESTS :: nat where "MAX_QUERY_DIGESTS = 4096"
definition MAX_DIGEST_LEN :: nat where "MAX_DIGEST_LEN = 67"

lemmas limit_defs = MAX_AGENT_LEN_def MAX_TOKEN_LEN_def MAX_NAME_LEN_def MAX_DEFINITION_LEN_def
  MAX_REF_LEN_def MAX_ID_LEN_def MAX_IDEMPOTENCY_LEN_def MAX_QUERY_DIGESTS_def MAX_DIGEST_LEN_def

datatype Invalid = TooLong string nat nat | Empty string | InvalidOther string

fun invalid_display :: "Invalid \<Rightarrow> string" where
  "invalid_display (TooLong field len mx) = field @ '' is '' @ dec len @ '' bytes, limit is '' @ dec mx"
| "invalid_display (Empty field) = field @ '' must not be empty''"
| "invalid_display (InvalidOther s) = s"

definition bounded :: "string \<Rightarrow> string \<Rightarrow> nat \<Rightarrow> Invalid + unit" where
  "bounded field s mx = (if length s > mx then Inl (TooLong field (length s) mx) else Inr ())"

definition nonempty_bounded :: "string \<Rightarrow> string \<Rightarrow> nat \<Rightarrow> Invalid + unit" where
  "nonempty_bounded field s mx = (if s = '''' then Inl (Empty field) else bounded field s mx)"

text \<open>\<open>if let Some(x) = &self.f { bounded(..)?; }\<close>\<close>

definition opt_bounded :: "string \<Rightarrow> string option \<Rightarrow> nat \<Rightarrow> Invalid + unit" where
  "opt_bounded field m mx = (case m of None \<Rightarrow> Inr () | Some s \<Rightarrow> bounded field s mx)"

definition hello_validate :: "Hello \<Rightarrow> Invalid + unit" where
  "hello_validate h =
     rbind (bounded ''agent'' (he_agent h) MAX_AGENT_LEN) (\<lambda>_.
     if he_min_version h > he_max_version h then Inl (InvalidOther ''min_version exceeds max_version'')
     else Inr ())"

definition auth_validate :: "Auth \<Rightarrow> Invalid + unit" where
  "auth_validate a = nonempty_bounded ''token'' (au_token a) MAX_TOKEN_LEN"

definition submit_run_validate :: "SubmitRun \<Rightarrow> Invalid + unit" where
  "submit_run_validate s =
     rbind (nonempty_bounded ''project'' (sr_project s) MAX_NAME_LEN) (\<lambda>_.
     rbind (nonempty_bounded ''pipeline'' (sr_pipeline s) MAX_NAME_LEN) (\<lambda>_.
     rbind (if length (sr_definition s) > MAX_DEFINITION_LEN
            then Inl (TooLong ''definition'' (length (sr_definition s)) MAX_DEFINITION_LEN) else Inr ()) (\<lambda>_.
     rbind (opt_bounded ''commit_sha'' (sr_commit_sha s) MAX_ID_LEN) (\<lambda>_.
     rbind (opt_bounded ''reference'' (sr_reference s) MAX_REF_LEN) (\<lambda>_.
     opt_bounded ''idempotency_key'' (sr_idempotency_key s) MAX_IDEMPOTENCY_LEN)))))"

definition get_run_validate :: "GetRun \<Rightarrow> Invalid + unit" where
  "get_run_validate g = nonempty_bounded ''run_id'' (gr_run_id g) MAX_ID_LEN"

definition cancel_run_validate :: "CancelRun \<Rightarrow> Invalid + unit" where
  "cancel_run_validate c = nonempty_bounded ''run_id'' (cr_run_id c) MAX_ID_LEN"

definition tail_logs_validate :: "TailLogs \<Rightarrow> Invalid + unit" where
  "tail_logs_validate t =
     rbind (nonempty_bounded ''run_id'' (tl_run_id t) MAX_ID_LEN) (\<lambda>_.
     opt_bounded ''step'' (tl_step t) MAX_NAME_LEN)"

primrec all_bounded :: "string \<Rightarrow> string list \<Rightarrow> nat \<Rightarrow> Invalid + unit" where
  "all_bounded field [] mx = Inr ()"
| "all_bounded field (d # ds) mx = rbind (bounded field d mx) (\<lambda>_. all_bounded field ds mx)"

definition cas_query_validate :: "CasQuery \<Rightarrow> Invalid + unit" where
  "cas_query_validate q =
     (if length (cq_digests q) > MAX_QUERY_DIGESTS
      then Inl (TooLong ''digests'' (length (cq_digests q)) MAX_QUERY_DIGESTS)
      else all_bounded ''digest'' (cq_digests q) MAX_DIGEST_LEN)"

section \<open>Serialization\<close>

datatype CodecError = CodecEncode string | CodecDecode string

text \<open>The \<open>rkyv\<close> crate: serialization of a value, checked access of bytes as a type.\<close>

record rkyv_crate =
  rkyv_to_bytes :: "Payload \<Rightarrow> string + bytes"
  rkyv_from_bytes :: "MsgType \<Rightarrow> bytes \<Rightarrow> string + Payload"

text \<open>What the protocol relies on: reading back what was written as the same type, and that a read as a
  type yields a value of it.\<close>

definition rkyv_ok :: "rkyv_crate \<Rightarrow> bool" where
  "rkyv_ok k \<longleftrightarrow>
     (\<forall>p bs. rkyv_to_bytes k p = Inr bs \<longrightarrow> rkyv_from_bytes k (payload_type p) bs = Inr p) \<and>
     (\<forall>t bs p. rkyv_from_bytes k t bs = Inr p \<longrightarrow> payload_type p = t)"

definition msg_encode :: "rkyv_crate \<Rightarrow> Payload \<Rightarrow> CodecError + bytes" where
  "msg_encode k p = (case rkyv_to_bytes k p of Inl e \<Rightarrow> Inl (CodecEncode e) | Inr bs \<Rightarrow> Inr bs)"

definition msg_decode :: "rkyv_crate \<Rightarrow> MsgType \<Rightarrow> bytes \<Rightarrow> CodecError + Payload" where
  "msg_decode k t bs = (case rkyv_from_bytes k t bs of Inl e \<Rightarrow> Inl (CodecDecode e) | Inr p \<Rightarrow> Inr p)"

lemma msg_encode_Inr: "msg_encode k p = Inr bs \<longleftrightarrow> rkyv_to_bytes k p = Inr bs"
  by (simp add: msg_encode_def split: sum.splits)

lemma msg_decode_Inr: "msg_decode k t bs = Inr p \<longleftrightarrow> rkyv_from_bytes k t bs = Inr p"
  by (simp add: msg_decode_def split: sum.splits)

lemma msg_decode_encode:
  "rkyv_ok k \<Longrightarrow> msg_encode k p = Inr bs \<Longrightarrow> msg_decode k (payload_type p) bs = Inr p"
  by (simp add: rkyv_ok_def msg_encode_Inr msg_decode_Inr)

lemma msg_decode_type: "rkyv_ok k \<Longrightarrow> msg_decode k t bs = Inr p \<Longrightarrow> payload_type p = t"
  by (simp add: rkyv_ok_def msg_decode_Inr)

text \<open>A concrete instance, enough for the messages of the handshake and of \<open>ping\<close>: fixed fields in
  little-endian order, strings with a length byte.\<close>

definition ref_str :: "string \<Rightarrow> bytes" where
  "ref_str s = u16_le (of_nat (length s)) @ bytes_of s"

definition rd_str :: "bytes \<Rightarrow> string \<times> bytes" where
  "rd_str b = (let n = unat (le_u16 (take 2 b)) in (string_of (take n (drop 2 b)), drop n (drop 2 b)))"

lemma rd_ref_str: "length s < 2 ^ 16 \<Longrightarrow> rd_str (ref_str s @ rest) = (s, rest)"
  by (simp add: rd_str_def ref_str_def Let_def unat_of_nat take_bit_eq_mod)

definition fits16 :: "string \<Rightarrow> bool" where
  "fits16 s \<longleftrightarrow> int (length s) < 65536"

fun ref_to_bytes :: "Payload \<Rightarrow> string + bytes" where
  "ref_to_bytes (PHello h) =
     (if fits16 (he_agent h) then
        Inr (ref_str (he_agent h) @ u16_le (he_min_version h) @ u16_le (he_max_version h) @ u32_le (he_capabilities h))
      else Inl ''long'')"
| "ref_to_bytes (PHelloAck h) =
     (if fits16 (ha_agent h) \<and> fits16 (ha_session h) then
        Inr (ref_str (ha_agent h) @ ref_str (ha_session h) @ u16_le (ha_version h) @ u32_le (ha_capabilities h))
      else Inl ''long'')"
| "ref_to_bytes (PAuth a) = (if fits16 (au_token a) then Inr (ref_str (au_token a)) else Inl ''long'')"
| "ref_to_bytes (PErrorMsg e) =
     (if fits16 (em_message e) then Inr (ref_str (em_message e) @ u16_le (em_code e)) else Inl ''long'')"
| "ref_to_bytes (PPing p) = Inr (u64_le (pi_nonce p))"
| "ref_to_bytes (PPong p) = Inr (u64_le (po_nonce p))"
| "ref_to_bytes _ = Inl ''unsupported''"

fun ref_from_bytes :: "MsgType \<Rightarrow> bytes \<Rightarrow> string + Payload" where
  "ref_from_bytes MT_Hello b =
     (case rd_str b of (a, r) \<Rightarrow>
        Inr (PHello \<lparr>he_agent = a, he_min_version = le_u16 (take 2 r), he_max_version = le_u16 (take 2 (drop 2 r)),
                     he_capabilities = le_u32 (drop 4 r)\<rparr>))"
| "ref_from_bytes MT_HelloAck b =
     (case rd_str b of (a, r) \<Rightarrow> case rd_str r of (s, q) \<Rightarrow>
        Inr (PHelloAck \<lparr>ha_agent = a, ha_version = le_u16 (take 2 q), ha_capabilities = le_u32 (drop 2 q),
                        ha_session = s\<rparr>))"
| "ref_from_bytes MT_Auth b = Inr (PAuth \<lparr>au_token = fst (rd_str b)\<rparr>)"
| "ref_from_bytes MT_Error b =
     (case rd_str b of (s, r) \<Rightarrow> Inr (PErrorMsg \<lparr>em_code = le_u16 r, em_message = s\<rparr>))"
| "ref_from_bytes MT_Ping b = Inr (PPing \<lparr>pi_nonce = le_u64 b\<rparr>)"
| "ref_from_bytes MT_Pong b = Inr (PPong \<lparr>po_nonce = le_u64 b\<rparr>)"
| "ref_from_bytes _ _ = Inl ''unsupported''"

definition rkyv_ref :: rkyv_crate where
  "rkyv_ref = \<lparr>rkyv_to_bytes = ref_to_bytes, rkyv_from_bytes = ref_from_bytes\<rparr>"

lemma rkyv_ref_ok: "rkyv_ok rkyv_ref"
proof -
  have "ref_from_bytes (payload_type p) bs = Inr p" if "ref_to_bytes p = Inr bs" for p bs
    using that rd_ref_str [where rest = "[]"]
    by (cases p) (auto simp: rd_ref_str fits16_def split: if_splits)
  moreover have "payload_type p = t" if "ref_from_bytes t bs = Inr p" for t bs p
    using that by (cases t) (auto split: prod.splits)
  ultimately show ?thesis by (simp add: rkyv_ok_def rkyv_ref_def)
qed

section \<open>Lemmas on validation\<close>

lemma bounded_Inr [jet_simps]: "bounded f s mx = Inr u \<longleftrightarrow> length s \<le> mx"
  by (simp add: bounded_def not_less)

lemma nonempty_bounded_Inr [jet_simps]: "nonempty_bounded f s mx = Inr u \<longleftrightarrow> s \<noteq> '''' \<and> length s \<le> mx"
  by (simp add: nonempty_bounded_def bounded_Inr)

lemma opt_bounded_Inr [jet_simps]: "opt_bounded f m mx = Inr u \<longleftrightarrow> (\<forall>s. m = Some s \<longrightarrow> length s \<le> mx)"
  by (cases m) (simp_all add: opt_bounded_def bounded_Inr)

lemma all_bounded_Inr [jet_simps]: "all_bounded f ds mx = Inr u \<longleftrightarrow> (\<forall>d \<in> set ds. length d \<le> mx)"
  by (induction ds) (auto simp: jet_simps)

text \<open>A rejection names a field and, for a length, the length that was over the limit.\<close>

definition honest :: "Invalid + unit \<Rightarrow> bool" where
  "honest r \<longleftrightarrow> (\<forall>f n mx. r = Inl (TooLong f n mx) \<longrightarrow> mx < n)"

lemma honest_intros [intro!]:
  "honest (bounded f s mx)" "honest (nonempty_bounded f s mx)" "honest (opt_bounded f m mx)"
  "honest (Inr u)" "honest (Inl (InvalidOther s))" "mx < n \<Longrightarrow> honest (Inl (TooLong f n mx))"
  "honest r \<Longrightarrow> honest q \<Longrightarrow> honest (rbind r (\<lambda>_. q))"
  by (auto simp: honest_def bounded_def nonempty_bounded_def opt_bounded_def jet_simps split: option.splits)

lemma honest_rbind_Inr: "honest (rbind r Inr) = honest r"
  by (cases r) simp_all

lemma honest_all_bounded [intro!]: "honest (all_bounded f ds mx)"
  by (induction ds) auto

lemma rejections_are_honest:
  "honest (hello_validate h)" "honest (auth_validate a)" "honest (submit_run_validate s)"
  "honest (get_run_validate g)" "honest (cancel_run_validate c)" "honest (tail_logs_validate t)"
  "honest (cas_query_validate q)"
  unfolding hello_validate_def auth_validate_def submit_run_validate_def get_run_validate_def
    cancel_run_validate_def tail_logs_validate_def cas_query_validate_def
  by (auto simp: honest_rbind_Inr)

section \<open>Properties\<close>

text \<open>What passes validation is within the limits, and nothing else passes: a token is bounded before it
  reaches the key derivation, one CAS query costs at most 4096 lookups and 67 bytes per digest, a
  pipeline definition at most one MiB, a version range is not inverted.\<close>

theorem validation_exact:
  "(hello_validate h = Inr () \<longleftrightarrow> length (he_agent h) \<le> 128 \<and> he_min_version h \<le> he_max_version h) \<and>
   (auth_validate a = Inr () \<longleftrightarrow> length (au_token a) \<in> {1..512}) \<and>
   (submit_run_validate s = Inr () \<longleftrightarrow>
      length (sr_project s) \<in> {1..128} \<and> length (sr_pipeline s) \<in> {1..128} \<and>
      length (sr_definition s) \<le> 2 ^ 20 \<and> length (unwrap_or (sr_commit_sha s) '''') \<le> 64 \<and>
      length (unwrap_or (sr_reference s) '''') \<le> 512 \<and> length (unwrap_or (sr_idempotency_key s) '''') \<le> 128) \<and>
   (get_run_validate g = Inr () \<longleftrightarrow> length (gr_run_id g) \<in> {1..64}) \<and>
   (cancel_run_validate c = Inr () \<longleftrightarrow> length (cr_run_id c) \<in> {1..64}) \<and>
   (tail_logs_validate t = Inr () \<longleftrightarrow>
      length (tl_run_id t) \<in> {1..64} \<and> length (unwrap_or (tl_step t) '''') \<le> 128) \<and>
   (cas_query_validate q = Inr () \<longleftrightarrow>
      length (cq_digests q) \<le> 4096 \<and> list_all (\<lambda>d. length d \<le> 67) (cq_digests q))"
proof -
  have ne: "s \<noteq> '''' \<and> length s \<le> n \<longleftrightarrow> length s \<in> {1..n}" for s :: string and n by (cases s) auto
  have opt: "(\<forall>s. m = Some s \<longrightarrow> length s \<le> n) \<longleftrightarrow> length (unwrap_or m '''') \<le> n" for m :: "string option" and n
    by (cases m) auto
  have df: "(if MAX_DEFINITION_LEN < n then Inl e else Inr ()) = Inr u \<longleftrightarrow> n \<le> MAX_DEFINITION_LEN"
    for n u and e :: Invalid by auto
  show ?thesis
    unfolding hello_validate_def auth_validate_def submit_run_validate_def get_run_validate_def
      cancel_run_validate_def tail_logs_validate_def cas_query_validate_def jet_simps df ne opt
    by (auto simp: limit_defs jet_simps list_all_iff not_less Suc_le_eq)
qed

end
