(* ===== verification/Jet_Tuning.thy ===== *)
theory Jet_Tuning
  imports Jet_Prelude
begin

text \<open>
  Socket tuning (\<open>crates/jet-proto/src/tuning.rs\<close>): the two option profiles, their application to a
  socket with a report of what the kernel took and what it refused, and the cork guard. The kernel's
  decision on each option is part of the socket, so every theorem holds for every kernel.
\<close>

section \<open>Sockets\<close>

datatype sockopt =
    TCP_NODELAY | TCP_CORK | TCP_CONGESTION | TCP_NOTSENT_LOWAT | TCP_USER_TIMEOUT | SO_KEEPALIVE
  | TCP_KEEPIDLE | TCP_KEEPINTVL | TCP_KEEPCNT | TCP_FASTOPEN | TCP_FASTOPEN_CONNECT | SO_BUSY_POLL
  | SO_REUSEPORT

datatype optval = OBool bool | OStr string | OInt "32 word" | ODuration int

record sock =
  so_val :: "sockopt \<Rightarrow> optval option"
  so_refuse :: "sockopt \<Rightarrow> optval \<Rightarrow> int option"

text \<open>\<open>setsockopt\<close>: an error number, or the option has the value. \<open>set_int\<close> and the functions of the
  \<open>rustix\<close> crate are this call.\<close>

definition set_opt :: "sockopt \<Rightarrow> optval \<Rightarrow> ('x sock_scheme, int, unit) act" where
  "set_opt opt v s =
     (case so_refuse s opt v of Some e \<Rightarrow> (Inl e, s)
      | None \<Rightarrow> (Inr (), s\<lparr>so_val := (so_val s)(opt \<mapsto> v)\<rparr>))"

text \<open>\<open>Duration\<close> in nanoseconds.\<close>

definition from_secs :: "int \<Rightarrow> int" where "from_secs n = n * 1000000000"
definition as_millis :: "int \<Rightarrow> int" where "as_millis d = d div 1000000"

section \<open>Profiles\<close>

record KeepAlive =
  ka_idle :: int
  ka_interval :: int
  ka_count :: "32 word"

definition keepalive_default :: KeepAlive where
  "keepalive_default = \<lparr>ka_idle = from_secs 30, ka_interval = from_secs 10, ka_count = 3\<rparr>"

record TcpTuning =
  tu_nodelay :: bool
  tu_cork :: bool
  tu_congestion :: "string option"
  tu_notsent_lowat :: "32 word option"
  tu_user_timeout :: "int option"
  tu_keepalive :: "KeepAlive option"
  tu_fastopen_queue :: "32 word option"
  tu_fastopen_connect :: bool
  tu_busy_poll :: "32 word option"

definition tuning_control :: TcpTuning where
  "tuning_control = \<lparr>tu_nodelay = True, tu_cork = False, tu_congestion = Some ''bbr'',
     tu_notsent_lowat = Some (push_bit 10 128), tu_user_timeout = Some (from_secs 20),
     tu_keepalive = Some keepalive_default, tu_fastopen_queue = Some 256, tu_fastopen_connect = True,
     tu_busy_poll = None\<rparr>"

definition tuning_bulk :: TcpTuning where
  "tuning_bulk = \<lparr>tu_nodelay = False, tu_cork = True, tu_congestion = Some ''bbr'',
     tu_notsent_lowat = Some (push_bit 20 2), tu_user_timeout = Some (from_secs 120),
     tu_keepalive = Some keepalive_default, tu_fastopen_queue = None, tu_fastopen_connect = False,
     tu_busy_poll = None\<rparr>"

section \<open>Reports\<close>

record TuningReport =
  tr_applied :: "string list"
  tr_refused :: "(string \<times> int) list"

definition report_default :: TuningReport where
  "report_default = \<lparr>tr_applied = [], tr_refused = []\<rparr>"

definition report_note :: "TuningReport \<Rightarrow> string \<Rightarrow> int + unit \<Rightarrow> TuningReport" where
  "report_note r what res =
     (case res of Inr _ \<Rightarrow> r\<lparr>tr_applied := tr_applied r @ [what]\<rparr>
      | Inl e \<Rightarrow> r\<lparr>tr_refused := tr_refused r @ [(what, e)]\<rparr>)"

definition report_applied :: "TuningReport \<Rightarrow> string \<Rightarrow> bool" where
  "report_applied r what \<longleftrightarrow> what \<in> set (tr_applied r)"

definition dec_int :: "int \<Rightarrow> string" where
  "dec_int i = (if i < 0 then ''-'' @ dec (nat (- i)) else dec (nat i))"

fun join_comma :: "string list \<Rightarrow> string" where
  "join_comma [] = ''''"
| "join_comma [s] = s"
| "join_comma (s # ss) = s @ '', '' @ join_comma ss"

definition report_summary :: "TuningReport \<Rightarrow> string" where
  "report_summary r =
     (let refused = map (\<lambda>(what, errno). what @ ''(errno '' @ dec_int errno @ '')'') (tr_refused r)
      in if refused = [] then ''tcp tuning: '' @ dec (length (tr_applied r)) @ '' options applied''
         else ''tcp tuning: '' @ dec (length (tr_applied r)) @ '' applied, refused: '' @ join_comma refused)"

section \<open>Application\<close>

text \<open>\<open>r.note(name, setsockopt(..))\<close>\<close>

definition note_opt :: "string \<Rightarrow> sockopt \<Rightarrow> optval \<Rightarrow> 'x sock_scheme \<times> TuningReport \<Rightarrow> 'x sock_scheme \<times> TuningReport" where
  "note_opt what opt v sr =
     (case set_opt opt v (fst sr) of (res, s') \<Rightarrow> (s', report_note (snd sr) what res))"

definition tuning_apply :: "TcpTuning \<Rightarrow> 'x sock_scheme \<Rightarrow> TuningReport \<times> 'x sock_scheme" where
  "tuning_apply t sock0 =
     (let sr = note_opt ''TCP_NODELAY'' TCP_NODELAY (OBool (tu_nodelay t)) (sock0, report_default);
          sr = (if tu_cork t then note_opt ''TCP_CORK'' TCP_CORK (OBool True) sr else sr);
          sr = (case tu_congestion t of None \<Rightarrow> sr
                | Some algo \<Rightarrow> note_opt ''TCP_CONGESTION'' TCP_CONGESTION (OStr algo) sr);
          sr = (case tu_notsent_lowat t of None \<Rightarrow> sr
                | Some n \<Rightarrow> note_opt ''TCP_NOTSENT_LOWAT'' TCP_NOTSENT_LOWAT (OInt n) sr);
          sr = (case tu_user_timeout t of None \<Rightarrow> sr
                | Some d \<Rightarrow> note_opt ''TCP_USER_TIMEOUT'' TCP_USER_TIMEOUT (OInt (word_of_int (as_millis d))) sr);
          sr = (case tu_keepalive t of None \<Rightarrow> sr
                | Some ka \<Rightarrow>
                  note_opt ''TCP_KEEPCNT'' TCP_KEEPCNT (OInt (ka_count ka))
                    (note_opt ''TCP_KEEPINTVL'' TCP_KEEPINTVL (ODuration (ka_interval ka))
                      (note_opt ''TCP_KEEPIDLE'' TCP_KEEPIDLE (ODuration (ka_idle ka))
                        (note_opt ''SO_KEEPALIVE'' SO_KEEPALIVE (OBool True) sr))));
          sr = (case tu_fastopen_queue t of None \<Rightarrow> sr
                | Some q \<Rightarrow> note_opt ''TCP_FASTOPEN'' TCP_FASTOPEN (OInt q) sr);
          sr = (if tu_fastopen_connect t
                then note_opt ''TCP_FASTOPEN_CONNECT'' TCP_FASTOPEN_CONNECT (OInt 1) sr else sr);
          sr = (case tu_busy_poll t of None \<Rightarrow> sr
                | Some us \<Rightarrow> note_opt ''SO_BUSY_POLL'' SO_BUSY_POLL (OInt us) sr)
      in (snd sr, fst sr))"

definition set_reuseport :: "('x sock_scheme, int, unit) act" where
  "set_reuseport = set_opt SO_REUSEPORT (OBool True)"

definition uncork :: "('x sock_scheme, int, unit) act" where
  "uncork = set_opt TCP_CORK (OBool False)"

definition cork_guard_new :: "('x sock_scheme, int, unit) act" where
  "cork_guard_new = set_opt TCP_CORK (OBool True)"

definition cork_guard_drop :: "'x sock_scheme \<Rightarrow> 'x sock_scheme" where
  "cork_guard_drop s = snd (set_opt TCP_CORK (OBool False) s)"

text \<open>A block that holds a guard: the guard is dropped on every exit of the block.\<close>

definition with_cork :: "('x sock_scheme, int, 'a) act \<Rightarrow> ('x sock_scheme, int, 'a) act" where
  "with_cork body = abind cork_guard_new (\<lambda>_ s. case body s of (r, s') \<Rightarrow> (r, cork_guard_drop s'))"

section \<open>Reference: the list of requested options\<close>

fun opt_name :: "sockopt \<Rightarrow> string" where
  "opt_name TCP_NODELAY = ''TCP_NODELAY''"
| "opt_name TCP_CORK = ''TCP_CORK''"
| "opt_name TCP_CONGESTION = ''TCP_CONGESTION''"
| "opt_name TCP_NOTSENT_LOWAT = ''TCP_NOTSENT_LOWAT''"
| "opt_name TCP_USER_TIMEOUT = ''TCP_USER_TIMEOUT''"
| "opt_name SO_KEEPALIVE = ''SO_KEEPALIVE''"
| "opt_name TCP_KEEPIDLE = ''TCP_KEEPIDLE''"
| "opt_name TCP_KEEPINTVL = ''TCP_KEEPINTVL''"
| "opt_name TCP_KEEPCNT = ''TCP_KEEPCNT''"
| "opt_name TCP_FASTOPEN = ''TCP_FASTOPEN''"
| "opt_name TCP_FASTOPEN_CONNECT = ''TCP_FASTOPEN_CONNECT''"
| "opt_name SO_BUSY_POLL = ''SO_BUSY_POLL''"
| "opt_name SO_REUSEPORT = ''SO_REUSEPORT''"

definition opt_list :: "'a option \<Rightarrow> ('a \<Rightarrow> 'b list) \<Rightarrow> 'b list" where
  "opt_list m f = (case m of None \<Rightarrow> [] | Some x \<Rightarrow> f x)"

definition requested :: "TcpTuning \<Rightarrow> (sockopt \<times> optval) list" where
  "requested t =
     [(TCP_NODELAY, OBool (tu_nodelay t))] @
     (if tu_cork t then [(TCP_CORK, OBool True)] else []) @
     opt_list (tu_congestion t) (\<lambda>a. [(TCP_CONGESTION, OStr a)]) @
     opt_list (tu_notsent_lowat t) (\<lambda>n. [(TCP_NOTSENT_LOWAT, OInt n)]) @
     opt_list (tu_user_timeout t) (\<lambda>d. [(TCP_USER_TIMEOUT, OInt (word_of_int (as_millis d)))]) @
     opt_list (tu_keepalive t) (\<lambda>ka.
       [(SO_KEEPALIVE, OBool True), (TCP_KEEPIDLE, ODuration (ka_idle ka)),
        (TCP_KEEPINTVL, ODuration (ka_interval ka)), (TCP_KEEPCNT, OInt (ka_count ka))]) @
     opt_list (tu_fastopen_queue t) (\<lambda>q. [(TCP_FASTOPEN, OInt q)]) @
     (if tu_fastopen_connect t then [(TCP_FASTOPEN_CONNECT, OInt 1)] else []) @
     opt_list (tu_busy_poll t) (\<lambda>us. [(SO_BUSY_POLL, OInt us)])"

definition note_all :: "(sockopt \<times> optval) list \<Rightarrow> 'x sock_scheme \<times> TuningReport \<Rightarrow> 'x sock_scheme \<times> TuningReport" where
  "note_all = fold (\<lambda>(opt, v). note_opt (opt_name opt) opt v)"

lemma note_all_simps:
  "note_all [] sr = sr"
  "note_all ((opt, v) # os) sr = note_all os (note_opt (opt_name opt) opt v sr)"
  "note_all (os @ ps) sr = note_all ps (note_all os sr)"
  "note_all (opt_list m f) sr = (case m of None \<Rightarrow> sr | Some x \<Rightarrow> note_all (f x) sr)"
  "note_all (if b then os else []) sr = (if b then note_all os sr else sr)"
  by (simp_all add: note_all_def opt_list_def split: option.split)

lemma tuning_apply_note_all:
  "tuning_apply t s = (case note_all (requested t) (s, report_default) of (s', r) \<Rightarrow> (r, s'))"
  unfolding tuning_apply_def requested_def Let_def note_all_simps opt_name.simps case_prod_unfold ..

lemma opts_simps:
  "map fst (opt_list m f) = opt_list m (\<lambda>x. map fst (f x))"
  "set (opt_list m g) = (case m of None \<Rightarrow> {} | Some x \<Rightarrow> set (g x))"
  "distinct (opt_list m h) \<longleftrightarrow> (\<forall>x. m = Some x \<longrightarrow> distinct (h x))"
  "map fst (if b then os else []) = (if b then map fst os else [])"
  "set (if b then ks else []) = {k. b \<and> k \<in> set ks}"
  "distinct (if b then ks else []) \<longleftrightarrow> b \<longrightarrow> distinct ks"
  by (auto simp: opt_list_def split: option.split)

lemma distinct_requested: "distinct (map fst (requested t))"
  unfolding requested_def map_append distinct_append set_append opts_simps
  by (intro conjI allI impI; simp; force split: option.splits)

text \<open>What the kernel answers is fixed by the option and the value, so the report and the socket after a
  run of options are the partition of the options by that answer.\<close>

lemma note_all_spec:
  assumes "note_all os (s, r) = (s', r')" "distinct (map fst os)"
  shows "tr_applied r' = tr_applied r @ map (\<lambda>(opt, v). opt_name opt) (filter (\<lambda>(opt, v). so_refuse s opt v = None) os)
    \<and> tr_refused r' = tr_refused r @
        map (\<lambda>(opt, v). (opt_name opt, the (so_refuse s opt v))) (filter (\<lambda>(opt, v). so_refuse s opt v \<noteq> None) os)
    \<and> so_refuse s' = so_refuse s
    \<and> (\<forall>opt. so_val s' opt = (case map_of os opt of
          Some v \<Rightarrow> if so_refuse s opt v = None then Some v else so_val s opt | None \<Rightarrow> so_val s opt))"
  using assms
proof (induction os arbitrary: s r)
  case Nil
  then show ?case by (simp add: note_all_def)
next
  case (Cons x os)
  obtain opt v where x: "x = (opt, v)" by (cases x)
  obtain s1 r1 where s1: "note_opt (opt_name opt) opt v (s, r) = (s1, r1)" by (cases "note_opt (opt_name opt) opt v (s, r)")
  then have run: "note_all os (s1, r1) = (s', r')" using Cons.prems(1) x by (simp add: note_all_def)
  have fresh: "map_of os opt = None" using Cons.prems(2) x by (simp add: map_of_eq_None_iff)
  have refuse: "so_refuse s1 = so_refuse s"
    using s1 by (auto simp: note_opt_def set_opt_def split: option.splits)
  show ?case
  proof (cases "so_refuse s opt v")
    case None
    then have "so_val s1 = (so_val s)(opt \<mapsto> v)" "r1 = r\<lparr>tr_applied := tr_applied r @ [opt_name opt]\<rparr>"
      using s1 by (auto simp: note_opt_def set_opt_def report_note_def)
    then show ?thesis using Cons.IH [OF run] Cons.prems(2) refuse None x fresh by (auto split: option.split)
  next
    case (Some e)
    then have "s1 = s" "r1 = r\<lparr>tr_refused := tr_refused r @ [(opt_name opt, e)]\<rparr>"
      using s1 by (auto simp: note_opt_def set_opt_def report_note_def)
    then show ?thesis using Cons.IH [OF run] Cons.prems(2) Some x fresh by (auto split: option.split)
  qed
qed

lemma note_all_more: "sock.more (fst (note_all os sr)) = sock.more (fst sr)"
proof (induction os arbitrary: sr)
  case (Cons x os)
  then show ?case
    by (cases x) (simp add: note_all_simps note_opt_def set_opt_def split: option.split)
qed (simp add: note_all_simps)

lemma tuning_apply_more: "sock.more (snd (tuning_apply t s)) = sock.more s"
  using note_all_more [of "requested t" "(s, report_default)"]
  by (simp add: tuning_apply_note_all case_prod_unfold)

section \<open>Properties\<close>

text \<open>The report is exact, for every profile and every kernel: each requested option is reported once,
  as applied when the kernel took it and with the error number when not; the socket then has the
  requested value for the applied options and its previous value for every other option.\<close>

theorem tuning_report_exact:
  assumes "tuning_apply t s = (r, s')"
  shows "tr_applied r = map (\<lambda>(opt, v). opt_name opt) (filter (\<lambda>(opt, v). so_refuse s opt v = None) (requested t))
    \<and> tr_refused r = map (\<lambda>(opt, v). (opt_name opt, the (so_refuse s opt v)))
        (filter (\<lambda>(opt, v). so_refuse s opt v \<noteq> None) (requested t))
    \<and> length (tr_applied r) + length (tr_refused r) = length (requested t)
    \<and> (\<forall>opt. so_val s' opt = (case map_of (requested t) opt of
          Some v \<Rightarrow> if so_refuse s opt v = None then Some v else so_val s opt | None \<Rightarrow> so_val s opt))"
proof -
  have "note_all (requested t) (s, report_default) = (s', r)"
    using assms by (simp add: tuning_apply_note_all split: prod.splits)
  note N = note_all_spec [OF this distinct_requested]
  then have "length (tr_applied r) + length (tr_refused r) = length (requested t)"
    using sum_length_filter_compl [of "\<lambda>(opt, v). so_refuse s opt v = None" "requested t"]
    by (simp add: report_default_def case_prod_unfold)
  then show ?thesis using N by (simp add: report_default_def)
qed

definition example_sock :: sock where
  "example_sock = \<lparr>so_val = (\<lambda>_. None), so_refuse = (\<lambda>opt v. if opt = TCP_CONGESTION then Some 2 else None)\<rparr>"

theorem tuning_report_exact_witness:
  "tr_refused (fst (tuning_apply tuning_control example_sock)) = [(''TCP_CONGESTION'', 2)]
   \<and> so_val (snd (tuning_apply tuning_control example_sock)) TCP_USER_TIMEOUT = Some (OInt 20000)
   \<and> so_val (snd (tuning_apply tuning_control example_sock)) TCP_CORK = None"
proof -
  let ?q = "tuning_apply tuning_control example_sock"
  have "?q = (fst ?q, snd ?q)" by simp
  from tuning_report_exact [OF this] show ?thesis
    by (simp add: requested_def opt_list_def tuning_control_def example_sock_def keepalive_default_def
        from_secs_def as_millis_def)
qed

text \<open>A guarded block never leaves the socket corked by itself: whatever the block returns, success or
  error, and whatever it does to the socket, if the kernel lets the cork be removed then the
  socket is uncorked afterwards; and if the cork was refused, the block did not run.\<close>

theorem cork_guard_releases:
  assumes "with_cork body s = (r, s')"
    and "\<And>u q u'. body u = (q, u') \<Longrightarrow> so_refuse u' = so_refuse u"
  shows "(so_refuse s TCP_CORK (OBool True) = None \<longrightarrow> so_refuse s TCP_CORK (OBool False) = None \<longrightarrow>
            so_val s' TCP_CORK = Some (OBool False)) \<and>
         (\<forall>e. so_refuse s TCP_CORK (OBool True) = Some e \<longrightarrow> r = Inl e \<and> s' = s)"
  using assms(1) assms(2) [of "s\<lparr>so_val := (so_val s)(TCP_CORK \<mapsto> OBool True)\<rparr>"]
  by (auto simp: with_cork_def cork_guard_new_def cork_guard_drop_def abind_def set_opt_def
      split: option.splits prod.splits)

theorem cork_guard_releases_witness:
  "so_val (snd (with_cork (athrow 32 :: (sock, int, unit) act) example_sock)) TCP_CORK = Some (OBool False)"
proof -
  let ?b = "athrow 32 :: (sock, int, unit) act" and ?s = example_sock
  have "with_cork ?b ?s = (fst (with_cork ?b ?s), snd (with_cork ?b ?s))" by simp
  from cork_guard_releases [OF this] show ?thesis by (simp add: example_sock_def)
qed

end
