(* ===== verification/Jet_Conn.thy ===== *)
theory Jet_Conn
  imports Jet_Msg Jet_Tuning "HOL-Library.Sublist"
begin

text \<open>
  Framed connections (\<open>crates/jet-proto/src/conn.rs\<close>): sending and receiving frames over a byte
  stream, stream identifiers, both halves of the handshake. A stream is the bytes the peer will
  deliver, how the delivery ends, the bytes written so far, and the fate of the coming writes.
\<close>

section \<open>Streams\<close>

datatype io_error = UnexpectedEof | ConnectionReset | BrokenPipe | IoErrno nat

record TcpStream = sock +
  rx :: bytes
  rx_end :: io_error
  tx :: bytes
  tx_fault :: "(nat \<times> io_error) option list"

definition read_exact :: "nat \<Rightarrow> (TcpStream, io_error, bytes) act" where
  "read_exact n s =
     (if n \<le> length (rx s) then (Inr (take n (rx s)), s\<lparr>rx := drop n (rx s)\<rparr>)
      else (Inl (rx_end s), s\<lparr>rx := []\<rparr>))"

text \<open>\<open>write_all\<close> and \<open>flush\<close>: a failing write may have sent a prefix.\<close>

definition write_all_flush :: "bytes \<Rightarrow> (TcpStream, io_error, unit) act" where
  "write_all_flush buf s =
     (case tx_fault s of
        Some (n, e) # fs \<Rightarrow> (Inl e, s\<lparr>tx := tx s @ take n buf, tx_fault := fs\<rparr>)
      | fs \<Rightarrow> (Inr (), s\<lparr>tx := tx s @ buf, tx_fault := tl fs\<rparr>))"

section \<open>Frames\<close>

record Frame =
  fr_header :: FrameHeader
  fr_payload :: bytes

definition frame_msg_type :: "Frame \<Rightarrow> MsgType" where
  "frame_msg_type f = fh_msg_type (fr_header f)"

definition frame_stream_id :: "Frame \<Rightarrow> 32 word" where
  "frame_stream_id f = fh_stream_id (fr_header f)"

definition frame_decode :: "rkyv_crate \<Rightarrow> MsgType \<Rightarrow> Frame \<Rightarrow> CodecError + Payload" where
  "frame_decode k t f = msg_decode k t (fr_payload f)"

text \<open>The derived \<open>Debug\<close> of the message types.\<close>

fun msg_debug :: "MsgType \<Rightarrow> string" where
  "msg_debug MT_Hello = ''Hello''"
| "msg_debug MT_HelloAck = ''HelloAck''"
| "msg_debug MT_Goodbye = ''Goodbye''"
| "msg_debug MT_Error = ''Error''"
| "msg_debug MT_Ping = ''Ping''"
| "msg_debug MT_Pong = ''Pong''"
| "msg_debug MT_Auth = ''Auth''"
| "msg_debug MT_AuthOk = ''AuthOk''"
| "msg_debug MT_SubmitRun = ''SubmitRun''"
| "msg_debug MT_RunAccepted = ''RunAccepted''"
| "msg_debug MT_GetRun = ''GetRun''"
| "msg_debug MT_RunInfo = ''RunInfo''"
| "msg_debug MT_CancelRun = ''CancelRun''"
| "msg_debug MT_TailLogs = ''TailLogs''"
| "msg_debug MT_LogChunk = ''LogChunk''"
| "msg_debug MT_CasQuery = ''CasQuery''"
| "msg_debug MT_CasMissing = ''CasMissing''"
| "msg_debug MT_CasPut = ''CasPut''"
| "msg_debug MT_CasGet = ''CasGet''"
| "msg_debug MT_BulkHeader = ''BulkHeader''"

definition frame_debug :: "Frame \<Rightarrow> string" where
  "frame_debug f =
     ''Frame { msg_type: '' @ msg_debug (frame_msg_type f) @
     '', stream_id: '' @ dec (unat (frame_stream_id f)) @
     '', flags: '' @ flags_debug (fh_flags (fr_header f)) @
     '', payload_len: '' @ dec (length (fr_payload f)) @ '' }''"

section \<open>Connections\<close>

record JrpConn =
  jc_stream :: TcpStream
  jc_version :: "16 word"
  jc_peer_caps :: "32 word"
  jc_next_stream_id :: "32 word"
  jc_client_side :: bool

datatype ConnError =
    ConnIo io_error
  | ConnFrame FrameError
  | ConnCodec CodecError
  | Unexpected MsgType
  | Peer "16 word" string
  | PayloadTooLarge nat
  | ConnInvalid Invalid

definition conn_server :: "TcpStream \<Rightarrow> JrpConn \<times> TuningReport" where
  "conn_server stream =
     (case tuning_apply tuning_control stream of (report, stream') \<Rightarrow>
        (\<lparr>jc_stream = stream', jc_version = VERSION, jc_peer_caps = 0, jc_next_stream_id = 2,
          jc_client_side = False\<rparr>, report))"

definition conn_client :: "TcpStream \<Rightarrow> JrpConn \<times> TuningReport" where
  "conn_client stream =
     (case tuning_apply tuning_control stream of (report, stream') \<Rightarrow>
        (\<lparr>jc_stream = stream', jc_version = VERSION, jc_peer_caps = 0, jc_next_stream_id = 1,
          jc_client_side = True\<rparr>, report))"

definition peer_supports :: "JrpConn \<Rightarrow> 32 word \<Rightarrow> bool" where
  "peer_supports c cap \<longleftrightarrow> jc_peer_caps c AND cap = cap"

definition next_stream :: "JrpConn \<Rightarrow> 32 word \<times> JrpConn" where
  "next_stream c =
     (jc_next_stream_id c,
      c\<lparr>jc_next_stream_id := max (jc_next_stream_id c + 2) (if jc_client_side c then 1 else 2)\<rparr>)"

text \<open>An operation on the stream, as one of the connection.\<close>

definition on_stream :: "(TcpStream, io_error, 'a) act \<Rightarrow> (JrpConn, ConnError, 'a) act" where
  "on_stream m c =
     (case m (jc_stream c) of (r, s) \<Rightarrow>
        (case r of Inl e \<Rightarrow> Inl (ConnIo e) | Inr x \<Rightarrow> Inr x, c\<lparr>jc_stream := s\<rparr>))"

definition alloc_stream :: "(JrpConn, ConnError, 32 word) act" where
  "alloc_stream c = (case next_stream c of (sid, c') \<Rightarrow> (Inr sid, c'))"

definition codec_err :: "CodecError + 'a \<Rightarrow> ConnError + 'a" where
  "codec_err r = (case r of Inl e \<Rightarrow> Inl (ConnCodec e) | Inr x \<Rightarrow> Inr x)"

definition send :: "rkyv_crate \<Rightarrow> MsgType \<Rightarrow> 32 word \<Rightarrow> Payload \<Rightarrow> Flags \<Rightarrow> (JrpConn, ConnError, unit) act" where
  "send k msg_type stream_id val flags =
     abind (alift (codec_err (msg_encode k val))) (\<lambda>payload.
     if int (length payload) > uint MAX_PAYLOAD then athrow (PayloadTooLarge (length payload))
     else
       abind (agets jc_version) (\<lambda>version.
       let header = (header_new msg_type stream_id (of_nat (length payload)))
                      \<lparr>fh_version := version, fh_flags := flags\<rparr>;
           buf = header_encode header @ payload
       in on_stream (write_all_flush buf)))"

definition recv :: "(JrpConn, ConnError, Frame) act" where
  "recv =
     abind (on_stream (read_exact HEADER_LEN)) (\<lambda>hdr.
     abind (alift (case header_decode hdr of Inl e \<Rightarrow> Inl (ConnFrame e) | Inr h \<Rightarrow> Inr h)) (\<lambda>header.
     abind (if fh_payload_len header > 0 then on_stream (read_exact (unat (fh_payload_len header)))
            else aret []) (\<lambda>payload.
     aret \<lparr>fr_header = header, fr_payload = payload\<rparr>)))"

definition send_error :: "rkyv_crate \<Rightarrow> 32 word \<Rightarrow> 16 word \<Rightarrow> string \<Rightarrow> (JrpConn, ConnError, unit) act" where
  "send_error k stream_id code message =
     send k MT_Error stream_id (PErrorMsg \<lparr>em_code = code, em_message = message\<rparr>) END_STREAM"

section \<open>Handshake and ping\<close>

text \<open>In Rust the type of \<open>frame.decode\<close> is static. Here the payload is matched, and the branch for a
  payload of another type cannot be taken (\<open>msg_decode_type\<close>).\<close>

definition client_hello :: "string \<Rightarrow> Hello" where
  "client_hello agent =
     \<lparr>he_agent = agent, he_min_version = MIN_VERSION, he_max_version = VERSION, he_capabilities = caps_ALL\<rparr>"

text \<open>The part of the client's handshake after the answer: \<open>frame.decode\<close> as the type of the branch.\<close>

definition client_answer :: "rkyv_crate \<Rightarrow> Frame \<Rightarrow> (JrpConn, ConnError, HelloAck) act" where
  "client_answer k frame =
     (case frame_msg_type frame of
        MT_HelloAck \<Rightarrow>
          abind (alift (codec_err (frame_decode k MT_HelloAck frame))) (\<lambda>p.
          case p of
            PHelloAck ack \<Rightarrow>
              if ha_version ack < MIN_VERSION \<or> ha_version ack > VERSION
              then athrow (ConnFrame (UnsupportedVersion (ha_version ack)))
              else
                abind (amodify (\<lambda>c. c\<lparr>jc_version := ha_version ack, jc_peer_caps := ha_capabilities ack\<rparr>)) (\<lambda>_.
                aret ack)
          | _ \<Rightarrow> athrow (ConnCodec (CodecDecode '''')))
      | MT_Error \<Rightarrow>
          abind (alift (codec_err (frame_decode k MT_Error frame))) (\<lambda>p.
          case p of
            PErrorMsg e \<Rightarrow> athrow (Peer (em_code e) (em_message e))
          | _ \<Rightarrow> athrow (ConnCodec (CodecDecode '''')))
      | other \<Rightarrow> athrow (Unexpected other))"

definition client_handshake :: "rkyv_crate \<Rightarrow> string \<Rightarrow> (JrpConn, ConnError, HelloAck) act" where
  "client_handshake k agent =
     abind alloc_stream (\<lambda>stream_id.
     abind (send k MT_Hello stream_id (PHello (client_hello agent)) NONE) (\<lambda>_.
     abind recv (client_answer k)))"

definition mismatch_message :: "Hello \<Rightarrow> string" where
  "mismatch_message hello =
     ''peer speaks '' @ dec (unat (he_min_version hello)) @ ''..='' @ dec (unat (he_max_version hello)) @
     '', this server speaks '' @ dec (unat MIN_VERSION) @ ''..='' @ dec (unat VERSION)"

definition server_ack :: "string \<Rightarrow> string \<Rightarrow> Hello \<Rightarrow> HelloAck" where
  "server_ack agent session hello =
     \<lparr>ha_agent = agent, ha_version = min VERSION (he_max_version hello),
      ha_capabilities = caps_ALL AND he_capabilities hello, ha_session = session\<rparr>"

text \<open>The server's answer to a \<open>Hello\<close>.\<close>

definition server_answer :: "rkyv_crate \<Rightarrow> string \<Rightarrow> string \<Rightarrow> 32 word \<Rightarrow> Hello \<Rightarrow> (JrpConn, ConnError, Hello) act" where
  "server_answer k agent session stream_id hello =
     (case hello_validate hello of
        Inl e \<Rightarrow>
          abind (send_error k stream_id code_BAD_REQUEST (invalid_display e)) (\<lambda>_. athrow (ConnInvalid e))
      | Inr _ \<Rightarrow>
          let negotiated = min VERSION (he_max_version hello) in
          if negotiated < MIN_VERSION \<or> negotiated < he_min_version hello then
            abind (send_error k stream_id code_VERSION_MISMATCH (mismatch_message hello)) (\<lambda>_.
            athrow (ConnFrame (UnsupportedVersion (he_max_version hello))))
          else
            abind (amodify (\<lambda>c. c\<lparr>jc_version := negotiated, jc_peer_caps := he_capabilities hello\<rparr>)) (\<lambda>_.
            abind (send k MT_HelloAck stream_id (PHelloAck (server_ack agent session hello)) NONE) (\<lambda>_.
            aret hello)))"

definition server_handshake :: "rkyv_crate \<Rightarrow> string \<Rightarrow> string \<Rightarrow> (JrpConn, ConnError, Hello) act" where
  "server_handshake k agent session =
     abind recv (\<lambda>frame.
     if frame_msg_type frame \<noteq> MT_Hello then
       abind (send_error k (frame_stream_id frame) code_BAD_REQUEST ''expected Hello as the first frame'') (\<lambda>_.
       athrow (Unexpected (frame_msg_type frame)))
     else
       abind (alift (codec_err (frame_decode k MT_Hello frame))) (\<lambda>p.
       case p of
         PHello hello \<Rightarrow> server_answer k agent session (frame_stream_id frame) hello
       | _ \<Rightarrow> athrow (ConnCodec (CodecDecode ''''))))"

definition ping :: "rkyv_crate \<Rightarrow> 64 word \<Rightarrow> (JrpConn, ConnError, 64 word) act" where
  "ping k nonce =
     abind alloc_stream (\<lambda>stream_id.
     abind (send k MT_Ping stream_id (PPing \<lparr>pi_nonce = nonce\<rparr>) NONE) (\<lambda>_.
     abind recv (\<lambda>frame.
     if frame_msg_type frame \<noteq> MT_Pong then athrow (Unexpected (frame_msg_type frame))
     else
       abind (alift (codec_err (frame_decode k MT_Pong frame))) (\<lambda>p.
       case p of PPong pong \<Rightarrow> aret (po_nonce pong) | _ \<Rightarrow> athrow (ConnCodec (CodecDecode ''''))))))"

section \<open>Frames on the wire\<close>

definition frame_of :: "16 word \<Rightarrow> MsgType \<Rightarrow> 32 word \<Rightarrow> Flags \<Rightarrow> bytes \<Rightarrow> Frame" where
  "frame_of v t sid fl bs =
     \<lparr>fr_header = \<lparr>fh_version = v, fh_msg_type = t, fh_flags = fl, fh_stream_id = sid,
                   fh_payload_len = of_nat (length bs)\<rparr>,
      fr_payload = bs\<rparr>"

definition wire :: "Frame \<Rightarrow> bytes" where
  "wire f = header_encode (fr_header f) @ fr_payload f"

definition frame_ok :: "Frame \<Rightarrow> bool" where
  "frame_ok f \<longleftrightarrow> header_ok (fr_header f) \<and> length (fr_payload f) = unat (fh_payload_len (fr_header f))"

definition ver_ok :: "16 word \<Rightarrow> bool" where
  "ver_ok v \<longleftrightarrow> MIN_VERSION \<le> v \<and> v \<le> VERSION"

lemma unat_MAX_PAYLOAD: "unat MAX_PAYLOAD = 8388608"
  by (simp add: MAX_PAYLOAD_def)

lemma fits_iff: "int n > uint MAX_PAYLOAD \<longleftrightarrow> \<not> n \<le> unat MAX_PAYLOAD"
  by (simp add: MAX_PAYLOAD_def not_le)

lemma frame_of_ok:
  assumes "ver_ok v" "length bs \<le> unat MAX_PAYLOAD"
  shows "frame_ok (frame_of v t sid fl bs)"
proof -
  have "length bs < 2 ^ 32" using assms(2) by (simp add: unat_MAX_PAYLOAD)
  then have "unat (of_nat (length bs) :: 32 word) = length bs" by (simp add: unat_of_nat take_bit_eq_mod)
  then show ?thesis
    using assms by (simp add: frame_ok_def frame_of_def header_ok_def ver_ok_def word_le_nat_alt)
qed

lemma on_streamE:
  assumes "on_stream m c = (r, c')"
  obtains (err) e s where "m (jc_stream c) = (Inl e, s)" "r = Inl (ConnIo e)" "c' = c\<lparr>jc_stream := s\<rparr>"
    | (ok) x s where "m (jc_stream c) = (Inr x, s)" "r = Inr x" "c' = c\<lparr>jc_stream := s\<rparr>"
  using assms by (auto simp: on_stream_def split: prod.splits sum.splits)

lemma conn_stream_simps [simp]:
  "c\<lparr>jc_stream := jc_stream c\<rparr> = (c :: JrpConn)"
  "(s :: TcpStream)\<lparr>rx := rx s\<rparr> = s"
  by simp_all

lemma recv_wire:
  assumes "frame_ok f" "rx (jc_stream c) = wire f @ rest"
  shows "recv c = (Inr f, c\<lparr>jc_stream := (jc_stream c)\<lparr>rx := rest\<rparr>\<rparr>)"
proof -
  let ?h = "fr_header f" and ?c1 = "c\<lparr>jc_stream := (jc_stream c)\<lparr>rx := fr_payload f @ rest\<rparr>\<rparr>"
  have 1: "on_stream (read_exact HEADER_LEN) c = (Inr (header_encode ?h), ?c1)"
    using assms(2) by (simp add: on_stream_def read_exact_def wire_def)
  have 2: "header_decode (header_encode ?h) = Inr ?h"
    using assms(1) by (intro header_decode_encode) (simp add: frame_ok_def)
  have 3: "(if fh_payload_len ?h > 0 then on_stream (read_exact (unat (fh_payload_len ?h))) else aret []) ?c1 =
      (Inr (fr_payload f), c\<lparr>jc_stream := (jc_stream c)\<lparr>rx := rest\<rparr>\<rparr>)"
    using assms(1) by (auto simp: frame_ok_def on_stream_def read_exact_def word_greater_zero_iff)
  show ?thesis
    unfolding recv_def using 1 2 3 by (simp add: abind_def)
qed

lemma recv_sound:
  assumes "recv c = (Inr f, c')"
  shows "frame_ok f \<and> rx (jc_stream c) = wire f @ rx (jc_stream c') \<and>
    c' = c\<lparr>jc_stream := (jc_stream c)\<lparr>rx := rx (jc_stream c')\<rparr>\<rparr>"
  using assms unfolding recv_def
proof (cases rule: abindE)
  case (ok hdr c1)
  then have h: "hdr = take 16 (rx (jc_stream c))" "16 \<le> length (rx (jc_stream c))"
    and c1: "c1 = c\<lparr>jc_stream := (jc_stream c)\<lparr>rx := drop 16 (rx (jc_stream c))\<rparr>\<rparr>"
    by (auto simp: read_exact_def HEADER_LEN_def elim!: on_streamE split: if_splits)
  have len: "length hdr = HEADER_LEN" using h by (simp add: HEADER_LEN_def)
  from ok(2) show ?thesis
  proof (cases rule: abindE)
    case (ok header c2)
    then have "header_decode hdr = Inr header" and c2: "c2 = c1" by (auto split: sum.splits)
    note D = header_decode_sound [OF len this(1)]
    from ok(2) obtain bs where bs: "(if fh_payload_len header > 0 then on_stream (read_exact (unat (fh_payload_len header))) else aret []) c1 = (Inr bs, c')"
      and f: "f = \<lparr>fr_header = header, fr_payload = bs\<rparr>"
      using c2 by (auto elim!: abindE)
    have pl: "length bs = unat (fh_payload_len header) \<and> rx (jc_stream c1) = bs @ rx (jc_stream c') \<and>
       c' = c1\<lparr>jc_stream := (jc_stream c1)\<lparr>rx := rx (jc_stream c')\<rparr>\<rparr>"
      using bs by (auto simp: read_exact_def word_greater_zero_iff elim!: on_streamE split: if_splits)
    have "rx (jc_stream c) = hdr @ rx (jc_stream c1)" using h c1 by simp
    then show ?thesis using D pl f c1 by (auto simp: frame_ok_def wire_def)
  qed simp
qed simp

lemma sendE:
  assumes "send k t sid p fl c = (Inr u, c')"
  obtains bs where "msg_encode k p = Inr bs" "length bs \<le> unat MAX_PAYLOAD"
    "tx (jc_stream c') = tx (jc_stream c) @ wire (frame_of (jc_version c) t sid fl bs)"
    "c' = c\<lparr>jc_stream := (jc_stream c)\<lparr>tx := tx (jc_stream c'), tx_fault := tx_fault (jc_stream c')\<rparr>\<rparr>"
proof -
  from assms [unfolded send_def]
  obtain bs where bs: "msg_encode k p = Inr bs" and run:
    "(if int (length bs) > uint MAX_PAYLOAD then athrow (PayloadTooLarge (length bs)) else
       abind (agets jc_version) (\<lambda>version.
       let header = (header_new t sid (of_nat (length bs)))\<lparr>fh_version := version, fh_flags := fl\<rparr>;
           buf = header_encode header @ bs in on_stream (write_all_flush buf))) c = (Inr u, c')"
    by (auto simp: codec_err_def elim!: abindE split: sum.splits)
  then have len: "length bs \<le> unat MAX_PAYLOAD" by (auto simp: fits_iff split: if_splits)
  have "on_stream (write_all_flush (wire (frame_of (jc_version c) t sid fl bs))) c = (Inr u, c')"
    using run len unfolding fits_iff by (simp add: Let_def wire_def frame_of_def header_new_def)
  then have "tx (jc_stream c') = tx (jc_stream c) @ wire (frame_of (jc_version c) t sid fl bs)"
    "c' = c\<lparr>jc_stream := (jc_stream c)\<lparr>tx := tx (jc_stream c'), tx_fault := tx_fault (jc_stream c')\<rparr>\<rparr>"
    by (auto simp: write_all_flush_def elim!: on_streamE split: list.splits option.splits)
  then show ?thesis using that bs len by blast
qed

lemma send_run:
  assumes "msg_encode k p = Inr bs" "length bs \<le> unat MAX_PAYLOAD" "tx_fault (jc_stream c) = []"
  shows "send k t sid p fl c =
    (Inr (), c\<lparr>jc_stream := (jc_stream c)\<lparr>tx := tx (jc_stream c) @ wire (frame_of (jc_version c) t sid fl bs)\<rparr>\<rparr>)"
  using assms by (auto simp: send_def codec_err_def abind_def Let_def on_stream_def write_all_flush_def
      wire_def frame_of_def header_new_def fits_iff)

section \<open>Sequences of frames\<close>

text \<open>A wire format whose items can be read back one after the other.\<close>

locale framing =
  fixes enc :: "'a \<Rightarrow> bytes" and pull :: "'s \<Rightarrow> 'a option \<times> 's" and input :: "'s \<Rightarrow> bytes" and good :: "'a \<Rightarrow> bool"
  assumes pull_enc: "good x \<Longrightarrow> input s = enc x @ rest \<Longrightarrow> fst (pull s) = Some x \<and> input (snd (pull s)) = rest"
    and pull_sound: "fst (pull s) = Some x \<Longrightarrow> good x \<and> input s = enc x @ input (snd (pull s))"
begin

primrec pulls :: "nat \<Rightarrow> 's \<Rightarrow> 'a list" where
  "pulls 0 s = []"
| "pulls (Suc n) s = (case pull s of (None, _) \<Rightarrow> [] | (Some x, s') \<Rightarrow> x # pulls n s')"

lemma pulls_enc:
  "list_all good xs \<Longrightarrow> input s = concat (map enc xs) @ rest \<Longrightarrow> pulls (length xs) s = xs"
proof (induction xs arbitrary: s)
  case (Cons x xs)
  then have "fst (pull s) = Some x" "input (snd (pull s)) = concat (map enc xs) @ rest"
    using pull_enc [of x s "concat (map enc xs) @ rest"] by auto
  then show ?case using Cons by (cases "pull s") simp
qed simp

lemma pulls_prefix: "prefix (concat (map enc (pulls n s))) (input s) \<and> list_all good (pulls n s)"
proof (induction n arbitrary: s)
  case (Suc n)
  show ?case
  proof (cases "fst (pull s)")
    case (Some x)
    then show ?thesis using pull_sound [OF Some] Suc [of "snd (pull s)"] by (auto split: prod.splits)
  qed (auto split: prod.splits)
qed simp

end

definition recv_opt :: "JrpConn \<Rightarrow> Frame option \<times> JrpConn" where
  "recv_opt c = (case recv c of (Inr f, c') \<Rightarrow> (Some f, c') | (Inl _, c') \<Rightarrow> (None, c'))"

interpretation jrp: framing wire recv_opt "\<lambda>c. rx (jc_stream c)" frame_ok
proof
  fix x :: Frame and s :: JrpConn and rest
  assume "frame_ok x" "rx (jc_stream s) = wire x @ rest"
  from recv_wire [OF this] show "fst (recv_opt s) = Some x \<and> rx (jc_stream (snd (recv_opt s))) = rest"
    by (simp add: recv_opt_def)
next
  fix s :: JrpConn and x :: Frame
  assume "fst (recv_opt s) = Some x"
  then have "recv s = (Inr x, snd (recv_opt s))"
    by (auto simp: recv_opt_def split: prod.splits sum.splits)
  from recv_sound [OF this]
  show "frame_ok x \<and> rx (jc_stream s) = wire x @ rx (jc_stream (snd (recv_opt s)))" by blast
qed

text \<open>A run of sends, each with its own type, stream and flags.\<close>

type_synonym outgoing = "MsgType \<times> 32 word \<times> Payload \<times> Flags"

primrec send_all :: "rkyv_crate \<Rightarrow> outgoing list \<Rightarrow> (JrpConn, ConnError, unit) act" where
  "send_all k [] = aret ()"
| "send_all k (m # ms) = (case m of (t, sid, p, fl) \<Rightarrow> abind (send k t sid p fl) (\<lambda>_. send_all k ms))"

primrec recv_n :: "nat \<Rightarrow> JrpConn \<Rightarrow> Frame list" where
  "recv_n 0 c = []"
| "recv_n (Suc n) c = (case recv_opt c of (None, _) \<Rightarrow> [] | (Some f, c') \<Rightarrow> f # recv_n n c')"

lemma recv_n_pulls: "recv_n n c = jrp.pulls n c"
  by (induction n arbitrary: c) (auto split: prod.split option.split)

lemma send_all_wire:
  "send_all k ms c = (Inr u, c') \<Longrightarrow> ver_ok (jc_version c) \<Longrightarrow>
   \<exists>fs. length fs = length ms \<and> list_all frame_ok fs \<and>
     tx (jc_stream c') = tx (jc_stream c) @ concat (map wire fs) \<and>
     list_all2 (\<lambda>f (t, sid, p, fl). msg_encode k p = Inr (fr_payload f) \<and>
        f = frame_of (jc_version c) t sid fl (fr_payload f)) fs ms"
proof (induction ms arbitrary: c)
  case (Cons m ms)
  obtain t sid p fl where m: "m = (t, sid, p, fl)" by (cases m)
  then obtain c1 where c1: "send k t sid p fl c = (Inr (), c1)" and run: "send_all k ms c1 = (Inr u, c')"
    using Cons.prems(1) by (auto elim!: abindE)
  from c1 obtain bs where bs: "msg_encode k p = Inr bs" "length bs \<le> unat MAX_PAYLOAD"
    "tx (jc_stream c1) = tx (jc_stream c) @ wire (frame_of (jc_version c) t sid fl bs)" "jc_version c1 = jc_version c"
    by (rule sendE) (metis JrpConn.ext_inject JrpConn.surjective JrpConn.update_convs(1))
  obtain fs where fs: "length fs = length ms" "list_all frame_ok fs"
    "tx (jc_stream c') = tx (jc_stream c1) @ concat (map wire fs)"
    "list_all2 (\<lambda>f (t, sid, p, fl). msg_encode k p = Inr (fr_payload f) \<and>
        f = frame_of (jc_version c) t sid fl (fr_payload f)) fs ms"
    using Cons.IH [OF run] Cons.prems(2) bs(4) by auto
  show ?case
    using fs bs m frame_of_ok [OF Cons.prems(2) bs(2), of t sid fl]
    by (intro exI [of _ "frame_of (jc_version c) t sid fl bs # fs"]) (auto simp: frame_of_def)
qed simp

section \<open>Stream identifiers\<close>

definition parity_ok :: "JrpConn \<Rightarrow> bool" where
  "parity_ok c \<longleftrightarrow> jc_next_stream_id c \<noteq> 0 \<and> (odd (unat (jc_next_stream_id c)) \<longleftrightarrow> jc_client_side c)"

text \<open>The identifier counted without wrap-around: \<open>n\<close> allocations after the first.\<close>

definition first_id :: "bool \<Rightarrow> nat" where
  "first_id client = (if client then 1 else 2)"

primrec alloc_ids :: "nat \<Rightarrow> JrpConn \<Rightarrow> 32 word list" where
  "alloc_ids 0 c = []"
| "alloc_ids (Suc n) c = (case next_stream c of (sid, c') \<Rightarrow> sid # alloc_ids n c')"

lemma unat_add_two: "unat (w + 2 :: 32 word) = (unat w + 2) mod 2 ^ 32"
  by (simp add: unat_word_ariths)

lemma parity_step:
  assumes "parity_ok c"
  shows "parity_ok (snd (next_stream c)) \<and> jc_client_side (snd (next_stream c)) = jc_client_side c"
proof -
  let ?i = "jc_next_stream_id c"
  have even: "even ((unat ?i + 2) mod 2 ^ 32) \<longleftrightarrow> even (unat ?i)"
    by (simp add: dvd_mod_iff)
  show ?thesis
  proof (cases "?i + 2 = 0")
    case True
    then have "even (unat ?i)" using even unat_add_two [of ?i] by simp
    then have "\<not> jc_client_side c" using assms by (simp add: parity_ok_def)
    then show ?thesis using True by (simp add: next_stream_def parity_ok_def max_def)
  next
    case False
    then have pos: "unat (?i + 2) \<noteq> 0" by (simp add: unat_eq_zero)
    have par: "odd (unat (?i + 2)) \<longleftrightarrow> jc_client_side c"
      using even assms unfolding unat_add_two parity_ok_def by simp
    have ge: "(if jc_client_side c then 1 else 2) \<le> ?i + 2"
      using pos par by (cases "jc_client_side c"; cases "unat (?i + 2) = 1") (auto simp: word_le_nat_alt)
    then show ?thesis using False par by (simp add: next_stream_def parity_ok_def max_def)
  qed
qed

interpretation streams: machine "\<lambda>c (_ :: unit). snd (next_stream c)" parity_ok
  by unfold_locales (simp add: parity_step)

lemma alloc_ids_closed:
  "parity_ok c \<Longrightarrow> unat (jc_next_stream_id c) + 2 * n < 2 ^ 32 + 2 \<Longrightarrow>
   alloc_ids n c = map (\<lambda>i. jc_next_stream_id c + of_nat (2 * i)) [0..<n]"
proof (induction n arbitrary: c)
  case (Suc n)
  let ?i = "jc_next_stream_id c" and ?c = "snd (next_stream c)"
  show ?case
  proof (cases n)
    case 0
    then show ?thesis by (simp add: next_stream_def)
  next
    case (Suc m)
    then have small: "unat ?i + 2 < 2 ^ 32" using Suc.prems(2) by simp
    then have u: "unat (?i + 2) = unat ?i + 2" by (simp add: unat_add_two)
    then have "(if jc_client_side c then 1 else 2) \<le> ?i + 2" by (auto simp: word_le_nat_alt)
    then have nx: "jc_next_stream_id ?c = ?i + 2" by (simp add: next_stream_def max_def)
    have "alloc_ids n ?c = map (\<lambda>i. jc_next_stream_id ?c + of_nat (2 * i)) [0..<n]"
      using Suc.IH [of ?c] parity_step [OF Suc.prems(1)] Suc.prems(2) nx u by simp
    also have "\<dots> = map (\<lambda>i. ?i + of_nat (2 * i)) [1..<Suc n]"
      unfolding nx One_nat_def map_Suc_upt [symmetric] by (simp add: algebra_simps comp_def)
    finally show ?thesis by (simp add: next_stream_def upt_conv_Cons del: upt_Suc)
  qed
qed simp

lemma alloc_ids_parity:
  "parity_ok c \<Longrightarrow> list_all (\<lambda>i. i \<noteq> 0 \<and> (odd (unat i) \<longleftrightarrow> jc_client_side c)) (alloc_ids n c)"
proof (induction n arbitrary: c)
  case (Suc n)
  then show ?case using parity_step [OF Suc.prems] Suc.IH [of "snd (next_stream c)"]
    by (auto simp: parity_ok_def next_stream_def)
qed simp

lemma conn_new_simps:
  "jc_next_stream_id (fst (conn_client s)) = 1" "jc_next_stream_id (fst (conn_server s)) = 2"
  "jc_client_side (fst (conn_client s))" "\<not> jc_client_side (fst (conn_server s))"
  "jc_version (fst (conn_client s)) = VERSION" "jc_version (fst (conn_server s)) = VERSION"
  by (simp_all add: conn_client_def conn_server_def split: prod.splits)

lemma parity_new: "parity_ok (fst (conn_client s))" "parity_ok (fst (conn_server s))"
  by (simp_all add: parity_ok_def conn_new_simps)

section \<open>Handshake lemmas\<close>

lemma server_answer_ok:
  assumes "server_answer k agent session sid hello c = (Inr h, c')"
  shows "h = hello \<and> hello_validate hello = Inr () \<and> jc_version c' = min VERSION (he_max_version hello) \<and>
    MIN_VERSION \<le> jc_version c' \<and> he_min_version hello \<le> jc_version c' \<and>
    jc_peer_caps c' = he_capabilities hello \<and>
    (\<exists>bs. msg_encode k (PHelloAck (server_ack agent session hello)) = Inr bs \<and>
       tx (jc_stream c') = tx (jc_stream c) @ wire (frame_of (jc_version c') MT_HelloAck sid NONE bs))"
proof -
  let ?v = "min VERSION (he_max_version hello)"
  let ?c1 = "c\<lparr>jc_version := ?v, jc_peer_caps := he_capabilities hello\<rparr>"
  from assms have val: "hello_validate hello = Inr ()" and h: "h = hello"
    and v: "MIN_VERSION \<le> ?v" "he_min_version hello \<le> ?v"
    and run: "send k MT_HelloAck sid (PHelloAck (server_ack agent session hello)) NONE ?c1 = (Inr (), c')"
    by (auto simp: server_answer_def Let_def not_less elim!: abindE split: sum.splits if_splits)
  from run obtain bs where bs: "msg_encode k (PHelloAck (server_ack agent session hello)) = Inr bs"
    "tx (jc_stream c') = tx (jc_stream ?c1) @ wire (frame_of (jc_version ?c1) MT_HelloAck sid NONE bs)"
    and c': "c' = ?c1\<lparr>jc_stream := (jc_stream ?c1)\<lparr>tx := tx (jc_stream c'), tx_fault := tx_fault (jc_stream c')\<rparr>\<rparr>"
    by (rule sendE)
  have "jc_version c' = ?v" "jc_peer_caps c' = he_capabilities hello" by (subst c', simp)+
  then show ?thesis using val h v bs by simp
qed

lemma server_handshake_ok:
  assumes "rkyv_ok k" "server_handshake k agent session c = (Inr h, c')"
  obtains f c1 where "recv c = (Inr f, c1)" "frame_msg_type f = MT_Hello" "frame_decode k MT_Hello f = Inr (PHello h)"
    "server_answer k agent session (frame_stream_id f) h c1 = (Inr h, c')"
proof -
  from assms(2) [unfolded server_handshake_def] obtain f c1 where f: "recv c = (Inr f, c1)"
    and run: "(if frame_msg_type f \<noteq> MT_Hello then
       abind (send_error k (frame_stream_id f) code_BAD_REQUEST ''expected Hello as the first frame'') (\<lambda>_.
       athrow (Unexpected (frame_msg_type f)))
     else abind (alift (codec_err (frame_decode k MT_Hello f))) (\<lambda>p. case p of
         PHello hello \<Rightarrow> server_answer k agent session (frame_stream_id f) hello
       | _ \<Rightarrow> athrow (ConnCodec (CodecDecode '''')))) c1 = (Inr h, c')"
    by (auto elim!: abindE)
  then have t: "frame_msg_type f = MT_Hello" by (auto elim!: abindE split: if_splits)
  with run obtain p where p: "frame_decode k MT_Hello f = Inr p"
    and run': "(case p of PHello hello \<Rightarrow> server_answer k agent session (frame_stream_id f) hello
       | _ \<Rightarrow> athrow (ConnCodec (CodecDecode ''''))) c1 = (Inr h, c')"
    by (auto simp: codec_err_def elim!: abindE split: sum.splits)
  have "payload_type p = MT_Hello" using msg_decode_type [OF assms(1)] p by (simp add: frame_decode_def)
  then obtain hello where "p = PHello hello" by (cases p) auto
  then show ?thesis using that [OF f t] p run' server_answer_ok [of k agent session "frame_stream_id f" hello c1 h c'] by auto
qed

lemma ver_ok_VERSION: "ver_ok VERSION"
  by (simp add: ver_ok_def MIN_VERSION_def VERSION_def)

lemma client_hello_valid: "length agent \<le> MAX_AGENT_LEN \<Longrightarrow> hello_validate (client_hello agent) = Inr ()"
  by (simp add: hello_validate_def client_hello_def bounded_def MIN_VERSION_def VERSION_def not_less)

text \<open>Both halves of the handshake when the writes succeed and the encodings fit a frame.\<close>

lemma client_sends:
  assumes "msg_encode k (PHello (client_hello agent)) = Inr b1" "length b1 \<le> unat MAX_PAYLOAD"
    "tx_fault (jc_stream c) = []"
  shows "client_handshake k agent c =
    abind recv (client_answer k) (c\<lparr>jc_next_stream_id := jc_next_stream_id (snd (next_stream c)),
      jc_stream := (jc_stream c)\<lparr>tx := tx (jc_stream c) @
        wire (frame_of (jc_version c) MT_Hello (jc_next_stream_id c) NONE b1)\<rparr>\<rparr>)"
  using assms by (simp add: client_handshake_def alloc_stream_def next_stream_def abind_def send_run)

lemma server_acks:
  assumes "rkyv_ok k" "msg_encode k (PHello (client_hello agent)) = Inr b1" "length b1 \<le> unat MAX_PAYLOAD"
    "length agent \<le> MAX_AGENT_LEN" "ver_ok v"
    "msg_encode k (PHelloAck (server_ack srv session (client_hello agent))) = Inr b2" "length b2 \<le> unat MAX_PAYLOAD"
    "rx (jc_stream s) = wire (frame_of v MT_Hello sid NONE b1) @ rest" "tx_fault (jc_stream s) = []"
  shows "server_handshake k srv session s =
    (Inr (client_hello agent), s\<lparr>jc_version := VERSION, jc_peer_caps := caps_ALL,
       jc_stream := (jc_stream s)\<lparr>rx := rest, tx := tx (jc_stream s) @ wire (frame_of VERSION MT_HelloAck sid NONE b2)\<rparr>\<rparr>)"
proof -
  let ?f = "frame_of v MT_Hello sid NONE b1" and ?s1 = "s\<lparr>jc_stream := (jc_stream s)\<lparr>rx := rest\<rparr>\<rparr>"
  have 1: "recv s = (Inr ?f, ?s1)" by (rule recv_wire [OF frame_of_ok [OF assms(5,3)] assms(8)])
  have 2: "frame_msg_type ?f = MT_Hello" "frame_stream_id ?f = sid"
    by (simp_all add: frame_msg_type_def frame_stream_id_def frame_of_def)
  have 3: "frame_decode k MT_Hello ?f = Inr (PHello (client_hello agent))"
    using msg_decode_encode [OF assms(1,2)] by (simp add: frame_decode_def frame_of_def)
  have v: "min VERSION (he_max_version (client_hello agent)) = VERSION"
    "he_min_version (client_hello agent) = MIN_VERSION" "he_capabilities (client_hello agent) = caps_ALL"
    by (simp_all add: client_hello_def)
  have 4: "server_answer k srv session sid (client_hello agent) ?s1 =
     (Inr (client_hello agent), s\<lparr>jc_version := VERSION, jc_peer_caps := caps_ALL,
       jc_stream := (jc_stream s)\<lparr>rx := rest, tx := tx (jc_stream s) @ wire (frame_of VERSION MT_HelloAck sid NONE b2)\<rparr>\<rparr>)"
    using client_hello_valid [OF assms(4)] assms(6,7,9) v
    by (simp add: server_answer_def Let_def abind_def send_run MIN_VERSION_def VERSION_def)
  show ?thesis
    unfolding server_handshake_def using 1 2 3 4 by (simp add: abind_def codec_err_def)
qed

lemma client_accepts:
  assumes "rkyv_ok k" "msg_encode k (PHelloAck ack) = Inr b2" "length b2 \<le> unat MAX_PAYLOAD" "ver_ok (ha_version ack)"
    "ver_ok v" "rx (jc_stream c) = wire (frame_of v MT_HelloAck sid NONE b2) @ rest"
  shows "abind recv (client_answer k) c =
    (Inr ack, c\<lparr>jc_version := ha_version ack, jc_peer_caps := ha_capabilities ack,
       jc_stream := (jc_stream c)\<lparr>rx := rest\<rparr>\<rparr>)"
proof -
  let ?f = "frame_of v MT_HelloAck sid NONE b2"
  have 1: "recv c = (Inr ?f, c\<lparr>jc_stream := (jc_stream c)\<lparr>rx := rest\<rparr>\<rparr>)"
    by (rule recv_wire [OF frame_of_ok [OF assms(5,3)] assms(6)])
  have 2: "frame_msg_type ?f = MT_HelloAck" by (simp add: frame_msg_type_def frame_of_def)
  have 3: "frame_decode k MT_HelloAck ?f = Inr (PHelloAck ack)"
    using msg_decode_encode [OF assms(1,2)] by (simp add: frame_decode_def frame_of_def)
  show ?thesis
    using 1 2 3 assms(4) by (simp add: abind_def client_answer_def codec_err_def ver_ok_def not_less)
qed

section \<open>Properties\<close>

text \<open>C21: A run of messages arrives as it was sent: when one end sends any sequence of messages, of any types,
  streams and flags, and the other end reads the bytes that were written, it gets one frame per
  message, in order, with that type, stream and flags, and each payload decodes to the value that
  was sent. Bytes that follow do not matter.\<close>

theorem stream_never_desyncs:
  assumes "rkyv_ok k" "ver_ok (jc_version a)" "send_all k ms a = (Inr u, a')"
    and "tx (jc_stream a') = tx (jc_stream a) @ sent" "rx (jc_stream b) = sent @ rest"
  shows "list_all2 (\<lambda>f (t, sid, p, fl). frame_msg_type f = t \<and> frame_stream_id f = sid \<and>
      fh_flags (fr_header f) = fl \<and> frame_decode k (payload_type p) f = Inr p) (recv_n (length ms) b) ms"
proof -
  from send_all_wire [OF assms(3,2)] obtain fs where fs: "length fs = length ms" "list_all frame_ok fs"
    "tx (jc_stream a') = tx (jc_stream a) @ concat (map wire fs)"
    "list_all2 (\<lambda>f (t, sid, p, fl). msg_encode k p = Inr (fr_payload f) \<and>
        f = frame_of (jc_version a) t sid fl (fr_payload f)) fs ms" by blast
  have "recv_n (length fs) b = fs"
    unfolding recv_n_pulls using assms(4,5) fs(3) by (intro jrp.pulls_enc [OF fs(2)]) simp
  moreover have "frame_msg_type f = t \<and> frame_stream_id f = sid \<and> fh_flags (fr_header f) = fl \<and>
      frame_decode k (payload_type p) f = Inr p"
    if "msg_encode k p = Inr (fr_payload f)" "f = frame_of (jc_version a) t sid fl (fr_payload f)" for f t sid p fl
    using msg_decode_encode [OF assms(1) that(1)]
    by (subst (1 2 3) that(2)) (simp add: frame_of_def frame_msg_type_def frame_stream_id_def frame_decode_def)
  ultimately show ?thesis
    using fs(1,4) by (auto elim!: list_all2_mono)
qed

lemma same_more: "sock.more s = sock.more s' \<Longrightarrow> rx s = rx s' \<and> tx s = tx s' \<and> tx_fault s = tx_fault s'"
  for s s' :: TcpStream
  by (cases s; cases s') simp

definition example_stream :: "bytes \<Rightarrow> TcpStream" where
  "example_stream b = \<lparr>so_val = (\<lambda>_. None), so_refuse = (\<lambda>_ _. None), rx = b, rx_end = UnexpectedEof,
     tx = [], tx_fault = []\<rparr>"

lemma new_conn_stream [simp]:
  "rx (jc_stream (fst (conn_server (example_stream b)))) = b" "tx (jc_stream (fst (conn_server (example_stream b)))) = []"
  "rx (jc_stream (fst (conn_client (example_stream b)))) = b" "tx (jc_stream (fst (conn_client (example_stream b)))) = []"
  "tx_fault (jc_stream (fst (conn_client (example_stream b)))) = []"
  "tx_fault (jc_stream (fst (conn_server (example_stream b)))) = []"
  using same_more [OF tuning_apply_more [of tuning_control "example_stream b"]]
  by (simp_all add: conn_server_def conn_client_def case_prod_unfold example_stream_def)

definition example_out :: "outgoing list" where
  "example_out = [(MT_Ping, 1, PPing \<lparr>pi_nonce = 7\<rparr>, NONE), (MT_Auth, 3, PAuth \<lparr>au_token = ''t''\<rparr>, END_STREAM)]"

lemma example_out_sent: "is_ok (fst (send_all rkyv_ref example_out (fst (conn_client (example_stream [])))))"
  by code_simp

theorem stream_never_desyncs_witness:
  "case send_all rkyv_ref example_out (fst (conn_client (example_stream []))) of (r, a) \<Rightarrow>
     case recv_n 2 (fst (conn_server (example_stream (tx (jc_stream a) @ [9])))) of
       [f, g] \<Rightarrow> frame_msg_type f = MT_Ping \<and> frame_decode rkyv_ref MT_Auth g = Inr (PAuth \<lparr>au_token = ''t''\<rparr>)
     | _ \<Rightarrow> False"
proof -
  let ?a = "fst (conn_client (example_stream []))"
  obtain u a where u: "send_all rkyv_ref example_out ?a = (Inr u, a)"
    using example_out_sent by (auto simp: is_ok_iff) (metis prod.collapse)
  let ?b = "fst (conn_server (example_stream (tx (jc_stream a) @ [9])))"
  have v: "ver_ok (jc_version ?a)" using ver_ok_VERSION by (simp add: conn_new_simps)
  have two: "length example_out = 2" by (simp add: example_out_def)
  have "list_all2 (\<lambda>f (t, sid, p, fl). frame_msg_type f = t \<and> frame_stream_id f = sid \<and>
      fh_flags (fr_header f) = fl \<and> frame_decode rkyv_ref (payload_type p) f = Inr p) (recv_n 2 ?b) example_out"
    using stream_never_desyncs [OF rkyv_ref_ok v u, of "tx (jc_stream a)" ?b "[9]"] two by simp
  then show ?thesis
    unfolding u prod.case by (auto simp: example_out_def list_all2_Cons2)
qed

text \<open>C36: Reading a frame from arbitrary bytes: nothing is written and nothing of the connection but its input
  changes; a frame that is returned has a known type, a supported version and a payload of at
  most 8 MiB, and exactly its bytes were consumed.\<close>

theorem recv_is_bounded:
  assumes "recv c = (r, c')"
  shows "tx (jc_stream c') = tx (jc_stream c) \<and> jc_version c' = jc_version c \<and> jc_peer_caps c' = jc_peer_caps c \<and>
    jc_next_stream_id c' = jc_next_stream_id c \<and>
    (\<forall>f. r = Inr f \<longrightarrow> rx (jc_stream c) = wire f @ rx (jc_stream c') \<and> length (fr_payload f) \<le> 8388608 \<and>
       length (wire f) = 16 + length (fr_payload f) \<and> header_ok (fr_header f))"
proof -
  have "tx (jc_stream c') = tx (jc_stream c) \<and> jc_version c' = jc_version c \<and> jc_peer_caps c' = jc_peer_caps c \<and>
    jc_next_stream_id c' = jc_next_stream_id c"
    using assms unfolding recv_def
    by (auto simp: read_exact_def elim!: abindE on_streamE split: if_splits)
  moreover have "rx (jc_stream c) = wire f @ rx (jc_stream c') \<and> length (fr_payload f) \<le> 8388608 \<and>
       length (wire f) = 16 + length (fr_payload f) \<and> header_ok (fr_header f)" if "r = Inr f" for f
  proof -
    note S = recv_sound [OF assms [unfolded that]]
    then have "unat (fh_payload_len (fr_header f)) \<le> unat MAX_PAYLOAD"
      by (simp add: frame_ok_def header_ok_def word_le_nat_alt)
    then show ?thesis using S by (simp add: frame_ok_def unat_MAX_PAYLOAD wire_def HEADER_LEN_def)
  qed
  ultimately show ?thesis by blast
qed

theorem recv_is_bounded_witness:
  "case recv (fst (conn_server (example_stream (replicate 16 255)))) of (r, c) \<Rightarrow>
     r = Inl (ConnFrame (BadMagic [255, 255])) \<and> tx (jc_stream c) = []"
proof -
  let ?c = "fst (conn_server (example_stream (replicate 16 255)))"
  obtain r c' where run: "recv ?c = (r, c')" by (cases "recv ?c")
  have "fst (recv ?c) = Inl (ConnFrame (BadMagic [255, 255]))" by code_simp
  then show ?thesis using recv_is_bounded [OF run] run by simp
qed

text \<open>C4: Version negotiation, against any peer: the server's handshake succeeds only after a valid \<open>Hello\<close>,
  and then the version is one both ends speak, the highest such version, it is the version of
  the acknowledgement and the one stamped on it, and the acknowledgement claims exactly the
  capabilities both ends have.\<close>

theorem server_negotiates_best_version:
  assumes "rkyv_ok k" "server_handshake k agent session c = (Inr hello, c')"
  shows "hello_validate hello = Inr () \<and>
    ver_ok (jc_version c') \<and> he_min_version hello \<le> jc_version c' \<and> jc_version c' \<le> he_max_version hello \<and>
    (\<forall>v. ver_ok v \<and> he_min_version hello \<le> v \<and> v \<le> he_max_version hello \<longrightarrow> v \<le> jc_version c') \<and>
    (\<exists>sid bs. tx (jc_stream c') = tx (jc_stream c) @ wire (frame_of (jc_version c') MT_HelloAck sid NONE bs) \<and>
       msg_decode k MT_HelloAck bs = Inr (PHelloAck \<lparr>ha_agent = agent, ha_version = jc_version c',
         ha_capabilities = caps_ALL AND he_capabilities hello, ha_session = session\<rparr>))"
proof -
  obtain f c1 where f: "recv c = (Inr f, c1)" and
    a: "server_answer k agent session (frame_stream_id f) hello c1 = (Inr hello, c')"
    by (rule server_handshake_ok [OF assms])
  note S = server_answer_ok [OF a]
  then obtain bs where bs: "msg_encode k (PHelloAck (server_ack agent session hello)) = Inr bs"
    "tx (jc_stream c') = tx (jc_stream c1) @ wire (frame_of (jc_version c') MT_HelloAck (frame_stream_id f) NONE bs)"
    by blast
  have v: "jc_version c' = min VERSION (he_max_version hello)" using S by blast
  have tx1: "tx (jc_stream c1) = tx (jc_stream c)" by (subst conjunct2 [OF conjunct2 [OF recv_sound [OF f]]]) simp
  have "msg_decode k MT_HelloAck bs = Inr (PHelloAck (server_ack agent session hello))"
    using msg_decode_encode [OF assms(1) bs(1)] by simp
  then have "\<exists>sid bs. tx (jc_stream c') = tx (jc_stream c) @ wire (frame_of (jc_version c') MT_HelloAck sid NONE bs) \<and>
       msg_decode k MT_HelloAck bs = Inr (PHelloAck \<lparr>ha_agent = agent, ha_version = jc_version c',
         ha_capabilities = caps_ALL AND he_capabilities hello, ha_session = session\<rparr>)"
    using bs(2) tx1 v unfolding server_ack_def by metis
  then show ?thesis using S v by (auto simp: ver_ok_def)
qed

text \<open>The handshake of the two halves on concrete streams.\<close>

definition example_hello_bytes :: bytes where
  "example_hello_bytes = tx (jc_stream (snd (client_handshake rkyv_ref ''cli'' (fst (conn_client (example_stream []))))))"

lemma example_server_ok:
  "is_ok (fst (server_handshake rkyv_ref ''srv'' ''s1'' (fst (conn_server (example_stream example_hello_bytes)))))"
  by code_simp

theorem server_negotiates_best_version_witness:
  "\<exists>hello c'. server_handshake rkyv_ref ''srv'' ''s1'' (fst (conn_server (example_stream example_hello_bytes))) =
     (Inr hello, c') \<and> ver_ok (jc_version c')"
proof -
  obtain hello c' where run:
    "server_handshake rkyv_ref ''srv'' ''s1'' (fst (conn_server (example_stream example_hello_bytes))) = (Inr hello, c')"
    using example_server_ok by (auto simp: is_ok_iff) (metis prod.collapse)
  then show ?thesis using server_negotiates_best_version [OF rkyv_ref_ok run] by blast
qed

text \<open>The two halves of the handshake meet: when the server reads what the client wrote, the client reads
  what the server answered, the writes succeed and the two encodings fit a frame, both sides
  complete, with the same version, each having learned the other's capabilities, and the client
  has the session the server named.\<close>

theorem handshake_completes:
  assumes "rkyv_ok k" "length agent \<le> MAX_AGENT_LEN"
    and "msg_encode k (PHello (client_hello agent)) = Inr b1" "length b1 \<le> unat MAX_PAYLOAD"
    and "msg_encode k (PHelloAck (server_ack srv session (client_hello agent))) = Inr b2" "length b2 \<le> unat MAX_PAYLOAD"
    and "tx_fault (jc_stream c) = []" "tx_fault (jc_stream s) = []" "jc_version c = VERSION"
    and "rx (jc_stream s) = wire (frame_of VERSION MT_Hello (jc_next_stream_id c) NONE b1) @ sr"
    and "rx (jc_stream c) = wire (frame_of VERSION MT_HelloAck (jc_next_stream_id c) NONE b2) @ cr"
  shows "\<exists>ack c' s'. client_handshake k agent c = (Inr ack, c') \<and>
    server_handshake k srv session s = (Inr (client_hello agent), s') \<and>
    tx (jc_stream c') = tx (jc_stream c) @ wire (frame_of VERSION MT_Hello (jc_next_stream_id c) NONE b1) \<and>
    tx (jc_stream s') = tx (jc_stream s) @ wire (frame_of VERSION MT_HelloAck (jc_next_stream_id c) NONE b2) \<and>
    jc_version c' = jc_version s' \<and> ha_session ack = session \<and>
    jc_peer_caps c' = caps_ALL \<and> jc_peer_caps s' = caps_ALL"
proof -
  let ?ack = "server_ack srv session (client_hello agent)"
  have ack: "ha_version ?ack = VERSION" "ha_capabilities ?ack = caps_ALL" "ha_session ?ack = session"
    by (simp_all add: server_ack_def client_hello_def)
  note S = server_acks [OF assms(1,3,4,2) ver_ok_VERSION assms(5,6,10,8)]
  note C = client_sends [OF assms(3,4,7), unfolded assms(9)]
  show ?thesis
    unfolding S C using ack assms(9,11)
    by (subst client_accepts [OF assms(1,5,6)]) (auto simp: ver_ok_VERSION)
qed

theorem handshake_completes_witness:
  "\<exists>b1 b2 ack c' s'.
     client_handshake rkyv_ref ''cli'' (fst (conn_client (example_stream (wire (frame_of VERSION MT_HelloAck 1 NONE b2))))) = (Inr ack, c') \<and>
     server_handshake rkyv_ref ''srv'' ''s1'' (fst (conn_server (example_stream (wire (frame_of VERSION MT_Hello 1 NONE b1))))) =
       (Inr (client_hello ''cli''), s') \<and>
     tx (jc_stream c') = wire (frame_of VERSION MT_Hello 1 NONE b1) \<and>
     tx (jc_stream s') = wire (frame_of VERSION MT_HelloAck 1 NONE b2) \<and>
     jc_version c' = jc_version s' \<and> ha_session ack = ''s1''"
proof -
  let ?b1 = "projr (msg_encode rkyv_ref (PHello (client_hello ''cli'')))"
  let ?b2 = "projr (msg_encode rkyv_ref (PHelloAck (server_ack ''srv'' ''s1'' (client_hello ''cli''))))"
  have enc: "msg_encode rkyv_ref (PHello (client_hello ''cli'')) = Inr ?b1"
    "msg_encode rkyv_ref (PHelloAck (server_ack ''srv'' ''s1'' (client_hello ''cli''))) = Inr ?b2"
    by code_simp+
  have "length ?b1 < 100" "length ?b2 < 100" by code_simp+
  then have len: "length ?b1 \<le> unat MAX_PAYLOAD" "length ?b2 \<le> unat MAX_PAYLOAD" by (simp_all add: unat_MAX_PAYLOAD)
  have agent: "length ''cli'' \<le> MAX_AGENT_LEN" by (simp add: MAX_AGENT_LEN_def)
  show ?thesis
    using handshake_completes [OF rkyv_ref_ok agent enc(1) len(1) enc(2) len(2),
        of "fst (conn_client (example_stream (wire (frame_of VERSION MT_HelloAck 1 NONE ?b2))))"
           "fst (conn_server (example_stream (wire (frame_of VERSION MT_Hello 1 NONE ?b1))))" "[]" "[]"]
    by (simp add: conn_new_simps) blast
qed

text \<open>Stream identifiers: a client allocates odd identifiers, a server even ones, never zero, also after the
  counter has wrapped, so the two ends of a connection never allocate the same identifier; and
  the first 2147483647 identifiers of a connection are pairwise distinct.\<close>

theorem stream_ids_disjoint_and_fresh:
  "list_all (\<lambda>i. i \<noteq> 0 \<and> odd (unat i)) (alloc_ids m (fst (conn_client s))) \<and>
   list_all (\<lambda>i. i \<noteq> 0 \<and> even (unat i)) (alloc_ids n (fst (conn_server s'))) \<and>
   set (alloc_ids m (fst (conn_client s))) \<inter> set (alloc_ids n (fst (conn_server s'))) = {} \<and>
   distinct (alloc_ids 2147483647 (fst (conn_client s))) \<and> distinct (alloc_ids 2147483647 (fst (conn_server s')))"
proof -
  have c: "list_all (\<lambda>i. i \<noteq> 0 \<and> odd (unat i)) (alloc_ids m (fst (conn_client s)))"
    using alloc_ids_parity [OF parity_new(1)] by (simp add: conn_new_simps)
  have v: "list_all (\<lambda>i. i \<noteq> 0 \<and> even (unat i)) (alloc_ids n (fst (conn_server s')))"
    using alloc_ids_parity [OF parity_new(2)] by (simp add: conn_new_simps)
  have inj: "distinct (map (\<lambda>i. b + of_nat (2 * i) :: 32 word) [0..<2147483647])" for b
    unfolding distinct_map
  proof (intro conjI inj_onI)
    fix i j assume "i \<in> set [0..<2147483647]" "j \<in> set [0..<2147483647]" "b + of_nat (2 * i) = b + (of_nat (2 * j) :: 32 word)"
    then have eq: "of_nat (2 * i) = (of_nat (2 * j) :: 32 word)" and lt: "2 * i < 2 ^ 32" "2 * j < 2 ^ 32"
      by simp_all
    have u: "unat (of_nat k :: 32 word) = k" if "k < 2 ^ 32" for k
      using that by (simp add: unat_of_nat take_bit_eq_mod)
    from arg_cong [OF eq, of unat] have "2 * i = 2 * j" unfolding u [OF lt(1)] u [OF lt(2)] .
    then show "i = j" by simp
  qed simp
  have d: "distinct (alloc_ids 2147483647 x)" if "parity_ok x" "unat (jc_next_stream_id x) \<le> 2" for x
    using that(2) by (subst alloc_ids_closed [OF that(1)]) (simp, rule inj)
  have "distinct (alloc_ids 2147483647 (fst (conn_client s)))"
    "distinct (alloc_ids 2147483647 (fst (conn_server s')))"
    by (rule d [OF parity_new(1)], simp add: conn_new_simps) (rule d [OF parity_new(2)], simp add: conn_new_simps)
  then show ?thesis using c v unfolding list_all_iff by blast
qed

text \<open>Printing a frame for a log reveals nothing of its payload but the length.\<close>

theorem frame_debug_hides_payload:
  assumes "fr_header f = fr_header g" "length (fr_payload f) = length (fr_payload g)"
  shows "frame_debug f = frame_debug g"
  using assms by (simp add: frame_debug_def frame_msg_type_def frame_stream_id_def)

theorem frame_debug_hides_payload_witness:
  "frame_debug (frame_of 1 MT_Auth 1 NONE (bytes_of ''token-a'')) = frame_debug (frame_of 1 MT_Auth 1 NONE (bytes_of ''token-b''))"
  by (rule frame_debug_hides_payload) (simp_all add: frame_of_def)

end
