(* ===== verification/Jet_Verify.thy ===== *)
theory Jet_Verify
  imports Jet_Digest
begin

text \<open>
  Authentication of webhook deliveries (\<open>crates/jet-server/src/webhook/verify.rs\<close>, and \<open>Provider\<close> of
  \<open>webhook/mod.rs\<close>). The \<open>hmac\<close>/\<open>sha2\<close> and \<open>hex\<close> crates are parameters; \<open>subtle::ct_eq\<close> on slices is
  equality. Headers are a lookup function, with the two implementations the sources have.
\<close>

section \<open>Providers\<close>

datatype Provider = GitHub | GitLab | Bitbucket

fun provider_as_str :: "Provider \<Rightarrow> string" where
  "provider_as_str GitHub = ''github''"
| "provider_as_str GitLab = ''gitlab''"
| "provider_as_str Bitbucket = ''bitbucket''"

fun event_header :: "Provider \<Rightarrow> string" where
  "event_header GitHub = ''x-github-event''"
| "event_header GitLab = ''x-gitlab-event''"
| "event_header Bitbucket = ''x-event-key''"

fun delivery_header :: "Provider \<Rightarrow> string" where
  "delivery_header GitHub = ''x-github-delivery''"
| "delivery_header GitLab = ''x-gitlab-event-uuid''"
| "delivery_header Bitbucket = ''x-request-uuid''"

section \<open>Header lookup\<close>

type_synonym headers = "string \<Rightarrow> string option"

definition eq_ignore_ascii_case :: "string \<Rightarrow> string \<Rightarrow> bool" where
  "eq_ignore_ascii_case a b \<longleftrightarrow> to_ascii_lowercase a = to_ascii_lowercase b"

definition hashmap_lookup :: "(string \<times> string) list \<Rightarrow> headers" where
  "hashmap_lookup m name = map_option snd (find (\<lambda>(k, v). eq_ignore_ascii_case k name) m)"

section \<open>The hmac crate\<close>

record 'm hmac_crate =
  hmac_new :: "bytes \<Rightarrow> 'm option"
  hmac_update :: "'m \<Rightarrow> bytes \<Rightarrow> 'm"
  hmac_finalize :: "'m \<Rightarrow> bytes"

text \<open>Every key length is accepted and a tag has 32 bytes.\<close>

definition hmac_ok :: "'m hmac_crate \<Rightarrow> bool" where
  "hmac_ok m \<longleftrightarrow> (\<forall>k. hmac_new m k \<noteq> None) \<and> (\<forall>s. length (hmac_finalize m s) = 32)"

definition mac :: "'m hmac_crate \<Rightarrow> bytes \<Rightarrow> bytes \<Rightarrow> bytes" where
  "mac m key body = hmac_finalize m (hmac_update m (the (hmac_new m key)) body)"

text \<open>An instance: the bytes of key and body folded into 32.\<close>

definition hmac_ref :: "bytes hmac_crate" where
  "hmac_ref = \<lparr>hmac_new = Some, hmac_update = (@), hmac_finalize = pad32\<rparr>"

lemma hmac_ref_ok: "hmac_ok hmac_ref"
  by (simp add: hmac_ok_def hmac_ref_def)

section \<open>Verification\<close>

definition GITHUB_SIG_256 :: string where "GITHUB_SIG_256 = ''x-hub-signature-256''"
definition GITHUB_SIG_LEGACY :: string where "GITHUB_SIG_LEGACY = ''x-hub-signature''"
definition BITBUCKET_SIG :: string where "BITBUCKET_SIG = ''x-hub-signature''"
definition GITLAB_TOKEN :: string where "GITLAB_TOKEN = ''x-gitlab-token''"

record Verified =
  body_authenticated :: bool

datatype VerifyError =
    NoSecretConfigured Provider
  | VerifyMissingHeader string
  | MalformedSignature
  | LegacySha1Refused
  | SignatureMismatch

definition verify_hmac_sha256 ::
  "hex_crate \<Rightarrow> 'm hmac_crate \<Rightarrow> string \<Rightarrow> bytes \<Rightarrow> bytes \<Rightarrow> VerifyError + Verified" where
  "verify_hmac_sha256 h m header body secret =
     rbind (ok_or (strip_prefix ''sha256='' header) MalformedSignature) (\<lambda>hex_part.
     if length hex_part \<noteq> 64 then Inl MalformedSignature
     else
       rbind (ok_or (hex_decode_to_slice h hex_part 32) MalformedSignature) (\<lambda>expected.
       rbind (ok_or (hmac_new m secret) MalformedSignature) (\<lambda>mac0.
       let actual = hmac_finalize m (hmac_update m mac0 body) in
       if actual = expected then Inr \<lparr>body_authenticated = True\<rparr> else Inl SignatureMismatch)))"

definition verify ::
  "hex_crate \<Rightarrow> 'm hmac_crate \<Rightarrow> Provider \<Rightarrow> headers \<Rightarrow> bytes \<Rightarrow> bytes option \<Rightarrow> VerifyError + Verified" where
  "verify h m provider hdr body secret_opt =
     rbind (ok_or secret_opt (NoSecretConfigured provider)) (\<lambda>secret.
     if secret = [] then Inl (NoSecretConfigured provider)
     else
       (case provider of
          GitHub \<Rightarrow>
            (case hdr GITHUB_SIG_256 of
               Some sig \<Rightarrow> verify_hmac_sha256 h m sig body secret
             | None \<Rightarrow> if hdr GITHUB_SIG_LEGACY \<noteq> None then Inl LegacySha1Refused
                       else Inl (VerifyMissingHeader GITHUB_SIG_256))
        | Bitbucket \<Rightarrow>
            rbind (ok_or (hdr BITBUCKET_SIG) (VerifyMissingHeader BITBUCKET_SIG)) (\<lambda>sig.
            verify_hmac_sha256 h m sig body secret)
        | GitLab \<Rightarrow>
            rbind (ok_or (hdr GITLAB_TOKEN) (VerifyMissingHeader GITLAB_TOKEN)) (\<lambda>token.
            if bytes_of token = secret then Inr \<lparr>body_authenticated = False\<rparr> else Inl SignatureMismatch)))"

text \<open>The \<open>expect\<close> panics, here \<open>None\<close>, if the key is refused.\<close>

definition sign_hmac_sha256 :: "hex_crate \<Rightarrow> 'm hmac_crate \<Rightarrow> bytes \<Rightarrow> bytes \<Rightarrow> string option" where
  "sign_hmac_sha256 h m body secret =
     map_option (\<lambda>mac0. ''sha256='' @ hex_encode h (hmac_finalize m (hmac_update m mac0 body))) (hmac_new m secret)"

section \<open>Lemmas\<close>

fun sig_header :: "Provider \<Rightarrow> string" where
  "sig_header GitHub = GITHUB_SIG_256"
| "sig_header Bitbucket = BITBUCKET_SIG"
| "sig_header GitLab = GITLAB_TOKEN"

lemma verify_hmac_Inr:
  assumes "hmac_ok m"
  shows "verify_hmac_sha256 h m header body secret = Inr v \<longleftrightarrow>
    v = \<lparr>body_authenticated = True\<rparr> \<and>
    (\<exists>hx. header = ''sha256='' @ hx \<and> length hx = 64 \<and> hex_decode_to_slice h hx 32 = Some (mac m secret body))"
proof -
  obtain m0 where m0: "hmac_new m secret = Some m0" using assms by (auto simp: hmac_ok_def)
  show ?thesis
    by (auto simp: verify_hmac_sha256_def jet_simps Let_def mac_def m0 split: if_splits)
qed

lemma verify_Inr:
  assumes "hmac_ok m"
  shows "verify h m p hdr body sec = Inr v \<longleftrightarrow>
    (\<exists>s t. sec = Some s \<and> s \<noteq> [] \<and> hdr (sig_header p) = Some t \<and> v = \<lparr>body_authenticated = (p \<noteq> GitLab)\<rparr> \<and>
       (if p = GitLab then bytes_of t = s
        else \<exists>hx. t = ''sha256='' @ hx \<and> length hx = 64 \<and> hex_decode_to_slice h hx 32 = Some (mac m s body)))"
proof (cases "sec = None \<or> sec = Some []")
  case True
  then show ?thesis by (auto simp: verify_def)
next
  case False
  then obtain s where s: "sec = Some s" "s \<noteq> []" by (cases sec) auto
  show ?thesis
  proof (cases "hdr (sig_header p)")
    case None
    then show ?thesis using s by (cases p) (simp_all add: verify_def)
  next
    case (Some t)
    then have "verify h m p hdr body sec = (if p = GitLab
        then (if bytes_of t = s then Inr \<lparr>body_authenticated = False\<rparr> else Inl SignatureMismatch)
        else verify_hmac_sha256 h m t body s)"
      using s by (cases p) (simp_all add: verify_def)
    then show ?thesis using s Some by (simp add: verify_hmac_Inr [OF assms]) blast
  qed
qed

lemma sign_Some:
  assumes "hmac_ok m"
  shows "sign_hmac_sha256 h m body s = Some (''sha256='' @ hex_encode h (mac m s body))"
proof -
  obtain m0 where m0: "hmac_new m s = Some m0" using assms by (auto simp: hmac_ok_def)
  then show ?thesis by (simp add: sign_hmac_sha256_def mac_def)
qed

section \<open>Properties\<close>

text \<open>Verification fails closed: a delivery is accepted only with a configured, non-empty secret and the
  header of its own provider, which for GitHub and Bitbucket is \<open>sha256=\<close> and 64 digits of the
  HMAC-SHA256 of exactly the received bytes, and for GitLab the secret itself. The result
  claims an authenticated body exactly when the body was authenticated.\<close>

theorem verify_exact:
  assumes "hmac_ok m"
  shows "verify h m p hdr body sec = Inr v \<longleftrightarrow>
    (\<exists>s t. sec = Some s \<and> s \<noteq> [] \<and> hdr (sig_header p) = Some t \<and> v = \<lparr>body_authenticated = (p \<noteq> GitLab)\<rparr> \<and>
       (if p = GitLab then bytes_of t = s
        else \<exists>hx. t = ''sha256='' @ hx \<and> length hx = 64 \<and> hex_decode_to_slice h hx 32 = Some (mac m s body)))"
  by (rule verify_Inr [OF assms])

theorem verify_exact_witness:
  "verify hex_ref hmac_ref GitLab (hashmap_lookup [(''X-Gitlab-Token'', ''s3'')]) [1] (Some (bytes_of ''s3''))
     = Inr \<lparr>body_authenticated = False\<rparr>"
proof -
  have hd: "hashmap_lookup [(''X-Gitlab-Token'', ''s3'')] GITLAB_TOKEN = Some ''s3''" by code_simp
  have "bytes_of ''s3'' \<noteq> []" by code_simp
  then show ?thesis
    using hd unfolding verify_exact [OF hmac_ref_ok] by simp
qed

text \<open>A signature binds the body and the key: a header computed by \<open>sign_hmac_sha256\<close> for one body and
  secret is accepted for another body and secret exactly when the two HMAC tags are equal; in
  particular what is signed is accepted.\<close>

theorem signature_binds_body:
  assumes "hex_ok h" "hmac_ok m" "p \<noteq> GitLab" "hdr (sig_header p) = sign_hmac_sha256 h m body0 s0"
  shows "is_ok (verify h m p hdr body (Some s)) \<longleftrightarrow> s \<noteq> [] \<and> mac m s body = mac m s0 body0"
proof -
  have len: "length (mac m s0 body0) = 32" using assms(2) by (simp add: mac_def hmac_ok_def)
  have hx: "length (hex_encode h (mac m s0 body0)) = 64" using hex_okD(4) [OF assms(1)] len by simp
  have dec: "hex_decode_to_slice h (hex_encode h (mac m s0 body0)) 32 = Some (mac m s0 body0)"
    using hex_okD(2) [OF assms(1), of "mac m s0 body0"] len by simp
  show ?thesis
    unfolding is_ok_iff verify_Inr [OF assms(2)] using assms(3,4) hx dec
    by (auto simp: sign_Some [OF assms(2)])
qed

theorem signature_binds_body_witness:
  "is_ok (verify hex_ref hmac_ref GitHub (\<lambda>_. sign_hmac_sha256 hex_ref hmac_ref [1, 2] [9]) [1, 2] (Some [9])) \<and>
   \<not> is_ok (verify hex_ref hmac_ref GitHub (\<lambda>_. sign_hmac_sha256 hex_ref hmac_ref [1, 2] [9]) [1, 3] (Some [9]))"
proof -
  have "mac hmac_ref [9] [1, 3] \<noteq> mac hmac_ref [9] [1, 2]" by code_simp
  moreover have "[9] \<noteq> ([] :: bytes)" by simp
  ultimately show ?thesis
    using signature_binds_body [OF hex_ref_ok hmac_ref_ok, where p = GitHub and s = "[9]" and s0 = "[9]" and ?body0.0 = "[1, 2]"
        and hdr = "\<lambda>_. sign_hmac_sha256 hex_ref hmac_ref [1, 2] [9]"]
    by simp
qed

end
