(* ===== verification/Jet_Webhook.thy ===== *)
theory Jet_Webhook
  imports Jet_Verify
begin

text \<open>
  Parsing and normalization of webhook payloads (\<open>crates/jet-server/src/webhook/mod.rs\<close>). The parser
  of the \<open>serde_json\<close> crate is a parameter from bytes to JSON values; everything below works on values.
\<close>

section \<open>JSON values\<close>

datatype json =
    JNull | JBool bool | JU64 "64 word" | JNumber string | JString string
  | JArray "json list" | JObject "(string \<times> json) list"

text \<open>\<open>Value::get\<close> with a string key, \<open>as_str\<close>, \<open>as_u64\<close>, \<open>as_array\<close>.\<close>

fun json_get :: "json \<Rightarrow> string \<Rightarrow> json option" where
  "json_get (JObject m) k = map_of m k"
| "json_get _ _ = None"

fun as_str :: "json \<Rightarrow> string option" where
  "as_str (JString x) = Some x"
| "as_str _ = None"

fun as_u64 :: "json \<Rightarrow> 64 word option" where
  "as_u64 (JU64 n) = Some n"
| "as_u64 _ = None"

fun as_array :: "json \<Rightarrow> json list option" where
  "as_array (JArray xs) = Some xs"
| "as_array _ = None"

primrec json_path :: "json \<Rightarrow> string list \<Rightarrow> json option" where
  "json_path v [] = Some v"
| "json_path v (p # ps) = Option.bind (json_get v p) (\<lambda>c. json_path c ps)"

definition js :: "json \<Rightarrow> string list \<Rightarrow> string option" where
  "js v path = Option.bind (json_path v path) as_str"

definition ju :: "json \<Rightarrow> string list \<Rightarrow> 64 word option" where
  "ju v path = Option.bind (json_path v path) as_u64"

section \<open>Events\<close>

definition MAX_BODY_BYTES :: nat where "MAX_BODY_BYTES = 2 * 2 ^ 20"

datatype EventKind =
    Push string
  | Tag string
  | PullRequest "64 word" string string "string option"
  | PingEvent
  | Ignored string

record TriggerEvent =
  te_provider :: Provider
  te_delivery_id :: "string option"
  te_kind :: EventKind
  te_repo :: string
  te_commit_sha :: "string option"
  te_reference :: "string option"
  te_actor :: "string option"
  te_body_authenticated :: bool

fun kind_triggers :: "EventKind \<Rightarrow> bool" where
  "kind_triggers (Push _) \<longleftrightarrow> True"
| "kind_triggers (Tag _) \<longleftrightarrow> True"
| "kind_triggers (PullRequest _ action _ _) \<longleftrightarrow>
     action \<in> set [''opened'', ''reopened'', ''synchronize'', ''updated'']"
| "kind_triggers PingEvent \<longleftrightarrow> False"
| "kind_triggers (Ignored _) \<longleftrightarrow> False"

definition should_trigger :: "TriggerEvent \<Rightarrow> bool" where
  "should_trigger e \<longleftrightarrow> kind_triggers (te_kind e)"

datatype WebhookError =
    WhVerify VerifyError
  | BodyTooLarge
  | WhMissingHeader string
  | BadJson string
  | MissingField string
  | Replay string

type_synonym Parsed = "EventKind \<times> string \<times> string option \<times> string option \<times> string option"

section \<open>Provider parsers\<close>

definition short_ref :: "string \<Rightarrow> string" where
  "short_ref r =
     unwrap_or (or_else (strip_prefix ''refs/heads/'' r) (strip_prefix ''refs/tags/'' r)) r"

definition github :: "string \<Rightarrow> json \<Rightarrow> WebhookError + Parsed" where
  "github event j =
     (let repo = unwrap_or (js j [''repository'', ''full_name'']) '''' in
      if event = ''ping'' then Inr (PingEvent, repo, None, None, None)
      else if event = ''push'' then
        rbind (ok_or (js j [''ref'']) (MissingField ''ref'')) (\<lambda>reference.
        let kind = (if starts_with ''refs/tags/'' reference then Tag (short_ref reference)
                    else Push (short_ref reference))
        in Inr (kind, repo, js j [''after''], Some reference, js j [''pusher'', ''name'']))
      else if event = ''pull_request'' then
        (let action = unwrap_or (js j [''action'']) '''' in
         Inr (PullRequest (unwrap_or (or_else (ju j [''number'']) (ju j [''pull_request'', ''number''])) 0)
                action
                (unwrap_or (js j [''pull_request'', ''head'', ''ref'']) '''')
                (js j [''pull_request'', ''base'', ''ref'']),
              repo, js j [''pull_request'', ''head'', ''sha''], None, js j [''sender'', ''login'']))
      else Inr (Ignored event, repo, None, None, None))"

fun gitlab_action :: "string \<Rightarrow> string" where
  "gitlab_action raw =
     (if raw = ''open'' then ''opened''
      else if raw = ''reopen'' then ''reopened''
      else if raw = ''update'' then ''synchronize''
      else raw)"

definition gitlab :: "string \<Rightarrow> json \<Rightarrow> WebhookError + Parsed" where
  "gitlab event j =
     (let repo = unwrap_or (js j [''project'', ''path_with_namespace'']) '''';
          actor = or_else (js j [''user_username'']) (js j [''user'', ''username'']) in
      if event = ''Push Hook'' then
        rbind (ok_or (js j [''ref'']) (MissingField ''ref'')) (\<lambda>reference.
        Inr (Push (short_ref reference), repo,
             or_else (js j [''checkout_sha'']) (js j [''after'']), Some reference, actor))
      else if event = ''Tag Push Hook'' then
        rbind (ok_or (js j [''ref'']) (MissingField ''ref'')) (\<lambda>reference.
        Inr (Tag (short_ref reference), repo,
             or_else (js j [''checkout_sha'']) (js j [''after'']), Some reference, actor))
      else if event = ''Merge Request Hook'' then
        (let action = gitlab_action (unwrap_or (js j [''object_attributes'', ''action'']) '''') in
         Inr (PullRequest (unwrap_or (ju j [''object_attributes'', ''iid'']) 0)
                action
                (unwrap_or (js j [''object_attributes'', ''source_branch'']) '''')
                (js j [''object_attributes'', ''target_branch'']),
              repo, js j [''object_attributes'', ''last_commit'', ''id''], None, actor))
      else Inr (Ignored event, repo, None, None, None))"

text \<open>\<open>trim_start_matches\<close> removes the prefix as often as it occurs.\<close>

function trim_start_matches :: "string \<Rightarrow> string \<Rightarrow> string" where
  "trim_start_matches p s =
     (case strip_prefix p s of
        Some r \<Rightarrow> if p = '''' then s else trim_start_matches p r
      | None \<Rightarrow> s)"
  by pat_completeness auto
termination
  by (relation "measure (\<lambda>(p, s). length s)") (auto simp: jet_simps)

declare trim_start_matches.simps [simp del]

definition bitbucket_action :: "string \<Rightarrow> string" where
  "bitbucket_action e =
     (if e = ''pullrequest:created'' then ''opened''
      else if e = ''pullrequest:updated'' then ''synchronize''
      else trim_start_matches ''pullrequest:'' e)"

text \<open>The first change of a push, when its \<open>new\<close> is present.\<close>

definition bitbucket_change :: "string \<Rightarrow> string option \<Rightarrow> json \<Rightarrow> Parsed" where
  "bitbucket_change repo actor nw =
     (let name = unwrap_or (js nw [''name'']) '''';
          sha = js nw [''target'', ''hash''];
          kind = (if js nw [''type''] = Some ''tag'' then Tag name else Push name);
          reference = (case kind of Tag _ \<Rightarrow> Some (''refs/tags/'' @ name) | _ \<Rightarrow> Some (''refs/heads/'' @ name))
      in (kind, repo, sha, reference, actor))"

definition first_change :: "json \<Rightarrow> json option" where
  "first_change j =
     Option.bind (json_get j ''push'') (\<lambda>p.
     Option.bind (json_get p ''changes'') (\<lambda>c.
     Option.bind (as_array c) (\<lambda>a.
     case a of [] \<Rightarrow> None | x # _ \<Rightarrow> Some x)))"

text \<open>\<open>Some(Value::Null) | None\<close> against \<open>Some(v)\<close>.\<close>

definition non_null :: "json option \<Rightarrow> json option" where
  "non_null m = (if m = Some JNull then None else m)"

definition bitbucket :: "string \<Rightarrow> json \<Rightarrow> WebhookError + Parsed" where
  "bitbucket event j =
     (let repo = unwrap_or (js j [''repository'', ''full_name'']) '''';
          actor = or_else (js j [''actor'', ''nickname'']) (js j [''actor'', ''display_name'']) in
      if event = ''diagnostics:ping'' then Inr (PingEvent, repo, None, None, None)
      else if event = ''repo:push'' then
        rbind (ok_or (first_change j) (MissingField ''push.changes'')) (\<lambda>change.
        case non_null (json_get change ''new'') of
          None \<Rightarrow> Inr (Ignored ''repo:push (branch deleted)'', repo, None, None, actor)
        | Some nw \<Rightarrow> Inr (bitbucket_change repo actor nw))
      else if starts_with ''pullrequest:'' event then
        Inr (PullRequest (unwrap_or (ju j [''pullrequest'', ''id'']) 0)
               (bitbucket_action event)
               (unwrap_or (js j [''pullrequest'', ''source'', ''branch'', ''name'']) '''')
               (js j [''pullrequest'', ''destination'', ''branch'', ''name'']),
             repo, js j [''pullrequest'', ''source'', ''commit'', ''hash''], None, actor)
      else Inr (Ignored event, repo, None, None, None))"

section \<open>Parsing\<close>

fun parse_payload :: "Provider \<Rightarrow> string \<Rightarrow> json \<Rightarrow> WebhookError + Parsed" where
  "parse_payload GitHub event j = github event j"
| "parse_payload GitLab event j = gitlab event j"
| "parse_payload Bitbucket event j = bitbucket event j"

definition parse ::
  "(bytes \<Rightarrow> string + json) \<Rightarrow> Provider \<Rightarrow> headers \<Rightarrow> bytes \<Rightarrow> Verified \<Rightarrow> WebhookError + TriggerEvent" where
  "parse from_slice provider hdr body verified =
     rbind (ok_or (hdr (event_header provider)) (WhMissingHeader (event_header provider))) (\<lambda>event.
     let delivery_id = hdr (delivery_header provider) in
     rbind (case from_slice body of Inl e \<Rightarrow> Inl (BadJson e) | Inr j \<Rightarrow> Inr j) (\<lambda>json.
     rbind (parse_payload provider event json) (\<lambda>(kind, repo, commit_sha, reference, actor).
     Inr \<lparr>te_provider = provider, te_delivery_id = delivery_id, te_kind = kind, te_repo = repo,
          te_commit_sha = commit_sha, te_reference = reference, te_actor = actor,
          te_body_authenticated = body_authenticated verified\<rparr>)))"

section \<open>Lemmas\<close>

lemma short_ref_prefixed [simp]:
  "short_ref (''refs/heads/'' @ n) = n" "short_ref (''refs/tags/'' @ n) = n"
  by (simp_all add: short_ref_def or_else_def unwrap_or_def)

lemma trim_start_matches_done: "\<not> starts_with p s \<Longrightarrow> trim_start_matches p s = s"
  by (subst trim_start_matches.simps) (auto simp: starts_with_def)

lemma trim_start_matches_step: "p \<noteq> '''' \<Longrightarrow> trim_start_matches p (p @ s) = trim_start_matches p s"
  by (subst trim_start_matches.simps) simp

definition run_actions :: "string list" where
  "run_actions = [''opened'', ''reopened'', ''synchronize'', ''updated'']"

text \<open>Which deliveries are meant to start a run, by event name and the fields that decide.\<close>

fun starts_run :: "Provider \<Rightarrow> string \<Rightarrow> json \<Rightarrow> bool" where
  "starts_run GitHub event j \<longleftrightarrow>
     event = ''push'' \<or> event = ''pull_request'' \<and> unwrap_or (js j [''action'']) '''' \<in> set run_actions"
| "starts_run GitLab event j \<longleftrightarrow>
     event \<in> {''Push Hook'', ''Tag Push Hook''} \<or>
     event = ''Merge Request Hook'' \<and>
       unwrap_or (js j [''object_attributes'', ''action'']) '''' \<in> set (run_actions @ [''open'', ''reopen'', ''update''])"
| "starts_run Bitbucket event j \<longleftrightarrow>
     event = ''repo:push'' \<and>
       (\<exists>p x xs v. json_get j ''push'' = Some p \<and> json_get p ''changes'' = Some (JArray (x # xs)) \<and>
          json_get x ''new'' = Some v \<and> v \<noteq> JNull) \<or>
     event = ''pullrequest:created'' \<or>
     (\<exists>n. \<exists>a \<in> set run_actions. event = concat (replicate (Suc n) ''pullrequest:'') @ a)"

lemma not_pullrequest_action: "a \<in> set run_actions \<Longrightarrow> \<not> starts_with ''pullrequest:'' a"
  by (auto simp: run_actions_def starts_with_def)

lemma trim_replicate:
  assumes "p \<noteq> ''''" "\<not> starts_with p a"
  shows "trim_start_matches p s = a \<longleftrightarrow> (\<exists>n. s = concat (replicate n p) @ a)"
proof
  show "\<exists>n. s = concat (replicate n p) @ a" if "trim_start_matches p s = a"
    using that
  proof (induction p s rule: trim_start_matches.induct)
    case (1 p s)
    show ?case
    proof (cases "strip_prefix p s")
      case None
      then show ?thesis using 1(2) by (subst (asm) trim_start_matches.simps) (auto intro: exI [of _ 0])
    next
      case (Some r)
      then have s: "s = p @ r" by (simp add: jet_simps)
      show ?thesis
      proof (cases "p = ''''")
        case True
        then show ?thesis using 1(2) by (subst (asm) trim_start_matches.simps) (auto intro: exI [of _ 0])
      next
        case False
        then have "trim_start_matches p r = a" using 1(2) s trim_start_matches_step by simp
        from 1(1) [OF Some False this] obtain n where "r = concat (replicate n p) @ a" by blast
        then show ?thesis using s by (intro exI [of _ "Suc n"]) simp
      qed
    qed
  qed
next
  assume "\<exists>n. s = concat (replicate n p) @ a"
  then obtain n where "s = concat (replicate n p) @ a" ..
  then show "trim_start_matches p s = a"
    using assms by (induction n arbitrary: s) (auto simp: trim_start_matches_done trim_start_matches_step)
qed

lemma bitbucket_action_runs:
  "starts_with ''pullrequest:'' e \<and> bitbucket_action e \<in> set run_actions \<longleftrightarrow>
   e = ''pullrequest:created'' \<or> (\<exists>n. \<exists>a \<in> set run_actions. e = concat (replicate (Suc n) ''pullrequest:'') @ a)"
proof -
  let ?p = "''pullrequest:''"
  have special: "starts_with ?p ''pullrequest:created''" "bitbucket_action ''pullrequest:created'' \<in> set run_actions"
    "starts_with ?p ''pullrequest:updated''" "bitbucket_action ''pullrequest:updated'' \<in> set run_actions"
    by (simp_all add: starts_with_def bitbucket_action_def run_actions_def)
  have upd: "\<exists>n. \<exists>a \<in> set run_actions. ''pullrequest:updated'' = concat (replicate (Suc n) ?p) @ a"
    by (intro exI [of _ 0] bexI [of _ "''updated''"]) (simp_all add: run_actions_def)
  have step: "starts_with ?p e \<and> trim_start_matches ?p e = a \<longleftrightarrow> (\<exists>n. e = concat (replicate (Suc n) ?p) @ a)"
    if a: "a \<in> set run_actions" for a
  proof -
    have na: "\<not> starts_with ?p a" by (rule not_pullrequest_action [OF a])
    have *: "starts_with ?p (concat (replicate n ?p) @ a) \<longleftrightarrow> n \<noteq> 0" for n
      using na by (cases n) (auto simp: starts_with_iff)
    show ?thesis
      unfolding trim_replicate [OF _ na, simplified] using * by (metis not0_implies_Suc nat.distinct(1))
  qed
  show ?thesis
  proof (cases "e = ''pullrequest:created'' \<or> e = ''pullrequest:updated''")
    case True
    then show ?thesis using special upd by auto
  next
    case False
    then have "bitbucket_action e = trim_start_matches ?p e" by (simp add: bitbucket_action_def)
    then show ?thesis using False step by metis
  qed
qed

lemma kind_triggers_pr: "kind_triggers (PullRequest n a sb tb) \<longleftrightarrow> a \<in> set run_actions"
  by (simp add: run_actions_def)

lemma github_runs: "github event j = Inr (kind, rest) \<Longrightarrow> kind_triggers kind \<longleftrightarrow> starts_run GitHub event j"
  by (cases "event = ''push'' \<or> event = ''pull_request'' \<or> event = ''ping''")
    (auto simp: github_def Let_def jet_simps kind_triggers_pr simp del: kind_triggers.simps(3) split: if_splits)

lemma gitlab_action_runs:
  "gitlab_action a \<in> set run_actions \<longleftrightarrow> a \<in> set (run_actions @ [''open'', ''reopen'', ''update''])"
  by (auto simp: run_actions_def)

lemma gitlab_runs:
  assumes "gitlab event j = Inr (kind, rest)"
  shows "kind_triggers kind \<longleftrightarrow> starts_run GitLab event j"
proof -
  consider "event = ''Push Hook''" | "event = ''Tag Push Hook''" | "event = ''Merge Request Hook''"
    | "event \<noteq> ''Push Hook''" "event \<noteq> ''Tag Push Hook''" "event \<noteq> ''Merge Request Hook''" by blast
  then show ?thesis
  proof cases
    case 3
    then have "kind_triggers kind \<longleftrightarrow> gitlab_action (unwrap_or (js j [''object_attributes'', ''action'']) '''') \<in> set run_actions"
      using assms by (auto simp: gitlab_def Let_def kind_triggers_pr simp del: kind_triggers.simps(3) gitlab_action.simps)
    then show ?thesis using 3 gitlab_action_runs by simp
  qed (use assms in \<open>auto simp: gitlab_def Let_def jet_simps\<close>)
qed

lemma first_change_Some:
  "first_change j = Some x \<longleftrightarrow>
     (\<exists>p xs. json_get j ''push'' = Some p \<and> json_get p ''changes'' = Some (JArray (x # xs)))"
proof -
  have "as_array c = Some xs \<longleftrightarrow> c = JArray xs" for c xs by (cases c) auto
  moreover have "(case a of [] \<Rightarrow> None | y # _ \<Rightarrow> Some y) = Some x \<longleftrightarrow> (\<exists>xs. a = x # xs)" for a
    by (cases a) auto
  ultimately show ?thesis by (auto simp: first_change_def bind_eq_Some_conv)
qed

lemma non_null_Some: "non_null m = Some v \<longleftrightarrow> m = Some v \<and> v \<noteq> JNull"
  by (auto simp: non_null_def)

lemma bitbucket_push_runs:
  assumes "bitbucket ''repo:push'' j = Inr (kind, rest)"
  shows "kind_triggers kind \<longleftrightarrow> (\<exists>x v. first_change j = Some x \<and> non_null (json_get x ''new'') = Some v)"
proof -
  have push: "bitbucket ''repo:push'' j = rbind (ok_or (first_change j) (MissingField ''push.changes'')) (\<lambda>change.
        case non_null (json_get change ''new'') of
          None \<Rightarrow> Inr (Ignored ''repo:push (branch deleted)'', unwrap_or (js j [''repository'', ''full_name'']) '''',
            None, None, or_else (js j [''actor'', ''nickname'']) (js j [''actor'', ''display_name'']))
        | Some nw \<Rightarrow> Inr (bitbucket_change (unwrap_or (js j [''repository'', ''full_name'']) '''')
            (or_else (js j [''actor'', ''nickname'']) (js j [''actor'', ''display_name''])) nw))"
    by (simp add: bitbucket_def Let_def)
  then show ?thesis using assms
    by (cases "first_change j") (auto simp: bitbucket_change_def Let_def split: option.splits if_splits)
qed

lemma bitbucket_runs:
  assumes "bitbucket event j = Inr (kind, rest)"
  shows "kind_triggers kind \<longleftrightarrow> starts_run Bitbucket event j"
proof -
  have push: "\<not> starts_with ''pullrequest:'' ''repo:push''" "\<not> starts_with ''pullrequest:'' ''diagnostics:ping''"
    by (simp_all add: starts_with_def)
  note A = bitbucket_action_runs [of event]
  consider "event = ''repo:push''" | "event \<noteq> ''repo:push''" "\<not> starts_with ''pullrequest:'' event"
    | "event \<noteq> ''repo:push''" "event \<noteq> ''diagnostics:ping''" "starts_with ''pullrequest:'' event"
    using push by blast
  then show ?thesis
  proof cases
    case 1
    then show ?thesis using bitbucket_push_runs [of j kind rest] assms A push
      unfolding first_change_Some non_null_Some by auto
  next
    case 2
    then have "\<not> kind_triggers kind" using assms by (auto simp: bitbucket_def Let_def split: if_splits)
    then show ?thesis using 2 A by simp
  next
    case 3
    then have "kind_triggers kind \<longleftrightarrow> bitbucket_action event \<in> set run_actions"
      using assms by (auto simp: bitbucket_def Let_def kind_triggers_pr simp del: kind_triggers.simps(3))
    then show ?thesis using 3 A by simp
  qed
qed

section \<open>Properties\<close>

text \<open>Which deliveries start a run, provider by provider: pushes and tags, and pull requests whose action,
  in the provider's own vocabulary, says the code changed; health checks, deletions reported by
  Bitbucket, closed or merged pull requests and every other event do not.\<close>

theorem runs_start_exactly_for:
  assumes "parse_payload p event j = Inr (kind, rest)"
  shows "kind_triggers kind \<longleftrightarrow> starts_run p event j"
  using assms github_runs gitlab_runs bitbucket_runs by (cases p) auto

theorem runs_start_exactly_for_witness:
  "\<exists>kind rest. parse_payload Bitbucket ''pullrequest:fulfilled'' JNull = Inr (kind, rest) \<and> \<not> kind_triggers kind \<and>
     \<not> starts_run Bitbucket ''pullrequest:fulfilled'' JNull"
proof -
  have run: "\<exists>kind rest. parse_payload Bitbucket ''pullrequest:fulfilled'' JNull = Inr (kind, rest)"
    by (auto simp: bitbucket_def Let_def starts_with_def)
  have no: "case parse_payload Bitbucket ''pullrequest:fulfilled'' JNull of Inr (kind, rest) \<Rightarrow> \<not> kind_triggers kind | _ \<Rightarrow> False"
    by code_simp
  from run obtain kind rest where r: "parse_payload Bitbucket ''pullrequest:fulfilled'' JNull = Inr (kind, rest)" by blast
  have "\<not> kind_triggers kind" using no r by simp
  then show ?thesis using runs_start_exactly_for [OF r] r by blast
qed

text \<open>Names and references agree: a branch or tag event names exactly the short form of the reference it
  carries, whichever provider it came from, and GitHub and Bitbucket events are tags exactly
  when the reference is under \<open>refs/tags/\<close>.\<close>

theorem names_match_references:
  assumes "parse_payload p event j = Inr (kind, repo, sha, reference, actor)" "kind = Push n \<or> kind = Tag n"
  shows "\<exists>r. reference = Some r \<and> n = short_ref r \<and>
    (p \<noteq> GitLab \<longrightarrow> (kind = Tag n \<longleftrightarrow> starts_with ''refs/tags/'' r))"
proof (cases p)
  case GitHub
  then show ?thesis using assms by (auto simp: github_def Let_def jet_simps split: if_splits)
next
  case GitLab
  then show ?thesis using assms by (auto simp: gitlab_def Let_def jet_simps split: if_splits)
next
  case Bitbucket
  have "starts_with ''refs/tags/'' (''refs/tags/'' @ n)" "\<not> starts_with ''refs/tags/'' (''refs/heads/'' @ n)"
    by (simp_all add: starts_with_def)
  moreover have "reference = Some ((if kind = Tag n then ''refs/tags/'' else ''refs/heads/'') @ n)"
    using assms Bitbucket
    by (auto simp: bitbucket_def bitbucket_change_def Let_def jet_simps split: if_splits option.splits)
  ultimately show ?thesis using assms(2) Bitbucket short_ref_prefixed by (auto split: if_splits)
qed

theorem names_match_references_witness:
  "case parse_payload GitHub ''push'' (JObject [(''ref'', JString ''refs/tags/v1'')]) of
     Inr (kind, repo, sha, reference, actor) \<Rightarrow> kind = Tag ''v1'' \<and> (\<exists>r. reference = Some r \<and> ''v1'' = short_ref r)
   | _ \<Rightarrow> False"
proof -
  have run: "parse_payload GitHub ''push'' (JObject [(''ref'', JString ''refs/tags/v1'')]) =
      Inr (Tag ''v1'', '''', None, Some ''refs/tags/v1'', None)"
    by code_simp
  then show ?thesis using names_match_references [OF run, of "''v1''"] by auto
qed

text \<open>What each provider sends when a branch is deleted: GitHub sets \<open>deleted\<close>, GitLab names no commit to check out,
  both with the all-zero commit as the new head; Bitbucket has a change with no \<open>new\<close> side, here the first of its batch.\<close>

definition null_sha :: string where
  "null_sha = replicate 40 (CHR ''0'')"

fun push_event :: "Provider \<Rightarrow> string" where
  "push_event GitHub = ''push''"
| "push_event GitLab = ''Push Hook''"
| "push_event Bitbucket = ''repo:push''"

fun reports_deletion :: "Provider \<Rightarrow> json \<Rightarrow> bool" where
  "reports_deletion GitHub j \<longleftrightarrow>
     json_get j ''deleted'' = Some (JBool True) \<and> js j [''ref''] \<noteq> None \<and> js j [''after''] = Some null_sha"
| "reports_deletion GitLab j \<longleftrightarrow>
     js j [''checkout_sha''] = None \<and> js j [''ref''] \<noteq> None \<and> js j [''after''] = Some null_sha"
| "reports_deletion Bitbucket j \<longleftrightarrow>
     (\<exists>p x xs. json_get j ''push'' = Some p \<and> json_get p ''changes'' = Some (JArray (x # xs)) \<and>
        non_null (json_get x ''new'') = None)"

text \<open>C34: Deletions of branches are treated differently by provider. Every push that reports a deletion is parsed without an
  error. From GitHub and GitLab it becomes an event that starts a run, of the deleted reference at the commit
  whose hash is all zeros. From Bitbucket, when the deletion is the first change of the batch, it becomes an ignored event, and
  starts nothing, whatever branches the later changes of the same batch update.\<close>

theorem deletions_are_not_uniform:
  assumes "reports_deletion p j"
  shows "\<exists>kind repo sha reference actor. parse_payload p (push_event p) j = Inr (kind, repo, sha, reference, actor) \<and>
    (kind_triggers kind \<longleftrightarrow> p \<noteq> Bitbucket) \<and>
    (if p = Bitbucket then kind = Ignored ''repo:push (branch deleted)'' \<and> sha = None \<and> reference = None
     else sha = Some null_sha \<and> reference = js j [''ref''] \<and> reference \<noteq> None)"
proof (cases p)
  case GitHub
  then obtain r where "js j [''ref''] = Some r" "js j [''after''] = Some null_sha" using assms by auto
  then show ?thesis using GitHub by (cases "starts_with ''refs/tags/'' r") (simp_all add: github_def Let_def jet_simps)
next
  case GitLab
  then show ?thesis using assms by (auto simp: gitlab_def Let_def or_else_def jet_simps)
next
  case Bitbucket
  then obtain x where "first_change j = Some x" "non_null (json_get x ''new'') = None"
    using assms by (auto simp: first_change_def)
  then show ?thesis using Bitbucket by (simp add: bitbucket_def Let_def jet_simps)
qed

definition deletion_github :: json where
  "deletion_github = JObject [(''ref'', JString ''refs/heads/old''), (''deleted'', JBool True), (''after'', JString null_sha)]"

definition deletion_gitlab :: json where
  "deletion_gitlab = JObject [(''ref'', JString ''refs/heads/old''), (''checkout_sha'', JNull), (''after'', JString null_sha)]"

text \<open>A batch that deletes one branch and updates another.\<close>

definition deletion_bitbucket :: json where
  "deletion_bitbucket = JObject [(''push'', JObject [(''changes'', JArray [JObject [(''new'', JNull)],
     JObject [(''new'', JObject [(''name'', JString ''main''), (''type'', JString ''branch'')])]])])]"

theorem deletions_are_not_uniform_witness:
  "(\<exists>kind rest. parse_payload GitHub ''push'' deletion_github = Inr (kind, rest) \<and> kind_triggers kind) \<and>
   (\<exists>kind rest. parse_payload GitLab ''Push Hook'' deletion_gitlab = Inr (kind, rest) \<and> kind_triggers kind) \<and>
   (\<exists>kind rest. parse_payload Bitbucket ''repo:push'' deletion_bitbucket = Inr (kind, rest) \<and> \<not> kind_triggers kind)"
proof -
  have "reports_deletion GitHub deletion_github" "reports_deletion GitLab deletion_gitlab"
    "reports_deletion Bitbucket deletion_bitbucket"
    by (simp_all add: deletion_github_def deletion_gitlab_def deletion_bitbucket_def js_def non_null_def)
  from this [THEN deletions_are_not_uniform] show ?thesis by auto
qed

end
