(* ===== verification/Jet_Dedupe.thy ===== *)
theory Jet_Dedupe
  imports Jet_Prelude
begin

text \<open>
  Replay rejection (\<open>crates/jet-server/src/webhook/dedupe.rs\<close>). The set of seen delivery ids is a list
  of entries in the iteration order of the hash map; that order may change between calls, so runs are
  taken modulo reordering. Instants and durations are nanoseconds; \<open>duration_since\<close> saturates at zero,
  as subtraction of naturals does.
\<close>

section \<open>The guard\<close>

definition DEFAULT_TTL :: nat where "DEFAULT_TTL = 3600 * 1000000000"
definition DEFAULT_CAPACITY :: nat where "DEFAULT_CAPACITY = 65536"

record DeliveryGuard =
  dg_ttl :: nat
  dg_capacity :: nat
  dg_seen :: "(string \<times> nat) list"

datatype Delivery = Fresh | Duplicate | Unidentified

definition guard_new :: "nat \<Rightarrow> nat \<Rightarrow> DeliveryGuard" where
  "guard_new ttl capacity = \<lparr>dg_ttl = ttl, dg_capacity = max capacity 1, dg_seen = []\<rparr>"

definition guard_default :: DeliveryGuard where
  "guard_default = guard_new DEFAULT_TTL DEFAULT_CAPACITY"

definition guard_len :: "DeliveryGuard \<Rightarrow> nat" where
  "guard_len g = length (dg_seen g)"

definition guard_is_empty :: "DeliveryGuard \<Rightarrow> bool" where
  "guard_is_empty g \<longleftrightarrow> guard_len g = 0"

text \<open>\<open>min_by_key\<close>: the first of the least elements.\<close>

primrec min_by_at :: "(string \<times> nat) \<Rightarrow> (string \<times> nat) list \<Rightarrow> string \<times> nat" where
  "min_by_at m [] = m"
| "min_by_at m (e # es) = min_by_at (if snd e < snd m then e else m) es"

definition oldest :: "(string \<times> nat) list \<Rightarrow> string option" where
  "oldest seen = (case seen of [] \<Rightarrow> None | e # es \<Rightarrow> Some (fst (min_by_at e es)))"

text \<open>\<open>HashMap::remove\<close> and \<open>HashMap::insert\<close>.\<close>

definition seen_remove :: "string \<Rightarrow> (string \<times> nat) list \<Rightarrow> (string \<times> nat) list" where
  "seen_remove k seen = filter (\<lambda>e. fst e \<noteq> k) seen"

definition seen_insert :: "string \<Rightarrow> nat \<Rightarrow> (string \<times> nat) list \<Rightarrow> (string \<times> nat) list" where
  "seen_insert k at seen = (k, at) # seen_remove k seen"

text \<open>The critical section of \<open>check\<close>.\<close>

definition check_seen :: "nat \<Rightarrow> string \<Rightarrow> DeliveryGuard \<Rightarrow> Delivery \<times> DeliveryGuard" where
  "check_seen now key g =
     (let seen = dg_seen g;
          seen = (if length seen > dg_capacity g div 2 then filter (\<lambda>e. now - snd e < dg_ttl g) seen else seen)
      in if (case map_of seen key of Some at \<Rightarrow> now - at < dg_ttl g | None \<Rightarrow> False)
         then (Duplicate, g\<lparr>dg_seen := seen\<rparr>)
         else
           let seen = (if length seen \<ge> dg_capacity g
                       then (case oldest seen of Some k \<Rightarrow> seen_remove k seen | None \<Rightarrow> seen)
                       else seen)
           in (Fresh, g\<lparr>dg_seen := seen_insert key now seen\<rparr>))"

definition check :: "nat \<Rightarrow> string option \<Rightarrow> DeliveryGuard \<Rightarrow> Delivery \<times> DeliveryGuard" where
  "check now m g =
     (case m of
        None \<Rightarrow> (Unidentified, g)
      | Some key \<Rightarrow>
          if key = '''' \<or> length key > 200 then (Unidentified, g)
          else check_seen now key g)"

section \<open>Invariant\<close>

definition guard_wf :: "DeliveryGuard \<Rightarrow> bool" where
  "guard_wf g \<longleftrightarrow> 0 < dg_capacity g \<and> length (dg_seen g) \<le> dg_capacity g \<and> distinct (map fst (dg_seen g)) \<and>
     list_all (\<lambda>e. fst e \<noteq> '''' \<and> length (fst e) \<le> 200) (dg_seen g)"

lemma min_by_at_in: "min_by_at m es \<in> insert m (set es)"
  by (induction es arbitrary: m) (auto split: if_splits)

lemma min_by_at_le: "e \<in> insert m (set es) \<Longrightarrow> snd (min_by_at m es) \<le> snd e"
proof (induction es arbitrary: m e)
  case (Cons x xs)
  have "snd (min_by_at (if snd x < snd m then x else m) xs) \<le> snd (if snd x < snd m then x else m)"
    by (rule Cons.IH) simp
  moreover have "snd (min_by_at (if snd x < snd m then x else m) xs) \<le> snd e" if "e \<in> set xs"
    using that by (intro Cons.IH) simp
  ultimately show ?case using Cons.prems by (auto split: if_splits intro: order_trans)
qed simp

lemma oldest_Some:
  assumes "oldest seen = Some k"
  obtains at where "(k, at) \<in> set seen" "\<forall>e \<in> set seen. at \<le> snd e"
proof -
  from assms obtain e es where seen: "seen = e # es" and k: "k = fst (min_by_at e es)"
    by (auto simp: oldest_def split: list.splits)
  have "min_by_at e es \<in> set seen" using min_by_at_in [of e es] seen by simp
  moreover have "snd (min_by_at e es) \<le> snd x" if "x \<in> set seen" for x
    using min_by_at_le [of x e es] that seen by simp
  ultimately show ?thesis using that [of "snd (min_by_at e es)"] k by (metis prod.collapse)
qed

lemma length_seen_remove:
  assumes "k \<in> fst ` set seen"
  shows "length (seen_remove k seen) < length seen"
proof -
  from assms obtain x where "x \<in> set seen" "\<not> fst x \<noteq> k" by auto
  then show ?thesis unfolding seen_remove_def by (rule length_filter_less)
qed

lemma distinct_seen_remove: "distinct (map fst seen) \<Longrightarrow> distinct (map fst (seen_remove k seen))"
  unfolding seen_remove_def by (rule distinct_map_filter)

lemma seen_remove_notin [simp]: "k \<notin> fst ` set (seen_remove k seen)"
  by (auto simp: seen_remove_def)

text \<open>Room for the new entry after the eviction.\<close>

definition make_room :: "nat \<Rightarrow> (string \<times> nat) list \<Rightarrow> (string \<times> nat) list" where
  "make_room cap seen =
     (if length seen \<ge> cap then (case oldest seen of Some k \<Rightarrow> seen_remove k seen | None \<Rightarrow> seen) else seen)"

definition purge :: "nat \<Rightarrow> DeliveryGuard \<Rightarrow> (string \<times> nat) list" where
  "purge now g =
     (if length (dg_seen g) > dg_capacity g div 2 then filter (\<lambda>e. now - snd e < dg_ttl g) (dg_seen g) else dg_seen g)"

lemma check_seen_alt:
  "check_seen now key g =
     (if (case map_of (purge now g) key of Some at \<Rightarrow> now - at < dg_ttl g | None \<Rightarrow> False)
      then (Duplicate, g\<lparr>dg_seen := purge now g\<rparr>)
      else (Fresh, g\<lparr>dg_seen := seen_insert key now (make_room (dg_capacity g) (purge now g))\<rparr>))"
  unfolding check_seen_def purge_def make_room_def Let_def ..

lemma make_room_less:
  assumes "0 < cap" "length seen \<le> cap"
  shows "length (make_room cap seen) < cap"
proof (cases "oldest seen")
  case None
  then show ?thesis using assms by (auto simp: make_room_def oldest_def split: list.splits)
next
  case (Some k)
  then have "k \<in> fst ` set seen" by (auto elim!: oldest_Some intro: rev_image_eqI)
  from length_seen_remove [OF this] show ?thesis using Some assms by (simp add: make_room_def)
qed

lemma purge_sub: "set (purge now g) \<subseteq> set (dg_seen g)" "length (purge now g) \<le> length (dg_seen g)"
  "distinct (map fst (dg_seen g)) \<Longrightarrow> distinct (map fst (purge now g))"
  by (auto simp: purge_def intro: distinct_map_filter)

lemma make_room_sub: "set (make_room cap seen) \<subseteq> set seen"
  "distinct (map fst seen) \<Longrightarrow> distinct (map fst (make_room cap seen))"
  by (auto simp: make_room_def distinct_seen_remove split: option.split) (simp add: seen_remove_def)

lemma check_wf:
  assumes "guard_wf g"
  shows "guard_wf (snd (check now m g))"
proof (cases "\<exists>key. m = Some key \<and> key \<noteq> '''' \<and> length key \<le> 200")
  case False
  then show ?thesis using assms by (auto simp: check_def split: option.split)
next
  case True
  then obtain key where key: "check now m g = check_seen now key g" "key \<noteq> ''''" "length key \<le> 200"
    by (auto simp: check_def)
  let ?p = "purge now g" and ?r = "make_room (dg_capacity g) (purge now g)"
  have p: "length ?p \<le> dg_capacity g" "distinct (map fst ?p)"
    "list_all (\<lambda>e. fst e \<noteq> '''' \<and> length (fst e) \<le> 200) ?p"
    using assms purge_sub [where now = now and g = g] by (auto simp: guard_wf_def list_all_iff)
  have r: "length ?r < dg_capacity g" "distinct (map fst ?r)"
    "list_all (\<lambda>e. fst e \<noteq> '''' \<and> length (fst e) \<le> 200) ?r"
    using make_room_less [of "dg_capacity g" ?p] make_room_sub [where cap = "dg_capacity g" and seen = ?p] p assms
    by (auto simp: guard_wf_def list_all_iff)
  have "length (seen_remove key ?r) \<le> length ?r" by (simp add: seen_remove_def)
  then have "guard_wf (g\<lparr>dg_seen := seen_insert key now ?r\<rparr>)"
    using r key assms distinct_seen_remove [OF r(2)]
    by (auto simp: guard_wf_def seen_insert_def) (auto simp: seen_remove_def list_all_iff)
  moreover have "guard_wf (g\<lparr>dg_seen := ?p\<rparr>)" using p assms by (simp add: guard_wf_def)
  ultimately show ?thesis by (simp add: key(1) check_seen_alt)
qed

interpretation guard: machine "\<lambda>g (now, m). snd (check now m g)" guard_wf
  by unfold_locales (auto intro: check_wf)

section \<open>Runs\<close>

text \<open>Between two calls the hash map may iterate in another order.\<close>

definition reordered :: "DeliveryGuard \<Rightarrow> DeliveryGuard \<Rightarrow> bool" where
  "reordered g h \<longleftrightarrow> h = g\<lparr>dg_seen := dg_seen h\<rparr> \<and> mset (dg_seen h) = mset (dg_seen g)"

inductive guard_run :: "DeliveryGuard \<Rightarrow> (nat \<times> string option) list \<Rightarrow> Delivery list \<Rightarrow> DeliveryGuard \<Rightarrow> bool" where
  run_done: "reordered g g' \<Longrightarrow> guard_run g [] [] g'"
| run_check: "reordered g h \<Longrightarrow> check now m h = (d, h') \<Longrightarrow> guard_run h' es ds g' \<Longrightarrow>
    guard_run g ((now, m) # es) (d # ds) g'"

inductive_cases guard_run_ConsE: "guard_run g (e # es) ds g'"
inductive_cases guard_run_NilE: "guard_run g [] ds g'"

lemma reorderedD:
  assumes "reordered g h"
  shows "set (dg_seen h) = set (dg_seen g)" "dg_capacity h = dg_capacity g" "dg_ttl h = dg_ttl g"
    "length (dg_seen h) = length (dg_seen g)" "guard_wf h = guard_wf g"
proof -
  from assms have m: "mset (dg_seen h) = mset (dg_seen g)" and h: "h = g\<lparr>dg_seen := dg_seen h\<rparr>"
    by (auto simp: reordered_def)
  show s: "set (dg_seen h) = set (dg_seen g)" using m by (rule mset_eq_setD)
  show l: "length (dg_seen h) = length (dg_seen g)" using m by (rule mset_eq_length)
  show c: "dg_capacity h = dg_capacity g" "dg_ttl h = dg_ttl g" by (subst h, simp)+
  have "distinct (map fst (dg_seen h)) = distinct (map fst (dg_seen g))"
    using m by (intro mset_eq_imp_distinct_iff) (simp add: mset_map)
  then show "guard_wf h = guard_wf g" using s l c by (simp add: guard_wf_def list_all_iff)
qed

definition recent :: "nat \<Rightarrow> (string \<times> nat) list \<Rightarrow> nat" where
  "recent t seen = length (filter (\<lambda>e. t \<le> snd e) seen)"

lemma recent_reordered: "reordered g h \<Longrightarrow> recent t (dg_seen h) = recent t (dg_seen g)"
  unfolding reordered_def recent_def by (metis mset_filter size_mset)

lemma recent_filter: "recent t (filter P seen) \<le> recent t seen"
  unfolding recent_def by (induction seen) auto

lemma recent_purge: "recent t (purge now g) \<le> recent t (dg_seen g)"
  by (simp add: purge_def recent_filter)

lemma recent_make_room: "recent t (make_room cap seen) \<le> recent t seen"
  by (auto simp: make_room_def seen_remove_def recent_filter split: option.split)

lemma recent_insert: "recent t (seen_insert key now seen) \<le> Suc (recent t seen)"
  using recent_filter [of t "\<lambda>e. fst e \<noteq> key" seen] by (simp add: seen_insert_def seen_remove_def recent_def)

lemma check_config: "dg_capacity (snd (check now m g)) = dg_capacity g" "dg_ttl (snd (check now m g)) = dg_ttl g"
  by (simp_all add: check_def check_seen_alt split: option.split)

lemma recent_check: "recent t (dg_seen (snd (check now m g))) \<le> Suc (recent t (dg_seen g))"
proof (cases "\<exists>key. check now m g = check_seen now key g")
  case False
  then show ?thesis by (auto simp: check_def split: option.split)
next
  case True
  then obtain key where "check now m g = check_seen now key g" by blast
  moreover have "recent t (seen_insert key now (make_room (dg_capacity g) (purge now g))) \<le> Suc (recent t (dg_seen g))"
    using recent_insert [of t key now "make_room (dg_capacity g) (purge now g)"]
      recent_make_room [of t "dg_capacity g" "purge now g"] recent_purge [of t now g] by linarith
  ultimately show ?thesis using recent_purge [of t now g] by (auto simp: check_seen_alt)
qed

text \<open>An unexpired entry leaves the set only when the set is full of entries at least as recent.\<close>

lemma check_keeps:
  assumes "guard_wf g" "(k, t) \<in> set (dg_seen g)" "now - t < dg_ttl g" "recent t (dg_seen g) < dg_capacity g"
  shows "(k, t) \<in> set (dg_seen (snd (check now m g)))"
proof (cases "\<exists>key. check now m g = check_seen now key g")
  case False
  then show ?thesis using assms(2) by (auto simp: check_def split: option.split)
next
  case True
  then obtain key where key: "check now m g = check_seen now key g" by blast
  let ?p = "purge now g"
  have p: "(k, t) \<in> set ?p" using assms(2,3) by (simp add: purge_def)
  have d: "distinct (map fst ?p)" using purge_sub(3) assms(1) by (simp add: guard_wf_def)
  then have mk: "map_of ?p k = Some t" using p by simp
  have room: "(k, t) \<in> set (make_room (dg_capacity g) ?p)"
  proof (cases "length ?p \<ge> dg_capacity g \<and> oldest ?p = Some k")
    case False
    then show ?thesis using p by (auto simp: make_room_def seen_remove_def split: option.split)
  next
    case True
    then obtain at where "(k, at) \<in> set ?p" "\<forall>e \<in> set ?p. at \<le> snd e" by (auto elim: oldest_Some)
    then have "\<forall>e \<in> set ?p. t \<le> snd e" using d p by (metis eq_key_imp_eq_value)
    then have "recent t ?p = length ?p" by (simp add: recent_def filter_id_conv)
    then have False using True assms(4) recent_purge [of t now g] by linarith
    then show ?thesis ..
  qed
  then have "(k, t) \<in> set (seen_insert key now (make_room (dg_capacity g) ?p))" if "key \<noteq> k"
    using that by (simp add: seen_insert_def seen_remove_def)
  then show ?thesis using key p mk assms(3) by (cases "key = k") (auto simp: check_seen_alt)
qed

lemma check_duplicate:
  assumes "guard_wf g" "(k, t) \<in> set (dg_seen g)" "now - t < dg_ttl g" "k \<noteq> ''''" "length k \<le> 200"
  shows "fst (check now (Some k) g) = Duplicate"
proof -
  have "distinct (map fst (purge now g))" using purge_sub(3) assms(1) by (simp add: guard_wf_def)
  moreover have "(k, t) \<in> set (purge now g)" using assms(2,3) by (simp add: purge_def)
  ultimately have "map_of (purge now g) k = Some t" by simp
  then show ?thesis using assms(3-5) by (simp add: check_def check_seen_alt)
qed

lemma run_keeps:
  assumes "guard_run g es ds g'" "guard_wf g" "(k, t) \<in> set (dg_seen g)"
    "list_all (\<lambda>(now, m). now - t < dg_ttl g) es" "recent t (dg_seen g) + length es \<le> dg_capacity g"
  shows "guard_wf g' \<and> (k, t) \<in> set (dg_seen g') \<and> dg_ttl g' = dg_ttl g"
  using assms
proof (induction rule: guard_run.induct)
  case (run_done g g')
  then show ?case using reorderedD [OF run_done(1)] by simp
next
  case (run_check g h now m d h' es ds g')
  note R = reorderedD [OF run_check(1)] recent_reordered [OF run_check(1), of t]
  have h': "h' = snd (check now m h)" using run_check(2) by simp
  have keep: "(k, t) \<in> set (dg_seen h')"
    unfolding h' using run_check.prems R by (intro check_keeps) auto
  have "recent t (dg_seen h') \<le> Suc (recent t (dg_seen g))" using recent_check [of t now m h] R(6) h' by simp
  then show ?case
    using run_check.IH keep run_check.prems R check_wf [of h now m] check_config [of now m h] h' by simp
qed

lemma guard_run_appendE:
  "guard_run g (es @ fs) ds g' \<Longrightarrow> \<exists>ds1 ds2 h. ds = ds1 @ ds2 \<and> guard_run g es ds1 h \<and> guard_run h fs ds2 g'"
proof (induction es arbitrary: g ds)
  case Nil
  have "guard_run g [] [] g" by (intro run_done) (simp add: reordered_def)
  then show ?case using Nil by (intro exI [of _ "[]"] exI [of _ ds] exI [of _ g]) simp
next
  case (Cons e es)
  from Cons.prems obtain now m d ds' h h' where e: "e = (now, m)" "ds = d # ds'" "reordered g h" "check now m h = (d, h')"
    and run: "guard_run h' (es @ fs) ds' g'"
    by (auto elim: guard_run_ConsE)
  from Cons.IH [OF run] obtain ds1 ds2 j where j: "ds' = ds1 @ ds2" "guard_run h' es ds1 j" "guard_run j fs ds2 g'"
    by blast
  then show ?case using run_check [OF e(3,4) j(2)] e(1,2) by (intro exI [of _ "d # ds1"] exI [of _ ds2] exI [of _ j]) simp
qed

section \<open>Properties\<close>

text \<open>The guard never holds more ids than its capacity, each id once, none longer than 200 bytes, whatever
  headers arrive in whatever order.\<close>

theorem guard_is_bounded:
  "guard_wf (foldl (\<lambda>g (now, m). snd (check now m g)) (guard_new ttl cap) es) \<and>
   guard_len (foldl (\<lambda>g (now, m). snd (check now m g)) (guard_new ttl cap) es) \<le> max cap 1"
proof -
  let ?f = "\<lambda>g (now, m). snd (check now m g)" and ?g = "foldl (\<lambda>g (now, m). snd (check now m g)) (guard_new ttl cap) es"
  have "guard_wf (guard_new ttl cap)" by (simp add: guard_wf_def guard_new_def)
  then have wf: "guard_wf ?g" by (rule guard.run_inv)
  have "dg_capacity ?g = dg_capacity (guard_new ttl cap)"
    by (induction es rule: rev_induct) (auto simp: check_config)
  then show ?thesis using wf by (simp add: guard_wf_def guard_len_def guard_new_def)
qed

text \<open>A redelivery is recognized: after a delivery was answered \<open>Fresh\<close>, the same id is answered
  \<open>Duplicate\<close> until its time to live has passed, whatever other deliveries come in between, as
  long as there are fewer of them than the capacity leaves room for.\<close>

theorem redelivery_is_duplicate:
  assumes "guard_wf g" "k \<noteq> ''''" "length k \<le> 200"
    and "guard_run g ((t, Some k) # es @ [(t', Some k)]) (Fresh # ds) g'"
    and "list_all (\<lambda>(now, m). now - t < dg_ttl g) es" "t' - t < dg_ttl g"
    and "recent t (dg_seen g) + Suc (length es) \<le> dg_capacity g"
  shows "last ds = Duplicate"
proof -
  from assms(4) obtain h h1 where h: "reordered g h" and c: "check t (Some k) h = (Fresh, h1)"
    and run: "guard_run h1 (es @ [(t', Some k)]) ds g'"
    by (auto elim!: guard_run_ConsE)
  note R = reorderedD [OF h] recent_reordered [OF h, of t]
  have h1: "h1 = snd (check t (Some k) h)" using c by simp
  have wf1: "guard_wf h1" "dg_ttl h1 = dg_ttl g" "dg_capacity h1 = dg_capacity g"
    using check_wf [of h t "Some k"] check_config [of t "Some k" h] R assms(1) h1 by simp_all
  have in1: "(k, t) \<in> set (dg_seen h1)"
    using c assms(2,3) by (auto simp: check_def check_seen_alt seen_insert_def split: if_splits)
  have rec1: "recent t (dg_seen h1) \<le> Suc (recent t (dg_seen g))"
    using recent_check [of t t "Some k" h] R(6) h1 by simp
  from guard_run_appendE [OF run] obtain ds1 ds2 h2 where ds: "ds = ds1 @ ds2"
    and r1: "guard_run h1 es ds1 h2" and r2: "guard_run h2 [(t', Some k)] ds2 g'" by blast
  have k2: "guard_wf h2 \<and> (k, t) \<in> set (dg_seen h2) \<and> dg_ttl h2 = dg_ttl g"
    using run_keeps [OF r1 wf1(1) in1] wf1 rec1 assms(5,7) by simp
  from r2 obtain h3 d where h3: "reordered h2 h3" and d: "d = fst (check t' (Some k) h3)" "ds2 = [d]"
    by (auto elim!: guard_run_ConsE guard_run_NilE)
  have "d = Duplicate"
    unfolding d(1) using reorderedD [OF h3] k2 assms(2,3,6) by (intro check_duplicate [where t = t]) auto
  then show ?thesis using ds d by simp
qed

definition example_guard :: DeliveryGuard where "example_guard = guard_new 1000 8"

text \<open>The run in which the order never changes.\<close>

primrec checks :: "(nat \<times> string option) list \<Rightarrow> DeliveryGuard \<Rightarrow> Delivery list \<times> DeliveryGuard" where
  "checks [] g = ([], g)"
| "checks (e # es) g = (case check (fst e) (snd e) g of (d, h) \<Rightarrow> case checks es h of (ds, g') \<Rightarrow> (d # ds, g'))"

lemma guard_run_checks: "guard_run g es (fst (checks es g)) (snd (checks es g))"
proof (induction es arbitrary: g)
  case Nil
  show ?case by (simp add: run_done reordered_def)
next
  case (Cons e es)
  obtain now m where e: "e = (now, m)" by (cases e)
  obtain d h where c: "check now m g = (d, h)" by (cases "check now m g")
  have "reordered g g" by (simp add: reordered_def)
  from run_check [OF this c Cons [of h]] show ?case using c e by (simp add: case_prod_unfold)
qed

lemma example_checks:
  "fst (checks [(5, Some ''a''), (6, Some ''b''), (7, None), (9, Some ''a'')] example_guard) =
     [Fresh, Fresh, Unidentified, Duplicate]"
  by code_simp

theorem redelivery_is_duplicate_witness:
  "\<exists>g' ds. guard_run example_guard ((5, Some ''a'') # [(6, Some ''b''), (7, None)] @ [(9, Some ''a'')]) (Fresh # ds) g' \<and>
     last ds = Duplicate"
proof -
  obtain g' where run: "guard_run example_guard ((5, Some ''a'') # [(6, Some ''b''), (7, None)] @ [(9, Some ''a'')])
     (Fresh # [Fresh, Unidentified, Duplicate]) g'"
    using guard_run_checks [of example_guard "[(5, Some ''a''), (6, Some ''b''), (7, None), (9, Some ''a'')]"]
    unfolding example_checks by auto
  have wf: "guard_wf example_guard" by (simp add: guard_wf_def example_guard_def guard_new_def)
  have "last [Fresh, Unidentified, Duplicate] = Duplicate"
    by (rule redelivery_is_duplicate [OF wf _ _ run])
      (simp_all add: example_guard_def guard_new_def recent_def)
  then show ?thesis using run by blast
qed

end
