(* ===== verification/Jet_Server.thy ===== *)
theory Jet_Server
  imports Jet_Webhook Jet_Dedupe Jet_Db Jet_Msg "HOL-Library.AList"
begin

text \<open>
  The control plane's public side: the shared state (\<open>crates/jet-server/src/state.rs\<close>) and the HTTP
  handlers (\<open>crates/jet-server/src/http.rs\<close>). A request is handled as one step on the state: the only
  part of it that handlers change is the replay guard, under its mutex, once per request. Routing and
  the body limit belong to \<open>axum\<close>; the routes and the limit the sources give it are modelled, matching of paths is not.
\<close>

section \<open>Parameters\<close>

text \<open>The crates the handlers call: \<open>hex\<close>, \<open>hmac\<close>, \<open>serde_json\<close> for values and for the trigger body,
  \<open>HeaderValue::to_str\<close>, and \<open>ulid\<close>.\<close>

record TriggerBody =
  tb_project :: string
  tb_pipeline :: string
  tb_commit_sha :: "string option"
  tb_reference :: "string option"

record 'm crates =
  cr_hex :: hex_crate
  cr_hmac :: "'m hmac_crate"
  cr_json :: "bytes \<Rightarrow> string + json"
  cr_trigger_body :: "bytes \<Rightarrow> string + TriggerBody"
  cr_to_str :: "bytes \<Rightarrow> string option"
  cr_ulid :: ulid_crate

section \<open>State\<close>

type_synonym WebhookSecrets = "(string \<times> string) list"

definition secrets_set :: "Provider \<Rightarrow> string \<Rightarrow> WebhookSecrets \<Rightarrow> WebhookSecrets" where
  "secrets_set p secret s = AList.update (provider_as_str p) secret s"

definition secrets_get :: "WebhookSecrets \<Rightarrow> Provider \<Rightarrow> string option" where
  "secrets_get s p = map_of s (provider_as_str p)"

record ServerState =
  ss_db :: Db
  ss_deliveries :: DeliveryGuard
  ss_secrets :: WebhookSecrets
  ss_repo_map :: "(string \<times> string \<times> string) list"

definition state_new :: "Db \<Rightarrow> WebhookSecrets \<Rightarrow> ServerState" where
  "state_new db secrets = \<lparr>ss_db = db, ss_deliveries = guard_default, ss_secrets = secrets, ss_repo_map = []\<rparr>"

definition map_repo :: "string \<Rightarrow> string \<Rightarrow> string \<Rightarrow> ServerState \<Rightarrow> ServerState" where
  "map_repo repo project pipeline st = st\<lparr>ss_repo_map := AList.update repo (project, pipeline) (ss_repo_map st)\<rparr>"

definition webhook_secret :: "ServerState \<Rightarrow> Provider \<Rightarrow> string option" where
  "webhook_secret st p = secrets_get (ss_secrets st) p"

datatype EnqueueError = UnknownRepo string | EnqueueStore StoreError

fun enqueue_error_display :: "EnqueueError \<Rightarrow> string" where
  "enqueue_error_display (UnknownRepo r) = ''no pipeline configured for repository '' @ r"
| "enqueue_error_display (EnqueueStore e) = store_error_display e"

text \<open>\<open>run\<close> is the identifier minted for the call.\<close>

definition enqueue :: "ulid_crate \<Rightarrow> ulid \<Rightarrow> ServerState \<Rightarrow> TriggerEvent \<Rightarrow> EnqueueError + string" where
  "enqueue u run st event =
     rbind (ok_or (map_of (ss_repo_map st) (te_repo event)) (UnknownRepo (te_repo event))) (\<lambda>(project, pipeline).
     Inr (id_to_canonical u run))"

datatype AuthError = TokenMalformed | TokenUnknown

fun auth_error_display :: "AuthError \<Rightarrow> string" where
  "auth_error_display TokenMalformed = ''token is not in the expected format''"
| "auth_error_display TokenUnknown = ''token is not recognized''"

primrec splitn :: "nat \<Rightarrow> char \<Rightarrow> string \<Rightarrow> string list" where
  "splitn 0 c s = []"
| "splitn (Suc n) c s =
     (if n = 0 then [s] else case split_once c s of None \<Rightarrow> [s] | Some (a, b) \<Rightarrow> a # splitn n c b)"

definition authenticate_token :: "string \<Rightarrow> AuthError + unit" where
  "authenticate_token token =
     (case splitn 3 CHR ''_'' token of
        [a, prefix, secret] \<Rightarrow>
          if a = ''jetr'' \<and> prefix \<noteq> '''' \<and> secret \<noteq> '''' then Inl TokenUnknown else Inl TokenMalformed
      | _ \<Rightarrow> Inl TokenMalformed)"

section \<open>HTTP\<close>

record Ack =
  ack_status :: string
  ack_detail :: "string option"
  ack_run_id :: "string option"

datatype Response = Text (status: nat) string | Json (status: nat) Ack

definition ack_accepted :: "string \<Rightarrow> Response" where
  "ack_accepted run_id = Json 202 \<lparr>ack_status = ''accepted'', ack_detail = None, ack_run_id = Some run_id\<rparr>"

definition ack_ignored :: "string \<Rightarrow> Response" where
  "ack_ignored detail = Json 200 \<lparr>ack_status = ''ignored'', ack_detail = Some detail, ack_run_id = None\<rparr>"

text \<open>A header map in iteration order; of several values for a name, \<open>collect\<close> keeps the last and
  \<open>HeaderMap::get\<close> returns the first.\<close>

type_synonym HeaderMap = "(string \<times> bytes) list"

definition headers_from :: "(bytes \<Rightarrow> string option) \<Rightarrow> HeaderMap \<Rightarrow> headers" where
  "headers_from to_str m name =
     map_of (rev (List.map_filter (\<lambda>(k, v). map_option (\<lambda>v'. (to_ascii_lowercase k, v')) (to_str v)) m)) name"

definition header_first :: "HeaderMap \<Rightarrow> string \<Rightarrow> bytes option" where
  "header_first m name = map_option snd (find (\<lambda>(k, v). to_ascii_lowercase k = name) m)"

text \<open>\<open>Debug\<close> of a string: quotes, backslashes and the named control characters are escaped.\<close>

definition debug_char :: "char \<Rightarrow> string" where
  "debug_char c =
     (if c = CHR 0x22 then [CHR 0x5C, CHR 0x22]
      else if c = CHR 0x5C then [CHR 0x5C, CHR 0x5C]
      else if c = CHR 0x0A then [CHR 0x5C, CHR ''n'']
      else if c = CHR 0x0D then [CHR 0x5C, CHR ''r'']
      else if c = CHR 0x09 then [CHR 0x5C, CHR ''t'']
      else if c = CHR 0x00 then [CHR 0x5C, CHR ''0'']
      else [c])"

definition debug_str :: "string \<Rightarrow> string" where
  "debug_str s = CHR 0x22 # concat (map debug_char s) @ [CHR 0x22]"

definition provider_named :: "string \<Rightarrow> Provider option" where
  "provider_named s =
     (if s = ''github'' then Some GitHub
      else if s = ''gitlab'' then Some GitLab
      else if s = ''bitbucket'' then Some Bitbucket
      else None)"

definition lookup_delivery :: "headers \<Rightarrow> Provider \<Rightarrow> string option" where
  "lookup_delivery lookup p = lookup (delivery_header p)"

definition dispatch :: "'m crates \<Rightarrow> ulid \<Rightarrow> ServerState \<Rightarrow> TriggerEvent \<Rightarrow> Response" where
  "dispatch d run st event =
     (if \<not> should_trigger event then
        ack_ignored
          (case te_kind event of
             PingEvent \<Rightarrow> ''ping acknowledged''
           | Ignored ev \<Rightarrow> ''event '' @ ev @ '' is not configured to trigger''
           | PullRequest _ action _ _ \<Rightarrow> ''pull request action '' @ action @ '' does not trigger''
           | _ \<Rightarrow> ''not configured to trigger'')
      else
        (case enqueue (cr_ulid d) run st event of
           Inr run_id \<Rightarrow> ack_accepted run_id
         | Inl (UnknownRepo repo) \<Rightarrow> ack_ignored ''no pipeline configured for this repository''
         | Inl e \<Rightarrow> Text 500 ''internal error''))"

fun verify_status :: "VerifyError \<Rightarrow> nat" where
  "verify_status (NoSecretConfigured _) = 500"
| "verify_status _ = 401"

text \<open>The part of the handler behind authentication and the replay check.\<close>

definition parse_and_dispatch :: "'m crates \<Rightarrow> ulid \<Rightarrow> Provider \<Rightarrow> headers \<Rightarrow> bytes \<Rightarrow> Verified \<Rightarrow> ServerState \<Rightarrow> Response" where
  "parse_and_dispatch d run p lookup body verified st =
     (case parse (cr_json d) p lookup body verified of
        Inl (WhMissingHeader h) \<Rightarrow> Text 400 (''missing '' @ h)
      | Inl e \<Rightarrow> Text 400 ''malformed payload''
      | Inr event \<Rightarrow> dispatch d run st event)"

definition webhook ::
  "'m crates \<Rightarrow> nat \<Rightarrow> ulid \<Rightarrow> string \<Rightarrow> HeaderMap \<Rightarrow> bytes \<Rightarrow> ServerState \<Rightarrow> Response \<times> ServerState" where
  "webhook d now run provider hdrs body st =
     (case provider_named provider of
        None \<Rightarrow> (Text 404 (''unknown webhook provider '' @ debug_str provider), st)
      | Some p \<Rightarrow>
          let lookup = headers_from (cr_to_str d) hdrs in
          (case verify (cr_hex d) (cr_hmac d) p lookup body (map_option bytes_of (webhook_secret st p)) of
             Inl e \<Rightarrow> (Text (verify_status e) ''rejected'', st)
           | Inr verified \<Rightarrow>
               (case check now (lookup_delivery lookup p) (ss_deliveries st) of
                  (delivery, guard) \<Rightarrow>
                    let st' = st\<lparr>ss_deliveries := guard\<rparr> in
                    if delivery = Duplicate then (ack_ignored ''duplicate delivery'', st')
                    else (parse_and_dispatch d run p lookup body verified st', st'))))"

definition is_ascii_space :: "char \<Rightarrow> bool" where
  "is_ascii_space c \<longleftrightarrow> (of_char c :: nat) \<in> set [9, 10, 11, 12, 13, 32]"

definition str_trim :: "string \<Rightarrow> string" where
  "str_trim s = rev (dropWhile is_ascii_space (rev (dropWhile is_ascii_space s)))"

definition bearer :: "(bytes \<Rightarrow> string option) \<Rightarrow> HeaderMap \<Rightarrow> string option" where
  "bearer to_str hdrs =
     Option.bind (header_first hdrs ''authorization'') (\<lambda>v.
     Option.bind (to_str v) (\<lambda>s.
     map_option str_trim (strip_prefix ''Bearer '' s)))"

definition trigger :: "'m crates \<Rightarrow> ulid \<Rightarrow> HeaderMap \<Rightarrow> bytes \<Rightarrow> ServerState \<Rightarrow> Response \<times> ServerState" where
  "trigger d run hdrs body st =
     (case bearer (cr_to_str d) hdrs of
        None \<Rightarrow> (Text 401 ''missing bearer token'', st)
      | Some token \<Rightarrow>
          if length token > MAX_TOKEN_LEN then (Text 400 ''token too long'', st)
          else
            (case authenticate_token token of
               Inl e \<Rightarrow> (Text 401 ''invalid token'', st)
             | Inr _ \<Rightarrow>
                 (case cr_trigger_body d body of
                    Inl e \<Rightarrow> (Text 400 (''bad body: '' @ e), st)
                  | Inr req \<Rightarrow>
                      let event = \<lparr>te_provider = GitHub, te_delivery_id = None,
                            te_kind = Push (unwrap_or (tb_reference req) ''api''),
                            te_repo = tb_project req @ ''/'' @ tb_pipeline req, te_commit_sha = tb_commit_sha req,
                            te_reference = tb_reference req, te_actor = None, te_body_authenticated = False\<rparr> in
                      (case enqueue (cr_ulid d) run st event of
                         Inr run_id \<Rightarrow> (ack_accepted run_id, st)
                       | Inl e \<Rightarrow> (Text 400 (enqueue_error_display e), st)))))"

datatype Route = Healthz | WebhookRoute string | TriggerRoute

record HttpRequest =
  hr_route :: Route
  hr_headers :: HeaderMap
  hr_body :: bytes
  hr_now :: nat
  hr_run :: ulid

text \<open>The router: handlers that take the body are reached only within the limit.\<close>

definition router :: "'m crates \<Rightarrow> HttpRequest \<Rightarrow> ServerState \<Rightarrow> Response \<times> ServerState" where
  "router d r st =
     (case hr_route r of
        Healthz \<Rightarrow> (Text 200 ''ok'', st)
      | WebhookRoute p \<Rightarrow>
          if length (hr_body r) > MAX_BODY_BYTES then (Text 413 ''length limit exceeded'', st)
          else webhook d (hr_now r) (hr_run r) p (hr_headers r) (hr_body r) st
      | TriggerRoute \<Rightarrow>
          if length (hr_body r) > MAX_BODY_BYTES then (Text 413 ''length limit exceeded'', st)
          else trigger d (hr_run r) (hr_headers r) (hr_body r) st)"

section \<open>Lemmas\<close>

lemma provider_named_iff: "provider_named s = Some p \<longleftrightarrow> s = provider_as_str p"
  by (cases p) (auto simp: provider_named_def)

lemma status_simps [simp]: "status (ack_accepted r) = 202" "status (ack_ignored s) = 200"
  by (simp_all add: ack_accepted_def ack_ignored_def)

lemma verify_status_not_202: "verify_status e \<noteq> 202"
  by (cases e) simp_all

lemma authenticate_token_not_Inr: "authenticate_token token \<noteq> Inr x"
  by (auto simp: authenticate_token_def split: list.split)

lemma parse_payload_runs: "parse_payload p event j = Inr (kind, rest) \<Longrightarrow> kind_triggers kind \<longleftrightarrow> starts_run p event j"
  using github_runs gitlab_runs bitbucket_runs by (cases p) auto

lemma dispatch_202:
  "status (dispatch d run st e) = 202 \<longleftrightarrow> should_trigger e \<and> map_of (ss_repo_map st) (te_repo e) \<noteq> None"
  by (auto simp: dispatch_def enqueue_def rbind_def ok_or_def split: option.split sum.splits)

lemma dispatch_accepts:
  "status (dispatch d run st e) = 202 \<Longrightarrow> dispatch d run st e = ack_accepted (id_to_canonical (cr_ulid d) run)"
  by (auto simp: dispatch_def enqueue_def rbind_def ok_or_def split: option.splits sum.splits if_splits EnqueueError.splits)

lemma parse_and_dispatch_202:
  "status (parse_and_dispatch d run p lookup body v st) = 202 \<longleftrightarrow>
    (\<exists>ev j kind repo rest. lookup (event_header p) = Some ev \<and> cr_json d body = Inr j \<and>
       parse_payload p ev j = Inr (kind, repo, rest) \<and> starts_run p ev j \<and> map_of (ss_repo_map st) repo \<noteq> None)"
proof (cases "parse (cr_json d) p lookup body v")
  case (Inl e)
  then have "status (parse_and_dispatch d run p lookup body v st) \<noteq> 202"
    by (cases e) (simp_all add: parse_and_dispatch_def)
  moreover have False if "lookup (event_header p) = Some ev" "cr_json d body = Inr j"
    "parse_payload p ev j = Inr (kind, repo, rest)" for ev j kind repo rest
    using Inl that by (simp add: parse_def split: prod.splits)
  ultimately show ?thesis by blast
next
  case (Inr e)
  then obtain ev j kind repo sha re ac where *: "lookup (event_header p) = Some ev" "cr_json d body = Inr j"
    "parse_payload p ev j = Inr (kind, repo, sha, re, ac)" "te_kind e = kind" "te_repo e = repo"
    by (auto simp: parse_def jet_simps split: sum.splits)
  then have "should_trigger e \<longleftrightarrow> starts_run p ev j"
    by (simp add: should_trigger_def parse_payload_runs)
  then show ?thesis using Inr * by (auto simp: parse_and_dispatch_def dispatch_202)
qed

text \<open>The replay check a request causes, if any: that of a verified webhook delivery within the body limit.\<close>

definition request_check :: "'m crates \<Rightarrow> WebhookSecrets \<Rightarrow> HttpRequest \<Rightarrow> (nat \<times> string option) option" where
  "request_check d secrets r =
     (case hr_route r of
        WebhookRoute name \<Rightarrow>
          (case provider_named name of
             None \<Rightarrow> None
           | Some p \<Rightarrow>
               let lookup = headers_from (cr_to_str d) (hr_headers r) in
               if length (hr_body r) \<le> MAX_BODY_BYTES \<and>
                 is_ok (verify (cr_hex d) (cr_hmac d) p lookup (hr_body r) (map_option bytes_of (secrets_get secrets p)))
               then Some (hr_now r, lookup (delivery_header p)) else None)
      | _ \<Rightarrow> None)"

text \<open>A request without a replay check changes nothing; one with a check changes the guard by it, and a
  duplicate is acknowledged and ignored.\<close>

lemma trigger_closed: "snd (trigger d run hdrs body st) = st" "status (fst (trigger d run hdrs body st)) \<in> {400, 401}"
  by (auto simp: trigger_def authenticate_token_not_Inr split: option.split sum.split)

lemma router_no_check: "request_check d (ss_secrets st) r = None \<Longrightarrow> snd (router d r st) = st \<and> status (fst (router d r st)) \<noteq> 202"
proof (cases "hr_route r")
  case (WebhookRoute name)
  assume *: "request_check d (ss_secrets st) r = None"
  show ?thesis
  proof (cases "provider_named name")
    case (Some p)
    then show ?thesis
      using * WebhookRoute
      by (auto simp: request_check_def router_def webhook_def webhook_secret_def Let_def is_ok_def verify_status_not_202
          split: sum.splits if_splits)
  qed (simp add: router_def webhook_def WebhookRoute)
next
  case TriggerRoute
  then show ?thesis using trigger_closed [of d "hr_run r" "hr_headers r" "hr_body r" st] by (auto simp: router_def)
qed (simp add: router_def)

lemma router_check:
  assumes "request_check d (ss_secrets st) r = Some (now, m)" "check now m (ss_deliveries st) = (dl, g)"
  shows "snd (router d r st) = st\<lparr>ss_deliveries := g\<rparr> \<and>
    (dl = Duplicate \<longrightarrow> fst (router d r st) = ack_ignored ''duplicate delivery'')"
proof -
  from assms(1) obtain name p v where *: "hr_route r = WebhookRoute name" "provider_named name = Some p"
    "length (hr_body r) \<le> MAX_BODY_BYTES" "now = hr_now r" "m = headers_from (cr_to_str d) (hr_headers r) (delivery_header p)"
    "verify (cr_hex d) (cr_hmac d) p (headers_from (cr_to_str d) (hr_headers r)) (hr_body r) (map_option bytes_of (secrets_get (ss_secrets st) p)) = Inr v"
    by (auto simp: request_check_def Let_def is_ok_iff split: Route.splits option.splits if_splits)
  then show ?thesis
    using assms(2) by (simp add: router_def webhook_def webhook_secret_def lookup_delivery_def Let_def)
qed

section \<open>Runs of the server\<close>

text \<open>Between two requests the hash map of the guard may iterate in another order.\<close>

inductive server_run :: "'m crates \<Rightarrow> ServerState \<Rightarrow> HttpRequest list \<Rightarrow> Response list \<Rightarrow> ServerState \<Rightarrow> bool" for d where
  served_all: "server_run d st [] [] st"
| serve: "reordered (ss_deliveries st) g \<Longrightarrow> router d r (st\<lparr>ss_deliveries := g\<rparr>) = (x, st1) \<Longrightarrow>
    server_run d st1 rs xs st2 \<Longrightarrow> server_run d st (r # rs) (x # xs) st2"

inductive_cases server_run_ConsE: "server_run d st (r # rs) xs st'"
inductive_cases server_run_NilE: "server_run d st [] xs st'"

lemma server_run_appendE:
  "server_run d st (rs @ qs) xs st' \<Longrightarrow> \<exists>xs1 xs2 st1. xs = xs1 @ xs2 \<and> length xs1 = length rs \<and>
     server_run d st rs xs1 st1 \<and> server_run d st1 qs xs2 st'"
proof (induction rs arbitrary: st xs)
  case Nil
  have "server_run d st [] [] st" by (rule served_all)
  then show ?case using Nil by (intro exI [of _ "[]"] exI [of _ xs] exI [of _ st]) simp
next
  case (Cons r rs)
  from Cons.prems obtain g x st1 ys where 1: "reordered (ss_deliveries st) g" "router d r (st\<lparr>ss_deliveries := g\<rparr>) = (x, st1)"
    "server_run d st1 (rs @ qs) ys st'" "xs = x # ys" by (auto elim: server_run_ConsE)
  from Cons.IH [OF 1(3)] obtain xs1 xs2 st2 where 2: "ys = xs1 @ xs2" "length xs1 = length rs"
    "server_run d st1 rs xs1 st2" "server_run d st2 qs xs2 st'" by blast
  have "server_run d st (r # rs) (x # xs1) st2" using 1 2 by (intro serve)
  then show ?case using 1 2 by (intro exI [of _ "x # xs1"] exI [of _ xs2] exI [of _ st2]) simp
qed

lemma reordered_trans: "reordered g h \<Longrightarrow> reordered h k \<Longrightarrow> reordered g k"
  unfolding reordered_def by (metis DeliveryGuard.surjective DeliveryGuard.update_convs(3))

lemma guard_run_reordered: "guard_run h es ds g' \<Longrightarrow> reordered g h \<Longrightarrow> guard_run g es ds g'"
  by (induction rule: guard_run.induct) (auto intro: guard_run.intros reordered_trans)

lemma server_run_guard:
  assumes "server_run d st rs xs st'"
  shows "\<exists>ds. guard_run (ss_deliveries st) (List.map_filter (request_check d (ss_secrets st)) rs) ds (ss_deliveries st') \<and>
    ss_secrets st' = ss_secrets st \<and> ss_repo_map st' = ss_repo_map st"
  using assms
proof (induction rule: server_run.induct)
  case (served_all st)
  have "reordered (ss_deliveries st) (ss_deliveries st)" by (simp add: reordered_def)
  then show ?case by (auto simp: List.map_filter_simps intro: run_done)
next
  case (serve st g r x st1 rs xs st2)
  let ?s = "st\<lparr>ss_deliveries := g\<rparr>"
  show ?case
  proof (cases "request_check d (ss_secrets st) r")
    case None
    then have "st1 = ?s" using router_no_check [of d ?s r] serve(2) by simp
    then show ?thesis using serve None guard_run_reordered by (fastforce simp: List.map_filter_simps)
  next
    case (Some c)
    obtain now m where c: "c = (now, m)" by (cases c)
    obtain dl g1 where ck: "check now m g = (dl, g1)" by fastforce
    have "st1 = ?s\<lparr>ss_deliveries := g1\<rparr>" using router_check [of d ?s r now m dl g1] serve(2) Some c ck by simp
    then show ?thesis using serve Some c ck by (fastforce simp: List.map_filter_simps intro: run_check)
  qed
qed

lemma map_filter_request_check:
  "list_all (\<lambda>r. hr_now r - t < n) rs \<Longrightarrow> list_all (\<lambda>(now, m). now - t < n) (List.map_filter (request_check d secrets) rs) \<and>
    length (List.map_filter (request_check d secrets) rs) \<le> length rs"
proof (induction rs)
  case (Cons r rs)
  have "fst c = hr_now r" if "request_check d secrets r = Some c" for c
    using that by (auto simp: request_check_def Let_def split: Route.splits option.splits if_splits)
  then show ?case using Cons by (auto simp: List.map_filter_simps split: option.split prod.split)
qed (simp add: List.map_filter_simps)

lemma server_run_keeps:
  assumes "server_run d st rs xs st'" "guard_wf (ss_deliveries st)" "(k, t) \<in> set (dg_seen (ss_deliveries st))"
    "list_all (\<lambda>r. hr_now r - t < dg_ttl (ss_deliveries st)) rs"
    "recent t (dg_seen (ss_deliveries st)) + length rs \<le> dg_capacity (ss_deliveries st)"
  shows "guard_wf (ss_deliveries st') \<and> (k, t) \<in> set (dg_seen (ss_deliveries st')) \<and>
    dg_ttl (ss_deliveries st') = dg_ttl (ss_deliveries st) \<and> ss_secrets st' = ss_secrets st"
proof -
  obtain ds where r: "guard_run (ss_deliveries st) (List.map_filter (request_check d (ss_secrets st)) rs) ds (ss_deliveries st')"
    and s: "ss_secrets st' = ss_secrets st"
    using server_run_guard [OF assms(1)] by blast
  show ?thesis using run_keeps [OF r assms(2,3)] map_filter_request_check [OF assms(4), of d "ss_secrets st"] assms(5) s by simp
qed

section \<open>Properties\<close>

text \<open>A GitLab installation with one repository mapped.\<close>

definition example_crates :: "bytes crates" where
  "example_crates = \<lparr>cr_hex = hex_ref, cr_hmac = hmac_ref,
     cr_json = (\<lambda>_. Inr (JObject [(''ref'', JString ''refs/heads/main''),
        (''project'', JObject [(''path_with_namespace'', JString ''acme/web'')])])),
     cr_trigger_body = (\<lambda>_. Inl ''EOF''), cr_to_str = (\<lambda>b. Some (string_of b)),
     cr_ulid = \<lparr>ulid_to_string = (\<lambda>_. ''01''), ulid_from_string = (\<lambda>_. None), ulid_timestamp_ms = (\<lambda>_. 0)\<rparr>\<rparr>"

definition example_state :: ServerState where
  "example_state = map_repo ''acme/web'' ''web'' ''ci''
     \<lparr>ss_db = \<lparr>db_tables = \<lparr>t_permissions = [], t_roles = [], t_role_permissions = [], t_users = [], t_memberships = [],
        t_service_accounts = [], t_teams = [], t_team_members = [], t_role_assignments = []\<rparr>, db_faults = []\<rparr>, ss_deliveries = guard_new 100 8,
      ss_secrets = secrets_set GitLab ''s3'' [], ss_repo_map = []\<rparr>"

definition example_request :: "nat \<Rightarrow> HttpRequest" where
  "example_request now = \<lparr>hr_route = WebhookRoute ''gitlab'',
     hr_headers = [(''X-Gitlab-Token'', bytes_of ''s3''), (''X-Gitlab-Event'', bytes_of ''Push Hook''), (''X-Gitlab-Event-UUID'', bytes_of ''u1'')],
     hr_body = [123], hr_now = now, hr_run = 7\<rparr>"

lemma example_limit: "length (hr_body (example_request now)) \<le> MAX_BODY_BYTES"
  by (simp add: example_request_def MAX_BODY_BYTES_def)

lemma example_accepted:
  "status (fst (webhook example_crates 5 7 ''gitlab'' (hr_headers (example_request 5)) [123] example_state)) = 202"
  by code_simp

text \<open>An authentic delivery: the provider has a non-empty secret, and the signature header is the configured token
  (GitLab) or an HMAC tag of the exact body under the secret.\<close>

definition authentic :: "'m crates \<Rightarrow> Provider \<Rightarrow> headers \<Rightarrow> bytes \<Rightarrow> ServerState \<Rightarrow> bool" where
  "authentic d p lookup body st \<longleftrightarrow>
     (\<exists>s sig. webhook_secret st p = Some s \<and> s \<noteq> '''' \<and> lookup (sig_header p) = Some sig \<and>
       (if p = GitLab then sig = s
        else \<exists>hx. sig = ''sha256='' @ hx \<and> length hx = 64 \<and>
          hex_decode_to_slice (cr_hex d) hx 32 = Some (mac (cr_hmac d) (bytes_of s) body)))"

lemma verify_authentic:
  assumes "hmac_ok (cr_hmac d)"
  shows "is_ok (verify (cr_hex d) (cr_hmac d) p lookup body (map_option bytes_of (webhook_secret st p))) \<longleftrightarrow>
    authentic d p lookup body st"
proof -
  have nil: "bytes_of s = [] \<longleftrightarrow> s = ''''" for s by (metis length_0_conv length_bytes_of)
  show ?thesis
    unfolding is_ok_iff verify_Inr [OF assms] authentic_def
    by (cases "webhook_secret st p") (auto simp: bytes_of_inject nil)
qed

text \<open>The rest of the delivery asks for a run the server can start.\<close>

definition asks_for_run :: "'m crates \<Rightarrow> Provider \<Rightarrow> headers \<Rightarrow> bytes \<Rightarrow> ServerState \<Rightarrow> bool" where
  "asks_for_run d p lookup body st \<longleftrightarrow>
     (\<exists>ev j kind repo rest. lookup (event_header p) = Some ev \<and> cr_json d body = Inr j \<and>
       parse_payload p ev j = Inr (kind, repo, rest) \<and> starts_run p ev j \<and> map_of (ss_repo_map st) repo \<noteq> None)"

lemma parse_and_dispatch_accepts:
  "status (parse_and_dispatch d run p lookup body v st) = 202 \<Longrightarrow>
    parse_and_dispatch d run p lookup body v st = ack_accepted (id_to_canonical (cr_ulid d) run)"
  using dispatch_accepts by (auto simp: parse_and_dispatch_def split: sum.splits WebhookError.splits)

text \<open>C17: Exactly which webhook requests start a run. The answer is 202 iff the path names a provider for which the
  delivery is authentic, it is not a replay, its event header is present, the body parses, it is an
  event that starts runs, and the repository it names is mapped to a pipeline; the answer then
  carries the identifier of the run. The health checks of GitHub and Bitbucket are not among these
  events; a test delivery of GitLab is: it is a \<open>Push Hook\<close> like any other, so with a mapped repository it starts a run.\<close>

theorem webhook_accepts_exactly:
  fixes hdrs :: HeaderMap and d :: "'m crates"
  defines "lookup \<equiv> headers_from (cr_to_str d) hdrs"
  assumes "hmac_ok (cr_hmac d)"
  shows "(status (fst (webhook d now run name hdrs body st)) = 202 \<longleftrightarrow>
    (\<exists>p. name = provider_as_str p \<and> authentic d p lookup body st \<and>
       fst (check now (lookup (delivery_header p)) (ss_deliveries st)) \<noteq> Duplicate \<and> asks_for_run d p lookup body st)) \<and>
    (status (fst (webhook d now run name hdrs body st)) = 202 \<longrightarrow>
       fst (webhook d now run name hdrs body st) = ack_accepted (id_to_canonical (cr_ulid d) run))"
proof (cases "provider_named name")
  case None
  then have "name \<noteq> provider_as_str p" for p using provider_named_iff [of name p] by simp
  then show ?thesis using None by (auto simp: webhook_def)
next
  case (Some p)
  then have name: "name = provider_as_str q \<longleftrightarrow> q = p" for q using provider_named_iff [of name q] by auto
  note ver = verify_authentic [OF assms(2), of p lookup body st]
  show ?thesis
  proof (cases "verify (cr_hex d) (cr_hmac d) p lookup body (map_option bytes_of (webhook_secret st p))")
    case (Inl e)
    then show ?thesis using Some name ver by (auto simp: webhook_def lookup_def [symmetric] Let_def verify_status_not_202)
  next
    case (Inr v)
    obtain dl g where ck: "check now (lookup (delivery_header p)) (ss_deliveries st) = (dl, g)" by fastforce
    have w: "fst (webhook d now run name hdrs body st) = (if dl = Duplicate then ack_ignored ''duplicate delivery''
        else parse_and_dispatch d run p lookup body v (st\<lparr>ss_deliveries := g\<rparr>))"
      using Inr Some ck by (simp add: webhook_def lookup_def [symmetric] Let_def lookup_delivery_def)
    have "status (parse_and_dispatch d run p lookup body v (st\<lparr>ss_deliveries := g\<rparr>)) = 202 \<longleftrightarrow> asks_for_run d p lookup body st"
      unfolding parse_and_dispatch_202 asks_for_run_def by simp
    then show ?thesis using w name ck ver Inr parse_and_dispatch_accepts by (cases "dl = Duplicate") auto
  qed
qed

theorem webhook_accepts_exactly_witness:
  "status (fst (webhook example_crates 5 7 ''gitlab'' (hr_headers (example_request 5)) [123] example_state)) = 202 \<and>
   authentic example_crates GitLab (headers_from (cr_to_str example_crates) (hr_headers (example_request 5))) [123] example_state"
proof -
  note run = example_accepted
  have "hmac_ok (cr_hmac example_crates)" by (simp add: example_crates_def hmac_ref_ok)
  from webhook_accepts_exactly [OF this, of 5 7 "''gitlab''" "hr_headers (example_request 5)" "[123]" example_state] run
  obtain p where p: "''gitlab'' = provider_as_str p"
    "authentic example_crates p (headers_from (cr_to_str example_crates) (hr_headers (example_request 5))) [123] example_state"
    by blast
  from p(1) have "p = GitLab" by (cases p) simp_all
  then show ?thesis using run p(2) by simp
qed

text \<open>C18: Only authenticated deliveries reach the state. A request changes the server at most by the replay check of
  an authentic webhook delivery within the body limit; every other request, oversized, unsigned,
  wrongly signed or to another route, leaves it as it was and starts no run, and
  a body over the limit is answered 413 before any handler sees it.\<close>

theorem only_authentic_deliveries_matter:
  assumes "hmac_ok (cr_hmac d)"
  shows "(snd (router d r st) \<noteq> st \<or> status (fst (router d r st)) = 202 \<longrightarrow>
      (\<exists>p. hr_route r = WebhookRoute (provider_as_str p) \<and> length (hr_body r) \<le> MAX_BODY_BYTES \<and>
        authentic d p (headers_from (cr_to_str d) (hr_headers r)) (hr_body r) st \<and>
        snd (router d r st) = st\<lparr>ss_deliveries := snd (check (hr_now r)
          (headers_from (cr_to_str d) (hr_headers r) (delivery_header p)) (ss_deliveries st))\<rparr>)) \<and>
    (length (hr_body r) > MAX_BODY_BYTES \<longrightarrow> hr_route r = Healthz \<or> status (fst (router d r st)) = 413)"
proof (cases "request_check d (ss_secrets st) r")
  case None
  then show ?thesis using router_no_check [OF None] by (cases "hr_route r") (auto simp: router_def)
next
  case (Some c)
  then obtain name p where *: "hr_route r = WebhookRoute name" "provider_named name = Some p" "length (hr_body r) \<le> MAX_BODY_BYTES"
    "is_ok (verify (cr_hex d) (cr_hmac d) p (headers_from (cr_to_str d) (hr_headers r)) (hr_body r)
       (map_option bytes_of (webhook_secret st p)))"
    "c = (hr_now r, headers_from (cr_to_str d) (hr_headers r) (delivery_header p))"
    by (auto simp: request_check_def Let_def webhook_secret_def split: Route.splits option.splits if_splits)
  then show ?thesis
    using router_check [of d st r "fst c" "snd c"] Some verify_authentic [OF assms] provider_named_iff [of name p]
    by (cases "check (fst c) (snd c) (ss_deliveries st)") auto
qed

lemma example_router:
  "router example_crates (example_request now) st =
    webhook example_crates now 7 ''gitlab'' (hr_headers (example_request now)) [123] st"
  using example_limit [of now] by (simp add: router_def example_request_def)

theorem only_authentic_deliveries_matter_witness:
  "status (fst (router example_crates (example_request 5) example_state)) = 202 \<and>
   authentic example_crates GitLab (headers_from (cr_to_str example_crates) (hr_headers (example_request 5))) [123] example_state"
proof -
  note run = example_accepted
  have "hmac_ok (cr_hmac example_crates)" by (simp add: example_crates_def hmac_ref_ok)
  from only_authentic_deliveries_matter [OF this, of "example_request 5" example_state] run
  obtain p where p: "WebhookRoute ''gitlab'' = WebhookRoute (provider_as_str p)"
    "authentic example_crates p (headers_from (cr_to_str example_crates) (hr_headers (example_request 5))) [123] example_state"
    unfolding example_router by (auto simp: example_request_def)
  from p(1) have "p = GitLab" by (cases p) simp_all
  then show ?thesis using run p(2) by (simp add: example_router)
qed

text \<open>C5: A redelivery starts no second run, within the bounds of the guard. After an authentic delivery with a non-empty
  identifier of at most 200 characters was accepted, a later one with that identifier is acknowledged as a duplicate,
  if it and all requests served in between come before the time to live has passed, and there are no more of the
  latter than the guard has room for beside its live entries. Past these bounds the guard forgets the identifier, or never records
  it, and a redelivery may start a second run.\<close>

theorem redelivery_starts_no_second_run:
  assumes "server_run d st (r1 # rs @ [r2]) (x1 # xs @ [x2]) st'" "length xs = length rs" "status x1 = 202"
    and "guard_wf (ss_deliveries st)" "k \<noteq> ''''" "length k \<le> 200"
    and "request_check d (ss_secrets st) r1 = Some (t, Some k)" "request_check d (ss_secrets st) r2 = Some (t', Some k)"
    and "list_all (\<lambda>r. hr_now r - t < dg_ttl (ss_deliveries st)) rs" "t' - t < dg_ttl (ss_deliveries st)"
    and "recent t (dg_seen (ss_deliveries st)) + Suc (length rs) \<le> dg_capacity (ss_deliveries st)"
  shows "x2 = ack_ignored ''duplicate delivery''"
proof -
  from assms(1) obtain g st1 where g: "reordered (ss_deliveries st) g" and r1: "router d r1 (st\<lparr>ss_deliveries := g\<rparr>) = (x1, st1)"
    and run: "server_run d st1 (rs @ [r2]) (xs @ [x2]) st'" by (auto elim!: server_run_ConsE)
  note R = reorderedD [OF g] recent_reordered [OF g, of t]
  obtain dl h where ck: "check t (Some k) g = (dl, h)" by fastforce
  have st1: "st1 = st\<lparr>ss_deliveries := h\<rparr>" and "dl \<noteq> Duplicate"
    using router_check [of d "st\<lparr>ss_deliveries := g\<rparr>" r1 t "Some k" dl h] r1 assms(3,7) ck by auto
  then have "(k, t) \<in> set (dg_seen h)"
    using ck assms(5,6) by (auto simp: check_def check_seen_alt seen_insert_def split: if_splits)
  moreover have h: "h = snd (check t (Some k) g)" using ck by simp
  moreover have "recent t (dg_seen h) \<le> Suc (recent t (dg_seen (ss_deliveries st)))"
    using recent_check [of t t "Some k" g] R(6) h by simp
  moreover have "guard_wf h" "dg_ttl h = dg_ttl (ss_deliveries st)" "dg_capacity h = dg_capacity (ss_deliveries st)"
    using check_wf [of g t "Some k"] check_config [of t "Some k" g] R assms(4) h by simp_all
  moreover obtain st2 where mid: "server_run d st1 rs xs st2" and last: "server_run d st2 [r2] [x2] st'"
    using server_run_appendE [OF run] assms(2) by (metis append_eq_append_conv)
  ultimately have kept: "guard_wf (ss_deliveries st2) \<and> (k, t) \<in> set (dg_seen (ss_deliveries st2)) \<and>
      dg_ttl (ss_deliveries st2) = dg_ttl (ss_deliveries st)" and sec: "ss_secrets st2 = ss_secrets st"
    using server_run_keeps [OF mid, of k t] assms(9,11) st1 by auto
  from last obtain g2 st3 where g2: "reordered (ss_deliveries st2) g2" "router d r2 (st2\<lparr>ss_deliveries := g2\<rparr>) = (x2, st3)"
    by (auto elim!: server_run_ConsE)
  have "fst (check t' (Some k) g2) = Duplicate"
    using reorderedD [OF g2(1)] kept assms(5,6,10) by (intro check_duplicate [where t = t]) auto
  then show ?thesis
    using router_check [of d "st2\<lparr>ss_deliveries := g2\<rparr>" r2 t' "Some k"] g2(2) assms(8) sec
    by (cases "check t' (Some k) g2") simp
qed

lemma example_check: "request_check example_crates (ss_secrets example_state) (example_request now) = Some (now, Some ''u1'')"
proof -
  let ?h = "headers_from (cr_to_str example_crates) (hr_headers (example_request 0))"
  have "is_ok (verify (cr_hex example_crates) (cr_hmac example_crates) GitLab ?h [123]
      (map_option bytes_of (secrets_get (ss_secrets example_state) GitLab)))" by code_simp
  moreover have "?h (delivery_header GitLab) = Some ''u1''" by code_simp
  moreover have "hr_headers (example_request now) = hr_headers (example_request 0)" "hr_body (example_request now) = [123]"
    "hr_route (example_request now) = WebhookRoute ''gitlab''" "hr_now (example_request now) = now"
    by (simp_all add: example_request_def)
  ultimately show ?thesis using example_limit [of now] by (simp add: request_check_def provider_named_def)
qed

theorem redelivery_starts_no_second_run_witness:
  "\<exists>x1 x2 st'. server_run example_crates example_state [example_request 5, example_request 9] [x1, x2] st' \<and>
     status x1 = 202 \<and> x2 = ack_ignored ''duplicate delivery''"
proof -
  obtain x1 st1 where r1: "router example_crates (example_request 5) example_state = (x1, st1)" by fastforce
  obtain x2 st2 where r2: "router example_crates (example_request 9) st1 = (x2, st2)" by fastforce
  have x1: "status x1 = 202" using example_accepted r1 by (simp add: example_router)
  have "reordered (ss_deliveries s) (ss_deliveries s)" for s by (simp add: reordered_def)
  then have run: "server_run example_crates example_state (example_request 5 # [] @ [example_request 9]) (x1 # [] @ [x2]) st2"
    using r1 r2 by (auto intro!: serve [where g = "ss_deliveries _"] served_all)
  have g: "ss_deliveries example_state = guard_new 100 8" by (simp add: example_state_def map_repo_def)
  have "x2 = ack_ignored ''duplicate delivery''"
    by (rule redelivery_starts_no_second_run [OF run _ x1 _ _ _ example_check example_check])
      (simp_all add: g guard_new_def guard_wf_def recent_def)
  then show ?thesis using run x1 by auto
qed

text \<open>No request to the API trigger starts a run in this build: tokens are never recognized, so
  the route answers 400 for a token over the limit and 401 otherwise, whatever the body, and changes nothing.\<close>

theorem api_trigger_is_closed:
  "snd (trigger d run hdrs body st) = st \<and>
   status (fst (trigger d run hdrs body st)) =
     (case bearer (cr_to_str d) hdrs of Some token \<Rightarrow> if length token > MAX_TOKEN_LEN then 400 else 401 | None \<Rightarrow> 401)"
  by (auto simp: trigger_def authenticate_token_not_Inr split: option.split sum.split)

end
