(* ===== verification/Jet_Jrp.thy ===== *)
theory Jet_Jrp
  imports Jet_Conn Jet_Server
begin

text \<open>
  The internal listener (\<open>crates/jet-server/src/jrp.rs\<close>): one session from the handshake to its end,
  the accept loop, and the shutdown of both listeners (\<open>crates/jet-server/src/lib.rs\<close>) with the wait of \<open>axum\<close> for its
  open connections. The loop of a session is
  a recursive function: every turn that does not end it has consumed a frame header, so it
  terminates on the bytes the peer delivers.
\<close>

section \<open>Sessions\<close>

record Session =
  se_conn :: JrpConn
  se_authenticated :: bool
  se_peer :: string

datatype SessionError = SConn ConnError | SCodec CodecError

definition on_conn :: "(JrpConn, ConnError, 'a) act \<Rightarrow> (Session, SessionError, 'a) act" where
  "on_conn m s =
     (case m (se_conn s) of
        (Inl e, c) \<Rightarrow> (Inl (SConn e), s\<lparr>se_conn := c\<rparr>)
      | (Inr x, c) \<Rightarrow> (Inr x, s\<lparr>se_conn := c\<rparr>))"

definition session_codec :: "CodecError + 'a \<Rightarrow> SessionError + 'a" where
  "session_codec r = (case r of Inl e \<Rightarrow> Inl (SCodec e) | Inr x \<Rightarrow> Inr x)"

definition refuse :: "rkyv_crate \<Rightarrow> 32 word \<Rightarrow> 16 word \<Rightarrow> string \<Rightarrow> (Session, SessionError, bool) act" where
  "refuse k sid code message = abind (on_conn (send_error k sid code message)) (\<lambda>_. aret False)"

definition auth_ok_message :: AuthOk where
  "auth_ok_message = \<lparr>ao_org = '''', ao_principal_kind = ''service_account'', ao_principal_id = '''', ao_permissions = []\<rparr>"

text \<open>A frame in the loop; the result says whether the session is over. In Rust the type of \<open>frame.decode\<close> is
  static; here the payload is matched, and the branch for another type cannot be taken.\<close>

definition serve_auth :: "rkyv_crate \<Rightarrow> 32 word \<Rightarrow> Auth \<Rightarrow> (Session, SessionError, bool) act" where
  "serve_auth k sid auth =
     (case auth_validate auth of
        Inl e \<Rightarrow> refuse k sid code_BAD_REQUEST (invalid_display e)
      | Inr _ \<Rightarrow>
          (case authenticate_token (au_token auth) of
             Inr _ \<Rightarrow>
               abind (amodify (\<lambda>s. s\<lparr>se_authenticated := True\<rparr>)) (\<lambda>_.
               abind (on_conn (send k MT_AuthOk sid (PAuthOk auth_ok_message) END_STREAM)) (\<lambda>_.
               aret False))
           | Inl e \<Rightarrow> refuse k sid code_UNAUTHENTICATED ''authentication failed''))"

definition serve_frame :: "rkyv_crate \<Rightarrow> Frame \<Rightarrow> (Session, SessionError, bool) act" where
  "serve_frame k frame =
     abind (agets se_authenticated) (\<lambda>authenticated.
     let sid = frame_stream_id frame in
     if \<not> authenticated \<and> \<not> allowed_preauth (frame_msg_type frame) then
       refuse k sid code_AUTH_REQUIRED ''authenticate before issuing this request''
     else
       (case frame_msg_type frame of
          MT_Ping \<Rightarrow>
            abind (alift (session_codec (frame_decode k MT_Ping frame))) (\<lambda>p.
            case p of
              PPing pg \<Rightarrow>
                abind (on_conn (send k MT_Pong sid (PPong \<lparr>po_nonce = pi_nonce pg\<rparr>) NONE)) (\<lambda>_. aret False)
            | _ \<Rightarrow> athrow (SCodec (CodecDecode '''')))
        | MT_Auth \<Rightarrow>
            abind (alift (session_codec (frame_decode k MT_Auth frame))) (\<lambda>p.
            case p of PAuth auth \<Rightarrow> serve_auth k sid auth | _ \<Rightarrow> athrow (SCodec (CodecDecode '''')))
        | MT_SubmitRun \<Rightarrow>
            abind (alift (session_codec (frame_decode k MT_SubmitRun frame))) (\<lambda>p.
            case p of
              PSubmitRun sub \<Rightarrow>
                (case submit_run_validate sub of
                   Inl e \<Rightarrow> refuse k sid code_BAD_REQUEST (invalid_display e)
                 | Inr _ \<Rightarrow> refuse k sid code_INTERNAL ''run submission is not wired up yet'')
            | _ \<Rightarrow> athrow (SCodec (CodecDecode '''')))
        | MT_GetRun \<Rightarrow> refuse k sid code_INTERNAL ''not implemented yet''
        | MT_CancelRun \<Rightarrow> refuse k sid code_INTERNAL ''not implemented yet''
        | MT_TailLogs \<Rightarrow> refuse k sid code_INTERNAL ''not implemented yet''
        | MT_CasQuery \<Rightarrow> refuse k sid code_INTERNAL ''not implemented yet''
        | MT_Goodbye \<Rightarrow> aret True
        | other \<Rightarrow> refuse k sid code_BAD_REQUEST (msg_debug other @ '' is not valid from a client'')))"

definition session_turn :: "rkyv_crate \<Rightarrow> (Session, SessionError, bool) act" where
  "session_turn k =
     atry (on_conn recv) (\<lambda>r.
     case r of
       Inr frame \<Rightarrow> serve_frame k frame
     | Inl (SConn (ConnIo e)) \<Rightarrow>
         if e = UnexpectedEof \<or> e = ConnectionReset then aret True else athrow (SConn (ConnIo e))
     | Inl e \<Rightarrow> athrow e)"

section \<open>Sending and receiving leave the rest alone\<close>

text \<open>Sending changes the written bytes and the coming faults.\<close>

definition tx_only :: "JrpConn \<Rightarrow> JrpConn \<Rightarrow> bool" where
  "tx_only c c' \<longleftrightarrow> (\<exists>x f. c' = c\<lparr>jc_stream := (jc_stream c)\<lparr>tx := x, tx_fault := f\<rparr>\<rparr>)"

definition rx_only :: "JrpConn \<Rightarrow> JrpConn \<Rightarrow> bool" where
  "rx_only c c' \<longleftrightarrow> (\<exists>x. c' = c\<lparr>jc_stream := (jc_stream c)\<lparr>rx := x\<rparr>\<rparr>)"

lemma tx_only_refl: "tx_only c c"
  unfolding tx_only_def by (intro exI [of _ "tx (jc_stream c)"] exI [of _ "tx_fault (jc_stream c)"]) simp

lemma rx_only_refl: "rx_only c c"
  unfolding rx_only_def by (intro exI [of _ "rx (jc_stream c)"]) simp

lemma tx_onlyD: "tx_only c c' \<Longrightarrow> rx (jc_stream c') = rx (jc_stream c) \<and> jc_version c' = jc_version c"
  by (auto simp: tx_only_def)

lemma rx_onlyD: "rx_only c c' \<Longrightarrow> tx (jc_stream c') = tx (jc_stream c) \<and> jc_version c' = jc_version c"
  by (auto simp: rx_only_def)

lemma rx_only_trans: "rx_only c d \<Longrightarrow> rx_only d e \<Longrightarrow> rx_only c e"
  by (auto simp: rx_only_def)

text \<open>What a send does, failing or not: it writes the frame, or a part of it when the write fails.\<close>

lemma send_cases:
  assumes "send k t sid p fl c = (r, c')"
  obtains (encode) "c' = c" "\<not> is_ok r"
    | (wrote) bs n where "msg_encode k p = Inr bs" "length bs \<le> unat MAX_PAYLOAD" "tx_only c c'"
        "tx (jc_stream c') = tx (jc_stream c) @ take n (wire (frame_of (jc_version c) t sid fl bs))"
        "is_ok r \<longrightarrow> length (wire (frame_of (jc_version c) t sid fl bs)) \<le> n"
proof (cases "msg_encode k p")
  case (Inl e)
  then show ?thesis using that(1) assms by (auto simp: send_def codec_err_def abind_def)
next
  case (Inr bs)
  show ?thesis
  proof (cases "length bs \<le> unat MAX_PAYLOAD")
    case False
    then show ?thesis using that(1) assms Inr by (auto simp: send_def codec_err_def abind_def fits_iff)
  next
    case True
    let ?w = "wire (frame_of (jc_version c) t sid fl bs)"
    have run: "on_stream (write_all_flush ?w) c = (r, c')"
      using assms Inr True
      by (simp add: send_def codec_err_def abind_def fits_iff Let_def wire_def frame_of_def header_new_def)
    obtain r1 s1 where w: "write_all_flush ?w (jc_stream c) = (r1, s1)" by fastforce
    then obtain n where n: "tx s1 = tx (jc_stream c) @ take n ?w" "is_ok r1 \<longrightarrow> length ?w \<le> n"
      "s1 = (jc_stream c)\<lparr>tx := tx s1, tx_fault := tx_fault s1\<rparr>"
    proof (cases "\<exists>m e fs. tx_fault (jc_stream c) = Some (m, e) # fs")
      case True
      then show ?thesis using that w by (auto simp: write_all_flush_def)
    next
      case False
      then have "r1 = Inr ()" "s1 = (jc_stream c)\<lparr>tx := tx (jc_stream c) @ ?w, tx_fault := tl (tx_fault (jc_stream c))\<rparr>"
        using w by (auto simp: write_all_flush_def split: list.splits option.splits)
      then show ?thesis using that [of "length ?w"] by simp
    qed
    have c': "c' = c\<lparr>jc_stream := s1\<rparr>" "is_ok r = is_ok r1"
      using run w by (auto simp: on_stream_def split: sum.splits)
    then have "tx_only c c'" using n(3) unfolding tx_only_def by metis
    then show ?thesis using that(2) [OF Inr True, of n] n c' by simp
  qed
qed

lemma recv_only:
  assumes "recv c = (r, c')"
  shows "rx_only c c' \<and> (is_ok r \<longrightarrow> length (rx (jc_stream c')) + 16 \<le> length (rx (jc_stream c)))"
proof (cases r)
  case (Inr f)
  then have "rx (jc_stream c) = wire f @ rx (jc_stream c')" "rx_only c c'"
    using recv_sound [of c f c'] assms unfolding rx_only_def by auto
  moreover have "16 \<le> length (wire f)" by (simp add: wire_def HEADER_LEN_def)
  ultimately show ?thesis by simp
next
  case (Inl e)
  have rd: "on_stream (read_exact n) d = (q, d') \<Longrightarrow> rx_only d d'" for n d q d'
    by (auto simp: on_stream_def read_exact_def rx_only_def split: if_splits)
  show ?thesis
    using assms Inl unfolding recv_def
    by (auto elim!: abindE dest!: rd intro: rx_only_trans rx_only_refl split: if_splits sum.splits)
qed

lemma on_connE:
  assumes "on_conn m s = (r, s')"
  obtains q c where "m (se_conn s) = (q, c)" "s' = s\<lparr>se_conn := c\<rparr>" "is_ok r = is_ok q"
  using assms by (cases "m (se_conn s)") (auto simp: on_conn_def split: sum.splits)

definition conn_tx_only :: "Session \<Rightarrow> Session \<Rightarrow> bool" where
  "conn_tx_only s s' \<longleftrightarrow> tx_only (se_conn s) (se_conn s')"

lemma conn_tx_only_refl [simp]: "conn_tx_only s s"
  by (simp add: conn_tx_only_def tx_only_refl)

lemma send_tx_only: "on_conn (send k t sid p fl) s = (r, s') \<Longrightarrow> conn_tx_only s s'"
  by (auto simp: conn_tx_only_def tx_only_refl elim!: on_connE elim: send_cases)

lemma refuse_tx_only: "refuse k sid code message s = (r, s') \<Longrightarrow> conn_tx_only s s'"
  by (auto simp: refuse_def send_error_def elim!: abindE dest: send_tx_only)

lemma serve_auth_tx_only: "serve_auth k sid auth s = (r, s') \<Longrightarrow> conn_tx_only s s'"
  by (auto simp: serve_auth_def authenticate_token_not_Inr split: sum.splits dest: refuse_tx_only)

lemma serve_frame_tx_only: "serve_frame k frame s = (r, s') \<Longrightarrow> conn_tx_only s s'"
  unfolding serve_frame_def Let_def
  by (auto elim!: abindE split: if_splits MsgType.splits Payload.splits sum.splits
      dest!: refuse_tx_only serve_auth_tx_only send_tx_only)

text \<open>A turn that leaves the session open has read a frame.\<close>

lemma session_turn_consumes:
  assumes "session_turn k s = (Inr False, s')"
  shows "length (rx (jc_stream (se_conn s'))) + 16 \<le> length (rx (jc_stream (se_conn s)))"
proof -
  obtain r s1 where r: "on_conn recv s = (r, s1)" by fastforce
  then obtain q c where q: "recv (se_conn s) = (q, c)" "s1 = s\<lparr>se_conn := c\<rparr>" "is_ok r = is_ok q"
    by (rule on_connE)
  show ?thesis
  proof (cases r)
    case (Inl e)
    then show ?thesis
      using assms r by (auto simp: session_turn_def atry_def split: SessionError.splits ConnError.splits if_splits)
  next
    case (Inr f)
    then have "serve_frame k f s1 = (Inr False, s')" using assms r by (simp add: session_turn_def atry_def)
    from tx_onlyD [OF serve_frame_tx_only [OF this, unfolded conn_tx_only_def]] recv_only [OF q(1)] q Inr
    show ?thesis by simp
  qed
qed

function session_loop :: "rkyv_crate \<Rightarrow> (Session, SessionError, unit) act" where
  "session_loop k s =
     (case session_turn k s of
        (Inl e, s') \<Rightarrow> (Inl e, s')
      | (Inr over, s') \<Rightarrow> if over then (Inr (), s') else session_loop k s')"
  by auto

termination session_loop
proof (relation "measure (\<lambda>(k, s). length (rx (jc_stream (se_conn s))))")
  fix k s x y b
  assume "(x, y) = session_turn k s" "x = Inr b" "\<not> b"
  then have "session_turn k s = (Inr False, y)" by auto
  from session_turn_consumes [OF this]
  show "((k, y), k, s) \<in> measure (\<lambda>(k, s). length (rx (jc_stream (se_conn s))))" by simp
qed simp

declare session_loop.simps [simp del]

definition handle :: "rkyv_crate \<Rightarrow> string \<Rightarrow> string \<Rightarrow> TcpStream \<Rightarrow> string \<Rightarrow> (SessionError + unit) \<times> Session" where
  "handle k pkg_version session_id sock peer =
     (case conn_server sock of (conn, report) \<Rightarrow>
        abind (on_conn (server_handshake k (''jetrun-server/'' @ pkg_version) session_id)) (\<lambda>hello. session_loop k)
          \<lparr>se_conn = conn, se_authenticated = False, se_peer = peer\<rparr>)"

section \<open>What an unauthenticated session answers\<close>

definition error_out :: "32 word \<Rightarrow> 16 word \<Rightarrow> string \<Rightarrow> outgoing" where
  "error_out sid code message = (MT_Error, sid, PErrorMsg \<lparr>em_code = code, em_message = message\<rparr>, END_STREAM)"

text \<open>The answer to a frame: none ends the session.\<close>

definition answer_to :: "rkyv_crate \<Rightarrow> Frame \<Rightarrow> CodecError + outgoing option" where
  "answer_to k frame =
     (let t = frame_msg_type frame; sid = frame_stream_id frame in
      if \<not> allowed_preauth t then Inr (Some (error_out sid code_AUTH_REQUIRED ''authenticate before issuing this request''))
      else if t = MT_Goodbye then Inr None
      else if t = MT_Ping then
        rbind (frame_decode k t frame) (\<lambda>p.
        case p of PPing pg \<Rightarrow> Inr (Some (MT_Pong, sid, PPong \<lparr>po_nonce = pi_nonce pg\<rparr>, NONE)) | _ \<Rightarrow> Inl (CodecDecode ''''))
      else if t = MT_Auth then
        rbind (frame_decode k t frame) (\<lambda>p.
        case p of
          PAuth a \<Rightarrow> Inr (Some (case auth_validate a of
              Inl e \<Rightarrow> error_out sid code_BAD_REQUEST (invalid_display e)
            | Inr _ \<Rightarrow> error_out sid code_UNAUTHENTICATED ''authentication failed''))
        | _ \<Rightarrow> Inl (CodecDecode ''''))
      else Inr (Some (error_out sid code_BAD_REQUEST (msg_debug t @ '' is not valid from a client''))))"

definition send_out :: "rkyv_crate \<Rightarrow> outgoing \<Rightarrow> (Session, SessionError, bool) act" where
  "send_out k m = (case m of (t, sid, p, fl) \<Rightarrow> abind (on_conn (send k t sid p fl)) (\<lambda>_. aret False))"

lemma refuse_out: "refuse k sid code message = send_out k (error_out sid code message)"
  by (simp add: refuse_def send_error_def send_out_def error_out_def)

lemma serve_frame_answer:
  assumes "\<not> se_authenticated s"
  shows "serve_frame k frame s =
    (case answer_to k frame of
       Inl e \<Rightarrow> (Inl (SCodec e), s) | Inr None \<Rightarrow> (Inr True, s) | Inr (Some m) \<Rightarrow> send_out k m s)"
proof (cases "allowed_preauth (frame_msg_type frame)")
  case False
  then show ?thesis using assms by (simp add: serve_frame_def answer_to_def refuse_out)
next
  case True
  then show ?thesis
    using assms
    by (cases "frame_msg_type frame"; cases "frame_decode k (frame_msg_type frame) frame")
      (auto simp: serve_frame_def answer_to_def refuse_out allowed_preauth_def session_codec_def abind_def
        serve_auth_def authenticate_token_not_Inr send_out_def split: Payload.split sum.split)
qed

section \<open>The loop\<close>

definition session_step :: "rkyv_crate \<Rightarrow> Session \<Rightarrow> Session \<Rightarrow> bool" where
  "session_step k s t \<longleftrightarrow> session_turn k s = (Inr False, t)"

lemma session_loop_cases:
  assumes "session_loop k s = (r, s')"
  obtains (over) "session_turn k s = (Inr True, s')" "r = Inr ()"
    | (err) e where "session_turn k s = (Inl e, s')" "r = Inl e"
    | (more) t where "session_turn k s = (Inr False, t)" "session_loop k t = (r, s')"
proof -
  obtain q t where t: "session_turn k s = (q, t)" by fastforce
  show ?thesis
    using assms that t by (subst (asm) session_loop.simps) (auto split: sum.splits if_splits)
qed

lemma session_loop_step: "session_turn k s = (Inr False, t) \<Longrightarrow> session_loop k s = session_loop k t"
  by (subst session_loop.simps) simp

text \<open>A turn of an unauthenticated session, by the frame it reads.\<close>

lemma session_turn_frame:
  assumes "recv (se_conn s) = (Inr frame, c)" "\<not> se_authenticated s"
  shows "session_turn k s =
    (case answer_to k frame of
       Inl e \<Rightarrow> (Inl (SCodec e), s\<lparr>se_conn := c\<rparr>)
     | Inr None \<Rightarrow> (Inr True, s\<lparr>se_conn := c\<rparr>)
     | Inr (Some m) \<Rightarrow> send_out k m (s\<lparr>se_conn := c\<rparr>))"
  using assms serve_frame_answer [of "s\<lparr>se_conn := c\<rparr>" k frame]
  by (simp add: session_turn_def atry_def on_conn_def)

lemma session_turn_closed:
  assumes "recv (se_conn s) = (Inl e, c)"
  shows "session_turn k s =
    (if e = ConnIo UnexpectedEof \<or> e = ConnIo ConnectionReset then Inr True else Inl (SConn e), s\<lparr>se_conn := c\<rparr>)"
  using assms by (cases e) (simp_all add: session_turn_def atry_def on_conn_def)

text \<open>What a session that never authenticates may write: pongs, and errors that say why it refuses. None of them has the code
  \<open>INTERNAL\<close> of the handlers behind the gate.\<close>

definition refusal_codes :: "16 word set" where
  "refusal_codes = {code_AUTH_REQUIRED, code_BAD_REQUEST, code_UNAUTHENTICATED}"

fun ungated :: "outgoing \<Rightarrow> bool" where
  "ungated (t, sid, p, fl) \<longleftrightarrow>
     (\<exists>n. (t, p, fl) = (MT_Pong, PPong \<lparr>po_nonce = n\<rparr>, NONE)) \<or>
     (\<exists>code message. code \<in> refusal_codes \<and> (t, p, fl) = (MT_Error, PErrorMsg \<lparr>em_code = code, em_message = message\<rparr>, END_STREAM))"

definition reply_frame :: "rkyv_crate \<Rightarrow> Frame \<Rightarrow> bool" where
  "reply_frame k f \<longleftrightarrow> (\<exists>ver t sid p fl bs. ungated (t, sid, p, fl) \<and> msg_encode k p = Inr bs \<and> f = frame_of ver t sid fl bs)"

text \<open>After the bytes \<open>b\<close> it has written such frames, and a part of one where a write failed.\<close>

definition replies_only :: "rkyv_crate \<Rightarrow> bytes \<Rightarrow> bytes \<Rightarrow> bool \<Rightarrow> bool" where
  "replies_only k b b' whole \<longleftrightarrow>
     (\<exists>fs part. b' = b @ concat (map wire fs) @ part \<and> list_all (reply_frame k) fs \<and> (whole \<longrightarrow> part = []))"

lemma replies_only_refl: "replies_only k b b w"
  unfolding replies_only_def by (intro exI [of _ "[]"]) simp

lemma replies_only_part: "replies_only k b (b @ part) False"
  unfolding replies_only_def by (intro exI [of _ "[]"] exI [of _ part]) simp

lemma replies_only_trans: "replies_only k b b1 True \<Longrightarrow> replies_only k b1 b2 w \<Longrightarrow> replies_only k b b2 w"
  unfolding replies_only_def by (metis (no_types, lifting) append.assoc append_Nil2 concat_append list_all_append map_append)

lemma answer_to_ungated: "answer_to k frame = Inr (Some m) \<Longrightarrow> ungated m"
  by (auto simp: answer_to_def Let_def error_out_def rbind_def refusal_codes_def split: if_splits sum.splits Payload.splits)

lemma send_out_replies:
  assumes "send_out k (t, sid, p, fl) s = (r, s')" "ungated (t, sid, p, fl)"
  shows "se_authenticated s' = se_authenticated s \<and>
    replies_only k (tx (jc_stream (se_conn s))) (tx (jc_stream (se_conn s'))) (is_ok r)"
proof -
  obtain q c where q: "send k t sid p fl (se_conn s) = (q, c)" by fastforce
  then have s': "s' = s\<lparr>se_conn := c\<rparr>" "is_ok r = is_ok q"
    using assms(1) by (auto simp: send_out_def on_conn_def abind_def split: sum.splits)
  have "replies_only k (tx (jc_stream (se_conn s))) (tx (jc_stream c)) (is_ok q)"
    using q
  proof (cases rule: send_cases)
    case encode
    then show ?thesis by (simp add: replies_only_refl)
  next
    case (wrote bs n)
    let ?f = "frame_of (jc_version (se_conn s)) t sid fl bs"
    show ?thesis
    proof (cases "is_ok q")
      case True
      then have "tx (jc_stream c) = tx (jc_stream (se_conn s)) @ wire ?f" using wrote by simp
      moreover have "reply_frame k ?f" using assms(2) wrote(1) unfolding reply_frame_def by blast
      ultimately show ?thesis unfolding replies_only_def by (intro exI [of _ "[?f]"] exI [of _ "[]"]) simp
    next
      case False
      then show ?thesis using wrote(4) by (simp add: replies_only_part)
    qed
  qed
  then show ?thesis using s' by simp
qed

lemma session_turn_unauthenticated:
  assumes "session_turn k s = (r, s')" "\<not> se_authenticated s"
  shows "\<not> se_authenticated s' \<and> replies_only k (tx (jc_stream (se_conn s))) (tx (jc_stream (se_conn s'))) (is_ok r)"
proof -
  obtain q c where q: "recv (se_conn s) = (q, c)" by fastforce
  have tx: "tx (jc_stream c) = tx (jc_stream (se_conn s))" using recv_only [OF q] rx_onlyD by blast
  show ?thesis
  proof (cases q)
    case (Inl e)
    then show ?thesis using session_turn_closed [of s e c k] q assms tx by (auto simp: replies_only_refl)
  next
    case (Inr f)
    note T = session_turn_frame [OF q [unfolded Inr] assms(2), of k]
    show ?thesis
    proof (cases "\<exists>m. answer_to k f = Inr (Some m)")
      case True
      then obtain t sid p fl where m: "answer_to k f = Inr (Some (t, sid, p, fl))" by auto
      then have "send_out k (t, sid, p, fl) (s\<lparr>se_conn := c\<rparr>) = (r, s')" using T assms(1) by simp
      from send_out_replies [OF this answer_to_ungated [OF m]] show ?thesis using tx assms(2) by simp
    next
      case False
      then show ?thesis using T assms tx by (auto simp: replies_only_refl split: sum.splits option.splits)
    qed
  qed
qed


lemma session_loop_unauthenticated:
  "session_loop k s = (r, s') \<Longrightarrow> \<not> se_authenticated s \<Longrightarrow>
    \<not> se_authenticated s' \<and> replies_only k (tx (jc_stream (se_conn s))) (tx (jc_stream (se_conn s'))) (is_ok r)"
proof (induction k s rule: session_loop.induct)
  case (1 k s)
  from 1(2) show ?case
  proof (cases rule: session_loop_cases)
    case over
    then show ?thesis using session_turn_unauthenticated [OF over(1) 1(3)] by simp
  next
    case (err e)
    then show ?thesis using session_turn_unauthenticated [OF err(1) 1(3)] by simp
  next
    case (more t)
    note T = session_turn_unauthenticated [OF more(1) 1(3)]
    have "\<not> se_authenticated s' \<and> replies_only k (tx (jc_stream (se_conn t))) (tx (jc_stream (se_conn s'))) (is_ok r)"
      using 1(1) [of "Inr False" t False] more T by simp
    then show ?thesis using T replies_only_trans by auto
  qed
qed

lemma session_loop_turns:
  "session_loop k s = (r, s') \<Longrightarrow> \<exists>n t. 16 * n \<le> length (rx (jc_stream (se_conn s))) \<and> (session_step k ^^ n) s t \<and>
    (session_turn k t = (Inr True, s') \<and> r = Inr () \<or> (\<exists>e. session_turn k t = (Inl e, s') \<and> r = Inl e))"
proof (induction k s rule: session_loop.induct)
  case (1 k s)
  from 1(2) show ?case
  proof (cases rule: session_loop_cases)
    case (more t)
    obtain n u where n: "16 * n \<le> length (rx (jc_stream (se_conn t)))" "(session_step k ^^ n) t u"
      "session_turn k u = (Inr True, s') \<and> r = Inr () \<or> (\<exists>e. session_turn k u = (Inl e, s') \<and> r = Inl e)"
      using 1(1) [of "Inr False" t False] more by auto
    have "(session_step k ^^ Suc n) s u"
      using n(2) more(1) by (intro relpowp_Suc_I2 [of _ s t]) (simp_all add: session_step_def)
    then show ?thesis using n session_turn_consumes [OF more(1)] by (intro exI [of _ "Suc n"] exI [of _ u]) simp
  qed (auto intro!: exI [of _ 0])
qed

section \<open>In order\<close>

text \<open>The answers to a sequence of frames: up to the first \<open>Goodbye\<close>.\<close>

primrec transcript :: "rkyv_crate \<Rightarrow> Frame list \<Rightarrow> outgoing list" where
  "transcript k [] = []"
| "transcript k (f # fs) = (case answer_to k f of Inr (Some m) \<Rightarrow> m # transcript k fs | _ \<Rightarrow> [])"

text \<open>Sending does not look at what is still to be read.\<close>

lemma send_rx_only:
  assumes "send k t sid p fl c = (Inr u, c')" "rx_only c d"
  obtains d' where "send k t sid p fl d = (Inr u, d')" "rx_only c' d'" "rx (jc_stream d') = rx (jc_stream d)"
proof -
  obtain x where d: "d = c\<lparr>jc_stream := (jc_stream c)\<lparr>rx := x\<rparr>\<rparr>" using assms(2) by (auto simp: rx_only_def)
  have "send k t sid p fl d = (Inr u, c'\<lparr>jc_stream := (jc_stream c')\<lparr>rx := x\<rparr>\<rparr>)"
    using assms(1) unfolding d send_def codec_err_def abind_def on_stream_def write_all_flush_def Let_def
    by (auto split: sum.splits if_splits list.splits option.splits)
  then show ?thesis using that [of "c'\<lparr>jc_stream := (jc_stream c')\<lparr>rx := x\<rparr>\<rparr>"] d by (auto simp: rx_only_def)
qed

lemma session_loop_transcript:
  assumes "list_all frame_ok fs" "list_all (\<lambda>f. is_ok (answer_to k f)) fs" "\<not> se_authenticated s"
    "rx_only c (se_conn s)" "rx (jc_stream (se_conn s)) = concat (map wire fs)"
    "rx_end (jc_stream c) = UnexpectedEof \<or> rx_end (jc_stream c) = ConnectionReset"
    "send_all k (transcript k fs) c = (Inr u, c')"
  shows "\<exists>s'. session_loop k s = (Inr (), s') \<and> rx_only c' (se_conn s')"
  using assms
proof (induction fs arbitrary: s c)
  case Nil
  have "rx_end (jc_stream (se_conn s)) = rx_end (jc_stream c)" using Nil.prems(4) by (auto simp: rx_only_def)
  then obtain e d where e: "recv (se_conn s) = (Inl (ConnIo e), d)" "e = UnexpectedEof \<or> e = ConnectionReset"
    using Nil.prems(5,6) by (auto simp: recv_def abind_def on_stream_def read_exact_def HEADER_LEN_def)
  then have "session_loop k s = (Inr (), s\<lparr>se_conn := d\<rparr>)"
    using session_turn_closed [OF e(1), of k] by (subst session_loop.simps) auto
  moreover have "rx_only c' d" using recv_only [OF e(1)] Nil.prems(4,7) rx_only_trans by auto
  ultimately show ?case by simp
next
  case (Cons f fs)
  have "recv (se_conn s) = (Inr f, (se_conn s)\<lparr>jc_stream := (jc_stream (se_conn s))\<lparr>rx := concat (map wire fs)\<rparr>\<rparr>)"
    using Cons.prems(1,5) by (intro recv_wire) simp_all
  then obtain d where r: "recv (se_conn s) = (Inr f, d)" "rx (jc_stream d) = concat (map wire fs)" by simp
  have d: "rx_only c d" using recv_only [OF r(1)] Cons.prems(4) rx_only_trans by blast
  note T = session_turn_frame [OF r(1) Cons.prems(3), of k]
  obtain a where a: "answer_to k f = Inr a" using Cons.prems(2) by (auto simp: is_ok_iff)
  show ?case
  proof (cases a)
    case None
    then have "session_loop k s = (Inr (), s\<lparr>se_conn := d\<rparr>)" using T a by (subst session_loop.simps) simp
    then show ?thesis using d Cons.prems(7) a None by simp
  next
    case (Some m)
    obtain t sid p fl where m: "m = (t, sid, p, fl)" by (cases m)
    obtain c1 where c1: "send k t sid p fl c = (Inr (), c1)" "send_all k (transcript k fs) c1 = (Inr u, c')"
      using Cons.prems(7) a Some m by (auto elim!: abindE)
    from send_rx_only [OF c1(1) d] obtain d1 where d1: "send k t sid p fl d = (Inr (), d1)" "rx_only c1 d1"
      "rx (jc_stream d1) = rx (jc_stream d)" by blast
    have "session_turn k s = (Inr False, s\<lparr>se_conn := d1\<rparr>)"
      using T a Some m d1(1) by (simp add: send_out_def on_conn_def abind_def)
    moreover have "rx_end (jc_stream c1) = rx_end (jc_stream c)"
      using c1(1) by (cases rule: send_cases) (auto simp: tx_only_def)
    ultimately show ?thesis
      using Cons.IH [of "s\<lparr>se_conn := d1\<rparr>" c1] Cons.prems d1 r(2) c1(2) by (simp add: session_loop_step)
  qed
qed


section \<open>Listeners\<close>

text \<open>What the two listeners see: connections of the internal listener, failed accepts, connections of the HTTP listener opened and
  closed, an error that ends the HTTP server, a new value in the
  shutdown channel, and the end of the channel when its sender is dropped. With the sender gone, \<open>changed\<close>
  returns at once with an error.\<close>

datatype ListenEvent =
    Accepted TcpStream string
  | AcceptFailed string
  | HttpOpened nat
  | HttpClosed nat
  | HttpFailed string
  | Changed bool
  | SenderGone

text \<open>The sessions spawned, and whether the loop has returned; the first argument is the value in the channel. The sessions are
  tasks of their own: the loop does not wait for them.\<close>

fun jrp_serve :: "bool \<Rightarrow> ListenEvent list \<Rightarrow> (TcpStream \<times> string) list \<times> bool" where
  "jrp_serve value [] = ([], False)"
| "jrp_serve value (Accepted sock peer # es) = (case jrp_serve value es of (xs, r) \<Rightarrow> ((sock, peer) # xs, r))"
| "jrp_serve value (Changed b # es) = (if b then ([], True) else jrp_serve b es)"
| "jrp_serve value (SenderGone # es) = (if value then ([], True) else jrp_serve value es)"
| "jrp_serve value (_ # es) = jrp_serve value es"

text \<open>The future that tells the HTTP server to shut down.\<close>

fun http_shutdown :: "ListenEvent list \<Rightarrow> bool" where
  "http_shutdown [] = False"
| "http_shutdown (Changed b # es) = (if b then True else http_shutdown es)"
| "http_shutdown (SenderGone # es) = True"
| "http_shutdown (_ # es) = http_shutdown es"

text \<open>The HTTP task. \<open>axum\<close> accepts connections until that future completes, and then returns when every connection
  it has accepted is closed; the code sets no time limit. The arguments are the events so far and the open connections.\<close>

fun http_serve :: "ListenEvent list \<Rightarrow> nat list \<Rightarrow> ListenEvent list \<Rightarrow> (string + unit) option" where
  "http_serve past conns es =
     (if http_shutdown past \<and> conns = [] then Some (Inr ())
      else
        (case es of
           [] \<Rightarrow> None
         | HttpFailed e # _ \<Rightarrow> Some (Inl e)
         | HttpOpened c # rest \<Rightarrow>
             http_serve (past @ [HttpOpened c]) (if http_shutdown past then conns else c # conns) rest
         | HttpClosed c # rest \<Rightarrow> http_serve (past @ [HttpClosed c]) (removeAll c conns) rest
         | e # rest \<Rightarrow> http_serve (past @ [e]) conns rest))"

declare http_serve.simps [simp del]

text \<open>\<open>join!\<close> waits for both tasks, also when one has failed.\<close>

definition serve_stops :: "ListenEvent list \<Rightarrow> (string + unit) option" where
  "serve_stops es =
     (case http_serve [] [] es of
        None \<Rightarrow> None
      | Some h \<Rightarrow> if snd (jrp_serve False es) then Some h else None)"

fun accepted_conn :: "ListenEvent \<Rightarrow> (TcpStream \<times> string) option" where
  "accepted_conn (Accepted sock peer) = Some (sock, peer)"
| "accepted_conn _ = None"

section \<open>What ends the listeners\<close>

text \<open>Events that are not of the shutdown channel and do not end the HTTP server.\<close>

fun traffic :: "ListenEvent \<Rightarrow> bool" where
  "traffic (Changed b) \<longleftrightarrow> False"
| "traffic SenderGone \<longleftrightarrow> False"
| "traffic (HttpFailed e) \<longleftrightarrow> False"
| "traffic _ \<longleftrightarrow> True"

text \<open>The connections of the HTTP listener left open.\<close>

fun http_open :: "nat list \<Rightarrow> ListenEvent list \<Rightarrow> nat list" where
  "http_open conns [] = conns"
| "http_open conns (HttpOpened c # es) = http_open (c # conns) es"
| "http_open conns (HttpClosed c # es) = http_open (removeAll c conns) es"
| "http_open conns (e # es) = http_open conns es"

lemma jrp_serve_run:
  "fst (jrp_serve False es) = List.map_filter accepted_conn (takeWhile (\<lambda>e. e \<noteq> Changed True) es) \<and>
   (snd (jrp_serve False es) \<longleftrightarrow> Changed True \<in> set es)"
proof (induction es)
  case (Cons e es)
  then show ?case by (cases e) (auto simp: List.map_filter_simps split: prod.splits)
qed (simp add: List.map_filter_simps)

lemma http_shutdown_iff: "http_shutdown es \<longleftrightarrow> Changed True \<in> set es \<or> SenderGone \<in> set es"
  by (induction es rule: http_shutdown.induct) auto

lemma http_serve_traffic:
  "\<not> http_shutdown past \<Longrightarrow> list_all traffic es \<Longrightarrow>
     \<exists>past'. \<not> http_shutdown past' \<and> http_serve past conns (es @ es') = http_serve past' (http_open conns es) es'"
proof (induction es arbitrary: past conns)
  case (Cons e es)
  have n: "\<not> http_shutdown (past @ [e])" using Cons.prems by (cases e) (auto simp: http_shutdown_iff)
  from Cons.IH [OF n] Cons.prems show ?case
    by (cases e) (auto simp: http_serve.simps [of past conns "_ # _"])
qed auto

text \<open>Draining: the server returns when the open connections have closed.\<close>

lemma http_serve_drains:
  "http_shutdown past \<Longrightarrow> list_all (\<lambda>e. \<forall>x. e \<noteq> HttpFailed x) es \<Longrightarrow>
     http_serve past conns es = (if \<forall>c \<in> set conns. HttpClosed c \<in> set es then Some (Inr ()) else None)"
proof (induction es arbitrary: past conns)
  case Nil
  then show ?case by (cases conns) (auto simp: http_serve.simps [of past _ "[]"])
next
  case (Cons e es)
  have p: "http_shutdown (past @ [e])" using Cons.prems(1) by (auto simp: http_shutdown_iff)
  note IH = Cons.IH [OF p]
  show ?case
  proof (cases "conns = []")
    case True
    then show ?thesis using Cons.prems(1) by (simp add: http_serve.simps [of past _ "_ # _"])
  next
    case False
    then show ?thesis using Cons.prems IH
      by (cases e) (auto simp: http_serve.simps [of past conns "_ # _"])
  qed
qed

section \<open>Properties\<close>

text \<open>C20: No session ever passes the gate. Whatever a peer sends, before or after the handshake, and however writes
  fail, a session is unauthenticated in every turn and at its end. In every turn that reads a message which is not admitted before
  authentication, the payload is not even decoded, no handler runs, and the answer is the error \<open>AUTH_REQUIRED\<close> on the stream of the message. All
  the session writes after the handshake is pongs and errors with one of three codes: authentication
  required, bad request, or not authenticated.\<close>

theorem no_session_passes_the_gate:
  "\<not> se_authenticated (snd (handle k version sid sock peer)) \<and>
   (\<not> se_authenticated s \<longrightarrow>
      replies_only k (tx (jc_stream (se_conn s))) (tx (jc_stream (se_conn (snd (session_loop k s))))) (is_ok (fst (session_loop k s))) \<and>
      (\<forall>t. (session_step k)\<^sup>*\<^sup>* s t \<longrightarrow> \<not> se_authenticated t \<and>
         (\<forall>f c. recv (se_conn t) = (Inr f, c) \<longrightarrow> \<not> allowed_preauth (frame_msg_type f) \<longrightarrow>
            session_turn k t =
              refuse k (frame_stream_id f) code_AUTH_REQUIRED ''authenticate before issuing this request'' (t\<lparr>se_conn := c\<rparr>))))"
proof
  obtain conn report where c: "conn_server sock = (conn, report)" by fastforce
  let ?s = "\<lparr>se_conn = conn, se_authenticated = False, se_peer = peer\<rparr>"
  obtain r s1 where h: "on_conn (server_handshake k (''jetrun-server/'' @ version) sid) ?s = (r, s1)" by fastforce
  have "\<not> se_authenticated s1" using h by (auto elim!: on_connE)
  moreover obtain r2 s2 where "session_loop k s1 = (r2, s2)" by fastforce
  ultimately show "\<not> se_authenticated (snd (handle k version sid sock peer))"
    using session_loop_unauthenticated [of k s1 r2 s2] h c by (cases r) (auto simp: handle_def abind_def)
next
  obtain r s' where l: "session_loop k s = (r, s')" by fastforce
  have un: "\<not> se_authenticated t" if "(session_step k)\<^sup>*\<^sup>* s t" "\<not> se_authenticated s" for t
    using that by induction (auto simp: session_step_def dest: session_turn_unauthenticated)
  have "session_turn k t = refuse k (frame_stream_id f) code_AUTH_REQUIRED ''authenticate before issuing this request'' (t\<lparr>se_conn := c\<rparr>)"
    if "\<not> se_authenticated t" "recv (se_conn t) = (Inr f, c)" "\<not> allowed_preauth (frame_msg_type f)" for t f c
    using session_turn_frame [OF that(2,1), of k] that(3) by (simp add: answer_to_def refuse_out)
  then show "\<not> se_authenticated s \<longrightarrow>
      replies_only k (tx (jc_stream (se_conn s))) (tx (jc_stream (se_conn (snd (session_loop k s))))) (is_ok (fst (session_loop k s))) \<and>
      (\<forall>t. (session_step k)\<^sup>*\<^sup>* s t \<longrightarrow> \<not> se_authenticated t \<and>
         (\<forall>f c. recv (se_conn t) = (Inr f, c) \<longrightarrow> \<not> allowed_preauth (frame_msg_type f) \<longrightarrow>
            session_turn k t =
              refuse k (frame_stream_id f) code_AUTH_REQUIRED ''authenticate before issuing this request'' (t\<lparr>se_conn := c\<rparr>)))"
    using session_loop_unauthenticated [OF l] un unfolding l fst_conv snd_conv by blast
qed

definition example_session :: "bytes \<Rightarrow> Session" where
  "example_session b = \<lparr>se_conn = fst (conn_server (example_stream b)), se_authenticated = False, se_peer = ''p''\<rparr>"

text \<open>A peer that asks for the cache before it has authenticated.\<close>

definition example_query :: Frame where
  "example_query = frame_of VERSION MT_CasQuery 3 NONE [1, 2, 3]"

theorem no_session_passes_the_gate_witness:
  "\<exists>c. recv (se_conn (example_session (wire example_query))) = (Inr example_query, c) \<and>
     session_turn rkyv_ref (example_session (wire example_query)) =
       refuse rkyv_ref 3 code_AUTH_REQUIRED ''authenticate before issuing this request''
         ((example_session (wire example_query))\<lparr>se_conn := c\<rparr>) \<and>
     replies_only rkyv_ref [] (tx (jc_stream (se_conn (snd (session_loop rkyv_ref (example_session (wire example_query)))))))
       (is_ok (fst (session_loop rkyv_ref (example_session (wire example_query)))))"
proof -
  let ?s = "example_session (wire example_query)"
  have ok: "frame_ok example_query"
    unfolding example_query_def using ver_ok_VERSION by (simp add: frame_of_ok unat_MAX_PAYLOAD)
  have rx: "rx (jc_stream (se_conn ?s)) = wire example_query @ []" by (simp add: example_session_def)
  obtain c where c: "recv (se_conn ?s) = (Inr example_query, c)" using recv_wire [OF ok rx] by blast
  have q: "\<not> allowed_preauth (frame_msg_type example_query)" "frame_stream_id example_query = 3"
    by (simp_all add: example_query_def allowed_preauth_def frame_msg_type_def frame_stream_id_def frame_of_def)
  have "\<not> se_authenticated ?s" "tx (jc_stream (se_conn ?s)) = []" by (simp_all add: example_session_def)
  then show ?thesis
    using no_session_passes_the_gate [of rkyv_ref "''1''" "''s''" "example_stream []" "''p''" ?s] c q by force
qed

text \<open>C23: A session ends. Of a stream with \<open>n\<close> bytes to come it makes at most \<open>n div 16\<close> turns that leave it open,
  one per frame header read, and then one that ends it, in order or with an error.\<close>

theorem session_ends:
  "\<exists>n t. n \<le> length (rx (jc_stream (se_conn s))) div 16 \<and> (session_step k ^^ n) s t \<and>
     (session_turn k t = (Inr True, snd (session_loop k s)) \<and> fst (session_loop k s) = Inr () \<or>
      (\<exists>e. session_turn k t = (Inl e, snd (session_loop k s)) \<and> fst (session_loop k s) = Inl e))"
proof -
  obtain r s' where l: "session_loop k s = (r, s')" by fastforce
  have "16 * n \<le> m \<Longrightarrow> n \<le> m div 16" for n m :: nat by (simp add: less_eq_div_iff_mult_less_eq mult.commute)
  then show ?thesis using session_loop_turns [OF l] unfolding l fst_conv snd_conv by metis
qed

text \<open>C19: A session answers in order. The frames a peer sends, up to the first \<open>Goodbye\<close>, are answered one for one, on
  the stream each came on, with what the specification says: an error for a message that needs authentication, a
  pong with the nonce of the ping, the same refusal for every well-formed token. The bytes written are
  those of sending these answers, and the session ends in order when the peer closes.\<close>

theorem session_answers_in_order:
  assumes "list_all frame_ok fs" "list_all (\<lambda>f. is_ok (answer_to k f)) fs" "\<not> se_authenticated s"
    "rx (jc_stream (se_conn s)) = concat (map wire fs)"
    "rx_end (jc_stream (se_conn s)) = UnexpectedEof \<or> rx_end (jc_stream (se_conn s)) = ConnectionReset"
    "send_all k (transcript k fs) (se_conn s) = (Inr u, c')"
  shows "fst (session_loop k s) = Inr () \<and> tx (jc_stream (se_conn (snd (session_loop k s)))) = tx (jc_stream c')"
  using session_loop_transcript [OF assms(1-3) rx_only_refl assms(4-6)] by (auto dest: rx_onlyD)

definition example_frames :: "Frame list" where
  "example_frames = [frame_of VERSION MT_Ping 1 NONE (u64_le 42), frame_of VERSION MT_CasQuery 3 NONE [],
     frame_of VERSION MT_Auth 5 NONE (ref_str ''jetr_a_b''), frame_of VERSION MT_Goodbye 7 NONE []]"

lemma example_transcript:
  "transcript rkyv_ref example_frames =
     [(MT_Pong, 1, PPong \<lparr>po_nonce = 42\<rparr>, NONE),
      error_out 3 code_AUTH_REQUIRED ''authenticate before issuing this request'',
      error_out 5 code_UNAUTHENTICATED ''authentication failed'']"
  by code_simp

lemma example_frames_ok: "list_all (\<lambda>f. is_ok (answer_to rkyv_ref f)) example_frames"
  by code_simp

lemma send_all_ok:
  "list_all (\<lambda>(t, sid, p, fl). \<exists>bs. msg_encode k p = Inr bs \<and> length bs \<le> unat MAX_PAYLOAD) ms \<Longrightarrow>
    tx_fault (jc_stream c) = [] \<Longrightarrow> is_ok (fst (send_all k ms c))"
proof (induction ms arbitrary: c)
  case (Cons m ms)
  then show ?case by (cases m) (auto simp: abind_def send_run)
qed simp

lemma example_answers_sent:
  "is_ok (fst (send_all rkyv_ref (transcript rkyv_ref example_frames) (fst (conn_server (example_stream b)))))"
  unfolding example_transcript
  by (rule send_all_ok)
    (simp_all add: error_out_def msg_encode_Inr rkyv_ref_def fits16_def ref_str_def unat_MAX_PAYLOAD)

lemma same_rx_end: "sock.more s = sock.more s' \<Longrightarrow> rx_end s = rx_end s'"
  for s s' :: TcpStream
  by (cases s; cases s') simp

theorem session_answers_in_order_witness:
  "fst (session_loop rkyv_ref (example_session (concat (map wire example_frames)))) = Inr ()"
proof -
  let ?s = "example_session (concat (map wire example_frames))"
  obtain u c' where "send_all rkyv_ref (transcript rkyv_ref example_frames) (se_conn ?s) = (Inr u, c')"
    using example_answers_sent [of "concat (map wire example_frames)"]
    by (auto simp: is_ok_iff example_session_def) (metis prod.collapse)
  moreover have "list_all frame_ok example_frames"
    unfolding example_frames_def using ver_ok_VERSION by (simp add: frame_of_ok unat_MAX_PAYLOAD ref_str_def)
  moreover have "rx_end (jc_stream (se_conn ?s)) = UnexpectedEof"
    using same_rx_end [OF tuning_apply_more [of tuning_control "example_stream (concat (map wire example_frames))"]]
    by (simp add: example_session_def conn_server_def case_prod_unfold example_stream_def)
  ultimately show ?thesis
    using session_answers_in_order [OF _ example_frames_ok, of ?s u c'] by (simp add: example_session_def)
qed

text \<open>What stops the listeners. The internal listener takes every connection up to a shutdown value and no accept
  failure ends it; it returns exactly on the value \<open>true\<close>. The HTTP listener also stops when the sender of
  the channel is dropped, which the internal listener ignores, so the server then never stops. Nor does it stop when the
  HTTP server ends with an error: the internal listener goes on.\<close>

theorem shutdown_signals_differ:
  "fst (jrp_serve False es) = List.map_filter accepted_conn (takeWhile (\<lambda>e. e \<noteq> Changed True) es) \<and>
   (snd (jrp_serve False es) \<longleftrightarrow> Changed True \<in> set es) \<and>
   (http_shutdown es \<longleftrightarrow> Changed True \<in> set es \<or> SenderGone \<in> set es) \<and>
   (Changed True \<notin> set es \<longrightarrow> serve_stops es = None)"
  using jrp_serve_run [of es] http_shutdown_iff [of es] by (auto simp: serve_stops_def split: option.split)

end
