(* ===== verification/Jet_Pools.thy ===== *)
theory Jet_Pools
  imports Jet_Db
begin

text \<open>
  Opening the metadata store (\<open>crates/jet-store/src/db.rs\<close>): the connection options, the single-connection
  writer pool, the migrations, the read-only reader pool, and the wall clock of the tables. \<open>sqlx\<close>, the embedded
  migrator and the creation of directories are parameters that act on a state \<open>'w\<close>, the file system and
  the database behind it.
\<close>

section \<open>Options and pools\<close>

datatype SqliteJournalMode = Delete | Truncate | Persist | Memory | Wal | JournalOff

datatype SqliteSynchronous = SyncOff | Normal | Full | Extra

text \<open>Durations in seconds.\<close>

record ConnectOptions =
  co_url :: string
  co_create_if_missing :: bool
  co_foreign_keys :: bool
  co_journal_mode :: "SqliteJournalMode option"
  co_synchronous :: "SqliteSynchronous option"
  co_busy_timeout :: nat
  co_shared_cache :: bool
  co_read_only :: bool

record PoolOptions =
  po_max_connections :: "32 word"
  po_acquire_timeout :: nat
  po_idle_timeout :: "nat option"
  po_max_lifetime :: "nat option"

record SqlitePool =
  pl_options :: PoolOptions
  pl_connect :: ConnectOptions

record 'w sqlx_crate =
  sx_from_str :: "string \<Rightarrow> string + ConnectOptions"
  sx_pool_options :: PoolOptions
  sx_connect_with :: "PoolOptions \<Rightarrow> ConnectOptions \<Rightarrow> ('w, string, unit) act"
  sx_migrate :: "SqlitePool \<Rightarrow> ('w, string, unit) act"
  sx_begin :: "SqlitePool \<Rightarrow> ('w, string, unit) act"
  sx_close :: "SqlitePool \<Rightarrow> 'w \<Rightarrow> 'w"

record DbPools =
  dp_reader :: SqlitePool
  dp_writer :: SqlitePool

definition connect_with :: "'w sqlx_crate \<Rightarrow> PoolOptions \<Rightarrow> ConnectOptions \<Rightarrow> ('w, StoreError, SqlitePool) act" where
  "connect_with sx po co =
     amap_err Sqlx (abind (sx_connect_with sx po co) (\<lambda>_. aret \<lparr>pl_options = po, pl_connect = co\<rparr>))"

section \<open>Opening\<close>

definition base_options :: "bool \<Rightarrow> ConnectOptions \<Rightarrow> ConnectOptions" where
  "base_options create opts = opts\<lparr>co_create_if_missing := create, co_foreign_keys := True, co_journal_mode := Some Wal,
     co_synchronous := Some Normal, co_busy_timeout := 5\<rparr>"

text \<open>\<open>available_parallelism\<close> may fail; its value is cast to 32 bits, then clamped.\<close>

definition reader_connections :: "nat option \<Rightarrow> 32 word" where
  "reader_connections cpus = max 2 (min 16 (unwrap_or (map_option of_nat cpus) 4))"

definition db_connect :: "'w sqlx_crate \<Rightarrow> nat option \<Rightarrow> string \<Rightarrow> bool \<Rightarrow> ('w, StoreError, DbPools) act" where
  "db_connect sx cpus url create =
     abind (amap_err Sqlx (alift (sx_from_str sx url))) (\<lambda>opts.
     let base = base_options create opts in
     abind (connect_with sx ((sx_pool_options sx)\<lparr>po_max_connections := 1, po_acquire_timeout := 30\<rparr>) base) (\<lambda>writer.
     abind (amap_err Migrate (sx_migrate sx writer)) (\<lambda>_.
     abind (connect_with sx ((sx_pool_options sx)\<lparr>po_max_connections := reader_connections cpus, po_acquire_timeout := 10\<rparr>)
       (base\<lparr>co_read_only := True\<rparr>)) (\<lambda>reader.
     aret \<lparr>dp_reader = reader, dp_writer = writer\<rparr>))))"

text \<open>A path is absolute or not and has components; \<open>Path::parent\<close> and \<open>Path::display\<close> of it.\<close>

record DbPath =
  pa_absolute :: bool
  pa_components :: "string list"

definition path_parent :: "DbPath \<Rightarrow> DbPath option" where
  "path_parent p = (if pa_components p = [] then None else Some (p\<lparr>pa_components := butlast (pa_components p)\<rparr>))"

definition path_is_empty :: "DbPath \<Rightarrow> bool" where
  "path_is_empty p \<longleftrightarrow> \<not> pa_absolute p \<and> pa_components p = []"

fun join_slash :: "string list \<Rightarrow> string" where
  "join_slash [] = ''''"
| "join_slash [c] = c"
| "join_slash (c # cs) = c @ ''/'' @ join_slash cs"

definition path_display :: "DbPath \<Rightarrow> string" where
  "path_display p = (if pa_absolute p then ''/'' else '''') @ join_slash (pa_components p)"

definition db_open ::
  "'w sqlx_crate \<Rightarrow> (DbPath \<Rightarrow> ('w, string, unit) act) \<Rightarrow> nat option \<Rightarrow> DbPath \<Rightarrow> ('w, StoreError, DbPools) act" where
  "db_open sx create_dir_all cpus p =
     abind
       (case path_parent p of
          Some parent \<Rightarrow> if path_is_empty parent then aret () else amap_err Fs (create_dir_all parent)
        | None \<Rightarrow> aret ())
       (\<lambda>_. db_connect sx cpus (''sqlite://'' @ path_display p) True)"

text \<open>One pool of one connection serves both sides.\<close>

definition open_in_memory :: "'w sqlx_crate \<Rightarrow> ('w, StoreError, DbPools) act" where
  "open_in_memory sx =
     abind (amap_err Sqlx (alift (sx_from_str sx ''sqlite::memory:''))) (\<lambda>opts.
     abind (connect_with sx ((sx_pool_options sx)\<lparr>po_max_connections := 1, po_idle_timeout := None, po_max_lifetime := None\<rparr>)
       (opts\<lparr>co_foreign_keys := True, co_shared_cache := True\<rparr>)) (\<lambda>pool.
     abind (amap_err Migrate (sx_migrate sx pool)) (\<lambda>_.
     aret \<lparr>dp_reader = pool, dp_writer = pool\<rparr>)))"

definition db_begin :: "'w sqlx_crate \<Rightarrow> DbPools \<Rightarrow> ('w, StoreError, unit) act" where
  "db_begin sx db = amap_err Sqlx (sx_begin sx (dp_writer db))"

definition db_close :: "'w sqlx_crate \<Rightarrow> DbPools \<Rightarrow> 'w \<Rightarrow> 'w" where
  "db_close sx db w = sx_close sx (dp_writer db) (sx_close sx (dp_reader db) w)"

text \<open>Milliseconds since the epoch, none before it, cast from 128 to 64 signed bits.\<close>

definition now_ms :: "nat option \<Rightarrow> int" where
  "now_ms elapsed = (case elapsed of None \<Rightarrow> 0 | Some ms \<Rightarrow> sint (of_nat ms :: 64 word))"

section \<open>Lemmas\<close>

lemma connect_withE:
  assumes "connect_with sx po co w = (r, w')"
  obtains (err) e where "sx_connect_with sx po co w = (Inl e, w')" "r = Inl (Sqlx e)"
    | (ok) "sx_connect_with sx po co w = (Inr (), w')" "r = Inr \<lparr>pl_options = po, pl_connect = co\<rparr>"
  using assms unfolding connect_with_def by (auto elim!: amap_errE abindE simp: act_defs)

lemma reader_connections_bounds: "2 \<le> reader_connections cpus" "reader_connections cpus \<le> 16"
  by (auto simp: reader_connections_def max_def min_def)

text \<open>What a sound \<open>sqlx\<close> promises of the schema: a successful migration establishes it, connecting keeps it.\<close>

definition schema_law :: "'w sqlx_crate \<Rightarrow> ('w \<Rightarrow> bool) \<Rightarrow> bool" where
  "schema_law sx migrated \<longleftrightarrow>
     (\<forall>pool w w'. sx_migrate sx pool w = (Inr (), w') \<longrightarrow> migrated w') \<and>
     (\<forall>po co w r w'. migrated w \<longrightarrow> sx_connect_with sx po co w = (r, w') \<longrightarrow> migrated w')"

definition disciplined :: "DbPools \<Rightarrow> bool" where
  "disciplined db \<longleftrightarrow>
     po_max_connections (pl_options (dp_writer db)) = 1 \<and>
     2 \<le> po_max_connections (pl_options (dp_reader db)) \<and> po_max_connections (pl_options (dp_reader db)) \<le> 16 \<and>
     co_read_only (pl_connect (dp_reader db)) \<and>
     (\<forall>co \<in> {pl_connect (dp_reader db), pl_connect (dp_writer db)}.
        co_foreign_keys co \<and> co_journal_mode co = Some Wal \<and> co_synchronous co = Some Normal \<and> co_busy_timeout co = 5)"

lemma db_connect_run:
  assumes "schema_law sx migrated" "db_connect sx cpus url create w = (Inr db, w')"
  shows "disciplined db \<and> migrated w'"
proof -
  from assms(2) obtain opts w1 w2 writer where w:
    "connect_with sx ((sx_pool_options sx)\<lparr>po_max_connections := 1, po_acquire_timeout := 30\<rparr>) (base_options create opts) w = (Inr writer, w1)"
    "sx_migrate sx writer w1 = (Inr (), w2)"
    and r: "connect_with sx ((sx_pool_options sx)\<lparr>po_max_connections := reader_connections cpus, po_acquire_timeout := 10\<rparr>)
       (base_options create opts\<lparr>co_read_only := True\<rparr>) w2 = (Inr (dp_reader db), w')" "dp_writer db = writer"
    unfolding db_connect_def by (auto simp: Let_def act_defs elim!: abindE amap_errE)
  have "migrated w2" using assms(1) w(2) unfolding schema_law_def by blast
  then have "migrated w'" using assms(1) r(1) unfolding schema_law_def by (auto elim!: connect_withE)
  moreover have "disciplined db"
    using w(1) r reader_connections_bounds [of cpus] by (auto simp: disciplined_def base_options_def elim!: connect_withE)
  ultimately show ?thesis by simp
qed

lemma db_open_migrated:
  assumes "schema_law sx migrated" "db_open sx create_dir_all cpus p w = (Inr db, w')"
  shows "disciplined db \<and> migrated w'"
  using assms(2) [unfolded db_open_def]
proof (cases rule: abindE)
  case (ok u w1)
  from db_connect_run [OF assms(1) ok(2)] show ?thesis .
qed simp

section \<open>The order of the calls\<close>

text \<open>\<open>sqlx\<close> with a record of the pools connected and the migrations run, and how they ended.\<close>

datatype PoolEvent = Connected PoolOptions ConnectOptions bool | Migrated bool

definition untraced :: "('w, 'e, 'a) act \<Rightarrow> ('w \<times> 'x, 'e, 'a) act" where
  "untraced m = (\<lambda>(w, es). case m w of (r, w') \<Rightarrow> (r, w', es))"

definition logged :: "(bool \<Rightarrow> 'x) \<Rightarrow> ('w, 'e, 'a) act \<Rightarrow> ('w \<times> 'x list, 'e, 'a) act" where
  "logged ev m = (\<lambda>(w, es). case m w of (r, w') \<Rightarrow> (r, w', es @ [ev (is_ok r)]))"

definition traced :: "'w sqlx_crate \<Rightarrow> ('w \<times> PoolEvent list) sqlx_crate" where
  "traced sx = \<lparr>sx_from_str = sx_from_str sx, sx_pool_options = sx_pool_options sx,
     sx_connect_with = (\<lambda>po co. logged (Connected po co) (sx_connect_with sx po co)),
     sx_migrate = (\<lambda>pool. logged Migrated (sx_migrate sx pool)),
     sx_begin = (\<lambda>pool. untraced (sx_begin sx pool)),
     sx_close = (\<lambda>pool (w, es). (sx_close sx pool w, es))\<rparr>"

lemma traced_simps [simp]:
  "sx_from_str (traced sx) = sx_from_str sx" "sx_pool_options (traced sx) = sx_pool_options sx"
  "sx_connect_with (traced sx) po co = logged (Connected po co) (sx_connect_with sx po co)"
  "sx_migrate (traced sx) pool = logged Migrated (sx_migrate sx pool)"
  by (simp_all add: traced_def)

lemma logged_run: "logged ev m (w, es) = (r, v) \<longleftrightarrow> (\<exists>w'. m w = (r, w') \<and> v = (w', es @ [ev (is_ok r)]))"
  by (auto simp: logged_def split: prod.split)

lemma connect_with_traced:
  "connect_with (traced sx) po co (w, es) = (r, v) \<Longrightarrow>
     (\<exists>w'. v = (w', es @ [Connected po co (is_ok r)])) \<and>
     (case r of Inl e \<Rightarrow> \<exists>m. e = Sqlx m | Inr pool \<Rightarrow> pool = \<lparr>pl_options = po, pl_connect = co\<rparr>)"
  by (erule connect_withE) (auto simp: logged_run)

lemma schema_law_traced: "schema_law sx migrated \<Longrightarrow> schema_law (traced sx) (\<lambda>(w, es). migrated w)"
  unfolding schema_law_def by (auto simp: logged_run)

lemma db_connect_trace:
  assumes "db_connect (traced sx) cpus url create (w, []) = (r, v)"
  obtains (url) m where "r = Inl (Sqlx m)" "snd v = []"
    | (writer) m po co where "r = Inl (Sqlx m)" "snd v = [Connected po co False]" "po_max_connections po = 1"
    | (migrate) m po co where "r = Inl (Migrate m)" "snd v = [Connected po co True, Migrated False]" "po_max_connections po = 1"
    | (reader) m po co po' co' where "r = Inl (Sqlx m)"
        "snd v = [Connected po co True, Migrated True, Connected po' co' False]" "po_max_connections po = 1" "co_read_only co'"
    | (opened) db where "r = Inr db"
        "snd v = [Connected (pl_options (dp_writer db)) (pl_connect (dp_writer db)) True, Migrated True,
           Connected (pl_options (dp_reader db)) (pl_connect (dp_reader db)) True]"
        "po_max_connections (pl_options (dp_writer db)) = 1" "co_read_only (pl_connect (dp_reader db))"
proof (cases "sx_from_str sx url")
  case (Inl m)
  then show ?thesis using assms url [of m] by (auto simp: db_connect_def act_defs abind_def amap_err_def)
next
  case (Inr opts)
  let ?b = "base_options create opts"
  let ?wo = "(sx_pool_options sx)\<lparr>po_max_connections := 1, po_acquire_timeout := 30\<rparr>"
    and ?ro = "(sx_pool_options sx)\<lparr>po_max_connections := reader_connections cpus, po_acquire_timeout := 10\<rparr>"
  obtain r1 v1 where 1: "connect_with (traced sx) ?wo ?b (w, []) = (r1, v1)" by (metis surj_pair)
  note c1 = connect_with_traced [OF 1]
  show ?thesis
  proof (cases r1)
    case (Inl e)
    then show ?thesis using assms Inr 1 c1 by (auto simp: db_connect_def Let_def act_defs abind_def amap_err_def intro: writer)
  next
    case ok1: (Inr pool)
    obtain w1 where v1: "v1 = (w1, [Connected ?wo ?b True])" using c1 ok1 by auto
    obtain r2 v2 where 2: "logged Migrated (sx_migrate sx pool) v1 = (r2, v2)" by (metis surj_pair)
    then have v2: "snd v2 = [Connected ?wo ?b True, Migrated (is_ok r2)]" unfolding v1 logged_run by auto
    show ?thesis
    proof (cases r2)
      case (Inl e)
      then show ?thesis using assms Inr 1 ok1 2 v2 by (auto simp: db_connect_def Let_def act_defs abind_def amap_err_def intro: migrate)
    next
      case ok2: (Inr x)
      obtain w2 where v2': "v2 = (w2, [Connected ?wo ?b True, Migrated True])" using v2 ok2 by (cases v2) simp
      obtain r3 v3 where 3: "connect_with (traced sx) ?ro (?b\<lparr>co_read_only := True\<rparr>) v2 = (r3, v3)" by (metis surj_pair)
      note c3 = connect_with_traced [OF 3 [unfolded v2']]
      have run: "r = map_sum (\<lambda>e. e) (\<lambda>reader. \<lparr>dp_reader = reader, dp_writer = pool\<rparr>) r3" "v = v3"
        using assms Inr 1 ok1 2 ok2 3 by (auto simp: db_connect_def Let_def act_defs abind_def amap_err_def split: sum.splits prod.splits)
      show ?thesis
      proof (cases r3)
        case (Inl e)
        then show ?thesis using run c3 by (auto intro: reader)
      next
        case (Inr rp)
        then show ?thesis using run c3 c1 ok1 by (intro opened [of "\<lparr>dp_reader = rp, dp_writer = pool\<rparr>"]) auto
      qed
    qed
  qed
qed

section \<open>Properties\<close>

text \<open>C40: An opened store follows the single-writer discipline on a migrated schema: the writer pool has one
  connection, the readers between 2 and 16, all of them read-only; every connection enforces foreign
  keys in WAL mode. The writer is connected first, then the migrations run, and only when they have succeeded are the readers
  connected, so that no reader sees a schema that is not migrated: whatever call fails, everything connected after the
  first pool is read-only and comes after a successful migration, and when the
  migration fails, the failure is reported and no reader pool is connected.\<close>

theorem db_open_disciplined:
  assumes "schema_law sx migrated" "db_open (traced sx) (\<lambda>p. untraced (create_dir_all p)) cpus p (w, []) = (r, w', es)"
  shows "(\<forall>db. r = Inr db \<longrightarrow> disciplined db \<and> migrated w' \<and>
      es = [Connected (pl_options (dp_writer db)) (pl_connect (dp_writer db)) True, Migrated True,
        Connected (pl_options (dp_reader db)) (pl_connect (dp_reader db)) True]) \<and>
    (\<forall>i po co ok. i < length es \<longrightarrow> es ! i = Connected po co ok \<longrightarrow>
      (if i = 0 then po_max_connections po = 1 else co_read_only co \<and> Migrated True \<in> set (take i es))) \<and>
    (\<forall>e. r = Inl (Migrate e) \<longrightarrow> (\<exists>po co. es = [Connected po co True, Migrated False]))"
  using assms(2) unfolding db_open_def
proof (cases rule: abindE)
  case (err e)
  then have "es = []"
    by (auto simp: act_defs amap_err_def untraced_def split: option.splits if_splits sum.splits prod.splits)
  moreover have "r \<noteq> Inl (Migrate m)" for m
    using err by (auto simp: act_defs elim!: amap_errE split: option.splits if_splits)
  ultimately show ?thesis using err by simp
next
  case (ok u v)
  obtain w1 where v: "v = (w1, [])"
    using ok(1) by (auto simp: act_defs amap_err_def untraced_def split: option.splits if_splits sum.splits prod.splits)
  note run = ok(2) [unfolded v]
  have d: "disciplined db \<and> migrated w'" if "r = Inr db" for db
    using db_open_migrated [OF schema_law_traced [OF assms(1)], of "\<lambda>p. untraced (create_dir_all p)" cpus p "(w, [])" db "(w', es)"]
      assms(2) that by simp
  show ?thesis
    using run
  proof (cases rule: db_connect_trace)
    case (opened db)
    then show ?thesis using d [of db] by (auto simp: nth_Cons' less_Suc_eq)
  qed (auto simp: nth_Cons' less_Suc_eq)
qed

text \<open>A store whose state says whether it is migrated.\<close>

definition sqlx_ref :: "bool sqlx_crate" where
  "sqlx_ref = \<lparr>
     sx_from_str = (\<lambda>url. Inr \<lparr>co_url = url, co_create_if_missing = False, co_foreign_keys = False, co_journal_mode = None,
       co_synchronous = None, co_busy_timeout = 0, co_shared_cache = False, co_read_only = False\<rparr>),
     sx_pool_options = \<lparr>po_max_connections = 10, po_acquire_timeout = 30, po_idle_timeout = Some 600, po_max_lifetime = Some 1800\<rparr>,
     sx_connect_with = (\<lambda>po co. aret ()),
     sx_migrate = (\<lambda>pool w. (Inr (), True)),
     sx_begin = (\<lambda>pool. aret ()),
     sx_close = (\<lambda>pool w. w)\<rparr>"

lemma schema_law_ref: "schema_law sqlx_ref (\<lambda>w. w)"
  by (simp add: schema_law_def sqlx_ref_def act_defs)

theorem db_open_disciplined_witness:
  "\<exists>db es. db_open (traced sqlx_ref) (\<lambda>_. untraced (aret ())) (Some 64)
       \<lparr>pa_absolute = False, pa_components = [''.jetrun'', ''jetrun.db'']\<rparr> (False, []) = (Inr db, True, es) \<and>
     disciplined db \<and> length es = 3 \<and> es ! 1 = Migrated True"
proof -
  let ?m = "db_open (traced sqlx_ref) (\<lambda>_. untraced (aret ())) (Some 64)
       \<lparr>pa_absolute = False, pa_components = [''.jetrun'', ''jetrun.db'']\<rparr> (False, [])"
  have "is_ok (fst ?m) \<and> fst (snd ?m)" by code_simp
  then obtain db es where m: "?m = (Inr db, True, es)" by (cases ?m) (auto simp: is_ok_iff)
  note D = db_open_disciplined [OF schema_law_ref m]
  have "disciplined db" using D by blast
  moreover have "es = [Connected (pl_options (dp_writer db)) (pl_connect (dp_writer db)) True, Migrated True,
      Connected (pl_options (dp_reader db)) (pl_connect (dp_reader db)) True]" using D by blast
  ultimately show ?thesis using m by simp
qed

end
