(* ===== verification/Jet_Cli.thy ===== *)
theory Jet_Cli
  imports Jet_Jrp Jet_Pools
begin

text \<open>
  The binary (\<open>jetrun/src/main.rs\<close>): its commands and their arguments, the setting up of the server, the two client
  commands, and the running of both listeners (\<open>serve\<close> in \<open>crates/jet-server/src/lib.rs\<close>). The parser of
  the command line (\<open>clap\<close>), logging and the allocator are left out: the model starts from the parsed command.
  What the process asks of its surroundings is an environment: the database behind \<open>sqlx\<close>, addresses and
  sockets, files, the process id, a fresh identifier.
\<close>

section \<open>Commands\<close>

definition DEFAULT_JRP_PORT :: "16 word" where
  "DEFAULT_JRP_PORT = 7433"

definition DEFAULT_HTTP_PORT :: "16 word" where
  "DEFAULT_HTTP_PORT = 7432"

record ServeArgs =
  sv_http_port :: "16 word"
  sv_jrp_port :: "16 word"
  sv_bind :: string
  sv_db :: DbPath
  sv_github_secret :: "string option"
  sv_gitlab_secret :: "string option"
  sv_bitbucket_secret :: "string option"
  sv_maps :: "string list"

record SubmitArgs =
  sb_host :: string
  sb_port :: "16 word"
  sb_project :: string
  sb_pipeline :: string
  sb_file :: string
  sb_token :: "string option"

datatype Command = Serve ServeArgs | PingServer string "16 word" | Submit SubmitArgs

text \<open>The errors that reach \<open>main\<close>: those of the components, and messages.\<close>

datatype CliError =
    CliStore StoreError
  | CliConn ConnError
  | CliCodec CodecError
  | CliAddr string
  | CliIo string
  | CliMsg string

section \<open>Serving\<close>

fun set_secret :: "Provider \<times> string option \<Rightarrow> WebhookSecrets \<Rightarrow> WebhookSecrets" where
  "set_secret (p, Some s) secrets = (if s \<noteq> '''' then secrets_set p s secrets else secrets)"
| "set_secret (p, None) secrets = secrets"

definition serve_secrets :: "ServeArgs \<Rightarrow> WebhookSecrets" where
  "serve_secrets a =
     fold set_secret
       [(GitHub, sv_github_secret a), (GitLab, sv_gitlab_secret a), (Bitbucket, sv_bitbucket_secret a)] []"

definition parse_map :: "string \<Rightarrow> CliError + string \<times> string \<times> string" where
  "parse_map m =
     rbind (ok_or (split_once CHR ''='' m) (CliMsg (''--map expects REPO=PROJECT/PIPELINE, got '' @ debug_str m))) (\<lambda>(repo, target).
     rbind (ok_or (split_once CHR ''/'' target) (CliMsg (''--map target expects PROJECT/PIPELINE, got '' @ debug_str target)))
       (\<lambda>(project, pipeline). Inr (repo, project, pipeline)))"

primrec apply_maps :: "string list \<Rightarrow> ServerState \<Rightarrow> CliError + ServerState" where
  "apply_maps [] st = Inr st"
| "apply_maps (m # ms) st =
     rbind (parse_map m) (\<lambda>(repo, project, pipeline). apply_maps ms (map_repo repo project pipeline st))"

text \<open>The outside world. \<open>ce_events\<close> is what the listeners see before the wait for the interrupt is over, \<open>ce_ctrl_c\<close>
  whether that wait succeeds, and \<open>ce_after\<close> what the listeners see from then on.\<close>

record 'a cli_env =
  ce_rkyv :: rkyv_crate
  ce_pkg_version :: string
  ce_sqlx :: "Db sqlx_crate"
  ce_create_dir_all :: "DbPath \<Rightarrow> (Db, string, unit) act"
  ce_cpus :: "nat option"
  ce_generate :: "SystemRole \<Rightarrow> string"
  ce_elapsed :: "nat option"
  ce_parse_addr :: "string \<Rightarrow> string + 'a"
  ce_bind :: "'a \<Rightarrow> string + unit"
  ce_events :: "ListenEvent list"
  ce_ctrl_c :: bool
  ce_after :: "ListenEvent list"
  ce_reach :: "string \<Rightarrow> 16 word \<Rightarrow> string + TcpStream"
  ce_pid :: "32 word"
  ce_read_file :: "string \<Rightarrow> string + bytes"
  ce_ulid :: string

definition prepare :: "'a cli_env \<Rightarrow> ServeArgs \<Rightarrow> (Db, CliError, ServerState \<times> 'a \<times> 'a) act" where
  "prepare env a =
     abind (amap_err CliStore (db_open (ce_sqlx env) (ce_create_dir_all env) (ce_cpus env) (sv_db a))) (\<lambda>pools.
     abind (amap_err CliStore (bootstrap (ce_generate env) (now_ms (ce_elapsed env)))) (\<lambda>_.
     abind (agets (\<lambda>db. state_new db (serve_secrets a))) (\<lambda>st.
     abind (alift (apply_maps (sv_maps a) st)) (\<lambda>state.
     abind (amap_err CliAddr (alift (ce_parse_addr env (sv_bind a @ '':'' @ dec (unat (sv_http_port a)))))) (\<lambda>http_addr.
     abind (amap_err CliAddr (alift (ce_parse_addr env (sv_bind a @ '':'' @ dec (unat (sv_jrp_port a)))))) (\<lambda>jrp_addr.
     aret (state, http_addr, jrp_addr)))))))"

text \<open>The task that waits for the interrupt owns the sender: it sends \<open>true\<close> or not, and drops it.\<close>

definition ctrl_c_events :: "bool \<Rightarrow> ListenEvent list" where
  "ctrl_c_events ok = (if ok then [Changed True, SenderGone] else [SenderGone])"

text \<open>Running both listeners; none while they run.\<close>

definition serve :: "('a \<Rightarrow> string + unit) \<Rightarrow> 'a \<Rightarrow> 'a \<Rightarrow> ListenEvent list \<Rightarrow> (string + unit) option" where
  "serve bind http_addr jrp_addr events =
     (case bind http_addr of
        Inl e \<Rightarrow> Some (Inl e)
      | Inr _ \<Rightarrow>
          (case bind jrp_addr of
             Inl e \<Rightarrow> Some (Inl e)
           | Inr _ \<Rightarrow> serve_stops events))"

definition cmd_serve :: "'a cli_env \<Rightarrow> ServeArgs \<Rightarrow> Db \<Rightarrow> (CliError + string) option" where
  "cmd_serve env a db =
     (case prepare env a db of
        (Inl e, _) \<Rightarrow> Some (Inl e)
      | (Inr (state, http_addr, jrp_addr), _) \<Rightarrow>
          map_option (map_sum CliIo (\<lambda>_. ''''))
            (serve (ce_bind env) http_addr jrp_addr (ce_events env @ ctrl_c_events (ce_ctrl_c env) @ ce_after env)))"

section \<open>Client commands\<close>

definition connect :: "'a cli_env \<Rightarrow> string \<Rightarrow> 16 word \<Rightarrow> CliError + JrpConn" where
  "connect env host port =
     (case ce_reach env host port of
        Inl e \<Rightarrow> Inl (CliMsg (''cannot reach jetrun at '' @ host @ '':'' @ dec (unat port) @ '': '' @ e))
      | Inr sock \<Rightarrow> Inr (fst (conn_client sock)))"

definition cli_agent :: "'a cli_env \<Rightarrow> string" where
  "cli_agent env = ''jet-cli/'' @ ce_pkg_version env"

text \<open>The text is what the command prints.\<close>

definition ping_line :: "HelloAck \<Rightarrow> string" where
  "ping_line ack =
     ''ok  jrp v'' @ dec (unat (ha_version ack)) @ ''  session '' @ ha_session ack @ ''  server '' @ ha_agent ack"

definition ping_session :: "'a cli_env \<Rightarrow> (JrpConn, CliError, string) act" where
  "ping_session env =
     abind (amap_err CliConn (client_handshake (ce_rkyv env) (cli_agent env))) (\<lambda>ack.
     let nonce = ucast (ce_pid env) in
     abind (amap_err CliConn (ping (ce_rkyv env) nonce)) (\<lambda>echoed.
     if echoed \<noteq> nonce then athrow (CliMsg ''server echoed the wrong nonce'')
     else aret (ping_line ack)))"

definition cmd_ping :: "'a cli_env \<Rightarrow> string \<Rightarrow> 16 word \<Rightarrow> CliError + string" where
  "cmd_ping env host port = rbind (connect env host port) (\<lambda>conn. fst (ping_session env conn))"

definition cli_codec :: "CodecError + 'b \<Rightarrow> CliError + 'b" where
  "cli_codec r = (case r of Inl e \<Rightarrow> Inl (CliCodec e) | Inr x \<Rightarrow> Inr x)"

text \<open>As in the other components, the branch for a payload of another type cannot be taken.\<close>

definition authenticate :: "'a cli_env \<Rightarrow> string \<Rightarrow> (JrpConn, CliError, unit) act" where
  "authenticate env token =
     abind (amap_err CliConn alloc_stream) (\<lambda>sid.
     abind (amap_err CliConn (send (ce_rkyv env) MT_Auth sid (PAuth \<lparr>au_token = token\<rparr>) NONE)) (\<lambda>_.
     abind (amap_err CliConn recv) (\<lambda>frame.
     if frame_msg_type frame = MT_Error then
       abind (alift (cli_codec (frame_decode (ce_rkyv env) MT_Error frame))) (\<lambda>p.
       case p of
         PErrorMsg e \<Rightarrow> athrow (CliMsg (''authentication failed: '' @ em_message e))
       | _ \<Rightarrow> athrow (CliCodec (CodecDecode '''')))
     else aret ())))"

definition submit_request :: "'a cli_env \<Rightarrow> SubmitArgs \<Rightarrow> bytes \<Rightarrow> SubmitRun" where
  "submit_request env a yaml =
     \<lparr>sr_project = sb_project a, sr_pipeline = sb_pipeline a, sr_definition = yaml, sr_commit_sha = None,
      sr_reference = None, sr_idempotency_key = Some (ce_ulid env)\<rparr>"

definition accepted_line :: "RunAccepted \<Rightarrow> string" where
  "accepted_line acc =
     ''run #'' @ dec (unat (ra_number acc)) @ '' accepted ('' @ ra_run_id acc @ '')'' @
     (if ra_deduplicated acc then '' [deduplicated]'' else '''')"

definition submit_reply :: "'a cli_env \<Rightarrow> Frame \<Rightarrow> (JrpConn, CliError, string) act" where
  "submit_reply env frame =
     (case frame_msg_type frame of
        MT_RunAccepted \<Rightarrow>
          abind (alift (cli_codec (frame_decode (ce_rkyv env) MT_RunAccepted frame))) (\<lambda>p.
          case p of PRunAccepted acc \<Rightarrow> aret (accepted_line acc) | _ \<Rightarrow> athrow (CliCodec (CodecDecode '''')))
      | MT_Error \<Rightarrow>
          abind (alift (cli_codec (frame_decode (ce_rkyv env) MT_Error frame))) (\<lambda>p.
          case p of
            PErrorMsg e \<Rightarrow>
              athrow (CliMsg (''server refused the run (code '' @ dec (unat (em_code e)) @ ''): '' @ em_message e))
          | _ \<Rightarrow> athrow (CliCodec (CodecDecode '''')))
      | other \<Rightarrow> athrow (CliMsg (''unexpected reply '' @ msg_debug other)))"

definition submit_session :: "'a cli_env \<Rightarrow> SubmitArgs \<Rightarrow> bytes \<Rightarrow> (JrpConn, CliError, string) act" where
  "submit_session env a yaml =
     abind (amap_err CliConn (client_handshake (ce_rkyv env) (cli_agent env))) (\<lambda>_.
     abind (case sb_token a of None \<Rightarrow> aret () | Some token \<Rightarrow> authenticate env token) (\<lambda>_.
     abind (amap_err CliConn alloc_stream) (\<lambda>sid.
     abind (amap_err CliConn (send (ce_rkyv env) MT_SubmitRun sid (PSubmitRun (submit_request env a yaml)) NONE)) (\<lambda>_.
     abind (amap_err CliConn recv) (submit_reply env)))))"

definition cmd_submit :: "'a cli_env \<Rightarrow> SubmitArgs \<Rightarrow> CliError + string" where
  "cmd_submit env a =
     (case ce_read_file env (sb_file a) of
        Inl e \<Rightarrow> Inl (CliMsg (''cannot read '' @ sb_file a @ '': '' @ e))
      | Inr yaml \<Rightarrow>
          rbind (connect env (sb_host a) (sb_port a)) (\<lambda>conn. fst (submit_session env a yaml conn)))"

definition main :: "'a cli_env \<Rightarrow> Db \<Rightarrow> Command \<Rightarrow> (CliError + string) option" where
  "main env db c =
     (case c of
        Serve a \<Rightarrow> cmd_serve env a db
      | PingServer host port \<Rightarrow> Some (cmd_ping env host port)
      | Submit a \<Rightarrow> Some (cmd_submit env a))"

section \<open>The prepared server\<close>

text \<open>The secret given for a provider.\<close>

fun secret_arg :: "ServeArgs \<Rightarrow> Provider \<Rightarrow> string option" where
  "secret_arg a GitHub = sv_github_secret a"
| "secret_arg a GitLab = sv_gitlab_secret a"
| "secret_arg a Bitbucket = sv_bitbucket_secret a"

definition configured :: "ServeArgs \<Rightarrow> Provider \<Rightarrow> string option" where
  "configured a p = (case secret_arg a p of Some s \<Rightarrow> if s = '''' then None else Some s | None \<Rightarrow> None)"

lemma secrets_get_set: "secrets_get (secrets_set q s secrets) p = (if p = q then Some s else secrets_get secrets p)"
  by (cases p; cases q) (simp_all add: secrets_get_def secrets_set_def update_conv')

lemma secrets_get_set_secret:
  "secrets_get (set_secret (q, v) secrets) p =
    (if p = q \<and> v \<noteq> None \<and> v \<noteq> Some '''' then v else secrets_get secrets p)"
  by (cases v) (auto simp: secrets_get_set)

lemma serve_secrets_get: "secrets_get (serve_secrets a) p = configured a p"
proof -
  have "secrets_get [] p = None" by (simp add: secrets_get_def)
  then show ?thesis
    by (cases p) (auto simp del: set_secret.simps simp: serve_secrets_def secrets_get_set_secret configured_def split: option.split)
qed

lemma parse_map_iff:
  "parse_map m = Inr (repo, project, pipeline) \<longleftrightarrow>
     m = repo @ CHR ''='' # project @ CHR ''/'' # pipeline \<and> CHR ''='' \<notin> set repo \<and> CHR ''/'' \<notin> set project"
proof
  assume "parse_map m = Inr (repo, project, pipeline)"
  then obtain target where "split_once CHR ''='' m = Some (repo, target)" "split_once CHR ''/'' target = Some (project, pipeline)"
    unfolding parse_map_def by (cases "split_once CHR ''='' m") (auto simp: ok_or_def jet_simps split: option.splits)
  then show "m = repo @ CHR ''='' # project @ CHR ''/'' # pipeline \<and> CHR ''='' \<notin> set repo \<and> CHR ''/'' \<notin> set project"
    unfolding split_once_Some_iff by simp
next
  assume "m = repo @ CHR ''='' # project @ CHR ''/'' # pipeline \<and> CHR ''='' \<notin> set repo \<and> CHR ''/'' \<notin> set project"
  then show "parse_map m = Inr (repo, project, pipeline)" by (simp add: parse_map_def split_once_append)
qed

lemma apply_maps_run:
  assumes "apply_maps ms st = Inr st'"
  shows "(\<forall>m \<in> set ms. is_ok (parse_map m)) \<and>
    map_of (ss_repo_map st') = map_of (ss_repo_map st) ++ map_of (rev (map (\<lambda>m. projr (parse_map m)) ms)) \<and>
    st' = st\<lparr>ss_repo_map := ss_repo_map st'\<rparr>"
  using assms
proof (induction ms arbitrary: st)
  case (Cons m ms)
  obtain repo project pipeline where m: "parse_map m = Inr (repo, project, pipeline)"
    "apply_maps ms (map_repo repo project pipeline st) = Inr st'"
    using Cons.prems by (auto simp: jet_simps)
  have U: "map_of (ss_repo_map (map_repo repo project pipeline st)) = (map_of (ss_repo_map st))(repo \<mapsto> (project, pipeline))"
    by (simp add: map_repo_def update_conv' fun_eq_iff)
  have "map_of (ss_repo_map st') = (map_of (ss_repo_map st))(repo \<mapsto> (project, pipeline)) ++ map_of (rev (map (\<lambda>m. projr (parse_map m)) ms))"
    using conjunct1 [OF conjunct2 [OF Cons.IH [OF m(2)]]] unfolding U .
  also have "\<dots> = map_of (ss_repo_map st) ++ map_of (rev (map (\<lambda>m. projr (parse_map m)) (m # ms)))"
    using m(1) by (simp add: map_add_assoc)
  finally have "map_of (ss_repo_map st') = map_of (ss_repo_map st) ++ map_of (rev (map (\<lambda>m. projr (parse_map m)) (m # ms)))" .
  moreover have "st' = st\<lparr>ss_repo_map := ss_repo_map st'\<rparr>" using Cons.IH [OF m(2)] by (simp add: map_repo_def)
  ultimately show ?case using Cons.IH [OF m(2)] m(1) by simp
qed simp

lemma prepare_run:
  assumes "prepare env a db = (Inr (st, ha, ja), db')"
  shows "\<exists>pools db1. db_open (ce_sqlx env) (ce_create_dir_all env) (ce_cpus env) (sv_db a) db = (Inr pools, db1) \<and>
    bootstrap (ce_generate env) (now_ms (ce_elapsed env)) db1 = (Inr (), db') \<and>
    apply_maps (sv_maps a) (state_new db' (serve_secrets a)) = Inr st"
  using assms unfolding prepare_def by (auto elim!: abindE amap_errE)

section \<open>One request over a session\<close>

text \<open>A value that fits a frame.\<close>

definition sendable :: "rkyv_crate \<Rightarrow> Payload \<Rightarrow> bool" where
  "sendable k p \<longleftrightarrow> (\<exists>bs. msg_encode k p = Inr bs \<and> length bs \<le> unat MAX_PAYLOAD)"

definition payload_bytes :: "rkyv_crate \<Rightarrow> Payload \<Rightarrow> bytes" where
  "payload_bytes k p = projr (msg_encode k p)"

text \<open>The frame that carries a value.\<close>

definition frame_for :: "rkyv_crate \<Rightarrow> 32 word \<Rightarrow> Flags \<Rightarrow> Payload \<Rightarrow> Frame" where
  "frame_for k sid fl p = frame_of VERSION (payload_type p) sid fl (payload_bytes k p)"

lemma sendableD:
  assumes "sendable k p"
  shows "msg_encode k p = Inr (payload_bytes k p)" "length (payload_bytes k p) \<le> unat MAX_PAYLOAD"
    "frame_ok (frame_for k sid fl p)" "frame_msg_type (frame_for k sid fl p) = payload_type p"
    "frame_stream_id (frame_for k sid fl p) = sid"
    "rkyv_ok k \<Longrightarrow> payload_type p = t \<Longrightarrow> frame_decode k t (frame_for k sid fl p) = Inr p"
proof -
  show e: "msg_encode k p = Inr (payload_bytes k p)" and l: "length (payload_bytes k p) \<le> unat MAX_PAYLOAD"
    using assms by (auto simp: sendable_def payload_bytes_def)
  show "frame_ok (frame_for k sid fl p)" unfolding frame_for_def by (rule frame_of_ok [OF ver_ok_VERSION l])
  show "frame_msg_type (frame_for k sid fl p) = payload_type p" "frame_stream_id (frame_for k sid fl p) = sid"
    by (simp_all add: frame_for_def frame_of_def frame_msg_type_def frame_stream_id_def)
  show "frame_decode k t (frame_for k sid fl p) = Inr p" if "rkyv_ok k" "payload_type p = t"
    using msg_decode_encode [OF that(1) e] that(2) by (simp add: frame_decode_def frame_for_def frame_of_def)
qed

text \<open>A socket in order: nothing written yet, no write will fail, and the peer's end closes the connection.\<close>

definition fresh :: "TcpStream \<Rightarrow> bool" where
  "fresh s \<longleftrightarrow> tx s = [] \<and> tx_fault s = [] \<and> rx_end s = UnexpectedEof"

lemma fresh_conn:
  assumes "fresh s" "rx s = b"
  shows "rx (jc_stream (fst (conn_server s))) = b" "tx (jc_stream (fst (conn_server s))) = []"
    "tx_fault (jc_stream (fst (conn_server s))) = []" "rx_end (jc_stream (fst (conn_server s))) = UnexpectedEof"
    "rx (jc_stream (fst (conn_client s))) = b" "tx (jc_stream (fst (conn_client s))) = []"
    "tx_fault (jc_stream (fst (conn_client s))) = []"
  using same_more [OF tuning_apply_more [of tuning_control s]] same_rx_end [OF tuning_apply_more [of tuning_control s]] assms
  by (simp_all add: conn_server_def conn_client_def case_prod_unfold fresh_def)

abbreviation hello_frame :: "rkyv_crate \<Rightarrow> string \<Rightarrow> Frame" where
  "hello_frame k agent \<equiv> frame_for k 1 NONE (PHello (client_hello agent))"

abbreviation ack_of :: "string \<Rightarrow> string \<Rightarrow> string \<Rightarrow> HelloAck" where
  "ack_of ver session agent \<equiv> server_ack (''jetrun-server/'' @ ver) session (client_hello agent)"

abbreviation ack_frame :: "rkyv_crate \<Rightarrow> string \<Rightarrow> string \<Rightarrow> string \<Rightarrow> Frame" where
  "ack_frame k ver session agent \<equiv> frame_for k 1 NONE (PHelloAck (ack_of ver session agent))"

text \<open>The server's side of a handshake and one request.\<close>

lemma handle_one_request:
  assumes "rkyv_ok k" "length agent \<le> MAX_AGENT_LEN" "sendable k (PHello (client_hello agent))"
    "sendable k (PHelloAck (ack_of ver session agent))"
    and "frame_ok f" "answer_to k f = Inr (Some (payload_type p, sid, p, fl))" "sendable k p"
    and "fresh s" "rx s = wire (hello_frame k agent) @ wire f"
  shows "\<exists>s'. handle k ver session s peer = (Inr (), s') \<and>
    tx (jc_stream (se_conn s')) = wire (ack_frame k ver session agent) @ wire (frame_for k sid fl p)"
proof -
  let ?c = "fst (conn_server s)" and ?b2 = "payload_bytes k (PHelloAck (ack_of ver session agent))"
  note F = fresh_conn [OF assms(8,9)] and H = sendableD [OF assms(3)] and A = sendableD [OF assms(4)] and P = sendableD [OF assms(7)]
  have rx: "rx (jc_stream ?c) = wire (frame_of VERSION MT_Hello 1 NONE (payload_bytes k (PHello (client_hello agent)))) @ wire f"
    using F(1) by (simp add: frame_for_def)
  let ?d = "?c\<lparr>jc_version := VERSION, jc_peer_caps := caps_ALL,
       jc_stream := (jc_stream ?c)\<lparr>rx := wire f, tx := tx (jc_stream ?c) @ wire (frame_of VERSION MT_HelloAck 1 NONE ?b2)\<rparr>\<rparr>"
  note S = server_acks [OF assms(1) H(1,2) assms(2) ver_ok_VERSION A(1,2) rx F(3)]
  let ?s = "\<lparr>se_conn = ?d, se_authenticated = False, se_peer = peer\<rparr>"
  let ?d' = "?d\<lparr>jc_stream := (jc_stream ?d)\<lparr>tx := tx (jc_stream ?d) @ wire (frame_for k sid fl p)\<rparr>\<rparr>"
  have "send_all k (transcript k [f]) ?d = (Inr (), ?d')"
    using assms(6) P(1,2) F(3) by (simp add: abind_def send_run frame_for_def)
  then obtain s' where s': "session_loop k ?s = (Inr (), s')" "rx_only ?d' (se_conn s')"
    using session_loop_transcript [of "[f]" k ?s ?d "()" ?d'] assms(5,6) F(4) rx_only_refl by auto
  have "handle k ver session s peer = (Inr (), s')"
    using S s'(1) by (simp add: handle_def case_prod_unfold abind_def on_conn_def)
  moreover have "tx (jc_stream (se_conn s')) = tx (jc_stream ?d')" using rx_onlyD [OF s'(2)] by simp
  ultimately show ?thesis using F(2) by (simp add: frame_for_def)
qed

text \<open>The client's side: the handshake, then a request on the next stream.\<close>

lemma client_shakes:
  assumes "rkyv_ok k" "sendable k (PHello (client_hello agent))" "sendable k (PHelloAck (ack_of ver session agent))"
    and "fresh s" "rx s = wire (ack_frame k ver session agent) @ rest"
  shows "\<exists>c. client_handshake k agent (fst (conn_client s)) = (Inr (ack_of ver session agent), c) \<and>
    jc_version c = VERSION \<and> jc_next_stream_id c = 3 \<and> jc_client_side c \<and> tx_fault (jc_stream c) = [] \<and>
    tx (jc_stream c) = wire (hello_frame k agent) \<and> rx (jc_stream c) = rest"
proof -
  let ?c = "fst (conn_client s)" and ?b1 = "payload_bytes k (PHello (client_hello agent))"
  note F = fresh_conn [OF assms(4,5)] and H = sendableD [OF assms(2)] and A = sendableD [OF assms(3)]
  have v: "ver_ok (ha_version (ack_of ver session agent))" "ha_version (ack_of ver session agent) = VERSION"
    by (simp_all add: server_ack_def client_hello_def ver_ok_VERSION)
  let ?c1 = "?c\<lparr>jc_next_stream_id := jc_next_stream_id (snd (next_stream ?c)),
      jc_stream := (jc_stream ?c)\<lparr>tx := tx (jc_stream ?c) @ wire (frame_of (jc_version ?c) MT_Hello (jc_next_stream_id ?c) NONE ?b1)\<rparr>\<rparr>"
  have 1: "client_handshake k agent ?c = abind recv (client_answer k) ?c1" by (rule client_sends [OF H(1,2) F(7)])
  have "rx (jc_stream ?c1) = wire (frame_of VERSION MT_HelloAck 1 NONE (payload_bytes k (PHelloAck (ack_of ver session agent)))) @ rest"
    using F(5) by (simp add: frame_for_def)
  note client_accepts [OF assms(1) A(1,2) v(1) ver_ok_VERSION this]
  moreover have "max (3 :: 32 word) 1 = 3" by (simp add: max_def word_le_nat_alt)
  ultimately show ?thesis unfolding 1 using v(2) F(6,7) by (simp add: conn_new_simps next_stream_def frame_for_def)
qed

lemma run_rules:
  "m s = (Inr x, t) \<Longrightarrow> amap_err h m s = (Inr x, t)" "m s = (Inl e, t) \<Longrightarrow> amap_err h m s = (Inl (h e), t)"
  "m s = (Inr x, t) \<Longrightarrow> abind m f s = f x t" "m s = (Inl e, t) \<Longrightarrow> abind m f s = (Inl e, t)"
  by (simp_all add: amap_err_def abind_def)

lemma request_run:
  assumes "tx_fault (jc_stream c) = []" "jc_version c = VERSION" "sendable k p" "payload_type p = t"
    "frame_ok f" "rx (jc_stream c) = wire f @ rest"
  shows "\<exists>c'. alloc_stream c = (Inr (jc_next_stream_id c), snd (next_stream c)) \<and>
    send k t (jc_next_stream_id c) p NONE (snd (next_stream c)) =
      (Inr (), (snd (next_stream c))\<lparr>jc_stream := (jc_stream c)\<lparr>tx := tx (jc_stream c) @ wire (frame_for k (jc_next_stream_id c) NONE p)\<rparr>\<rparr>) \<and>
    recv ((snd (next_stream c))\<lparr>jc_stream := (jc_stream c)\<lparr>tx := tx (jc_stream c) @ wire (frame_for k (jc_next_stream_id c) NONE p)\<rparr>\<rparr>) = (Inr f, c') \<and>
    tx (jc_stream c') = tx (jc_stream c) @ wire (frame_for k (jc_next_stream_id c) NONE p)"
proof -
  let ?c1 = "snd (next_stream c)"
  let ?c2 = "?c1\<lparr>jc_stream := (jc_stream c)\<lparr>tx := tx (jc_stream c) @ wire (frame_for k (jc_next_stream_id c) NONE p)\<rparr>\<rparr>"
  have s: "jc_stream ?c1 = jc_stream c" "jc_version ?c1 = VERSION" using assms(2) by (simp_all add: next_stream_def)
  have "send k t (jc_next_stream_id c) p NONE ?c1 = (Inr (), ?c2)"
    using send_run [OF sendableD(1,2) [OF assms(3)], of ?c1 t "jc_next_stream_id c" NONE] s assms(1,4) by (simp add: frame_for_def)
  moreover have "recv ?c2 = (Inr f, ?c2\<lparr>jc_stream := (jc_stream ?c2)\<lparr>rx := rest\<rparr>\<rparr>)"
    using assms(6) by (intro recv_wire [OF assms(5)]) simp
  ultimately show ?thesis by (simp add: alloc_stream_def next_stream_def)
qed

text \<open>The client commands, by the runs of their steps.\<close>

lemma run_ping:
  assumes "client_handshake (ce_rkyv env) (cli_agent env) c0 = (Inr ack, c)"
    "ping (ce_rkyv env) (ucast (ce_pid env)) c = (Inr (ucast (ce_pid env)), c')"
  shows "ping_session env c0 = (Inr (ping_line ack), c')"
  by (simp add: ping_session_def Let_def run_rules assms)

lemma run_submit:
  shows "sb_token a = None \<Longrightarrow> client_handshake (ce_rkyv env) (cli_agent env) c0 = (Inr ack, c) \<Longrightarrow>
      alloc_stream c = (Inr sid, c1) \<Longrightarrow>
      send (ce_rkyv env) MT_SubmitRun sid (PSubmitRun (submit_request env a yaml)) NONE c1 = (Inr (), c2) \<Longrightarrow>
      recv c2 = (Inr f, c3) \<Longrightarrow> submit_reply env f c3 = (r, c4) \<Longrightarrow> submit_session env a yaml c0 = (r, c4)"
    and "sb_token a = Some token \<Longrightarrow> client_handshake (ce_rkyv env) (cli_agent env) c0 = (Inr ack, c) \<Longrightarrow>
      authenticate env token c = (Inl e, c1) \<Longrightarrow> submit_session env a yaml c0 = (Inl e, c1)"
  by (simp_all add: submit_session_def run_rules)

section \<open>Properties\<close>

text \<open>C22: \<open>jetrun ping\<close> works against \<open>jetrun serve\<close>. There are two byte streams such that the client, reading
  the one, writes the other and prints its line with the version, the session and the agent of the server,
  and the session of the internal listener, reading what the client wrote, writes what the client read and
  ends in order.\<close>

theorem ping_end_to_end:
  assumes "rkyv_ok (ce_rkyv env)" "length (cli_agent env) \<le> MAX_AGENT_LEN"
    "sendable (ce_rkyv env) (PHello (client_hello (cli_agent env)))"
    "sendable (ce_rkyv env) (PHelloAck (ack_of ver session (cli_agent env)))"
    "sendable (ce_rkyv env) (PPing \<lparr>pi_nonce = ucast (ce_pid env)\<rparr>)" "sendable (ce_rkyv env) (PPong \<lparr>po_nonce = ucast (ce_pid env)\<rparr>)"
    and "fresh cs" "fresh ss"
  shows "\<exists>C S c' s'. ping_session env (fst (conn_client (cs\<lparr>rx := S\<rparr>))) = (Inr (ping_line (ack_of ver session (cli_agent env))), c') \<and>
    tx (jc_stream c') = C \<and>
    handle (ce_rkyv env) ver session (ss\<lparr>rx := C\<rparr>) peer = (Inr (), s') \<and> tx (jc_stream (se_conn s')) = S"
proof -
  let ?k = "ce_rkyv env" and ?agent = "cli_agent env"
  let ?pg = "PPing \<lparr>pi_nonce = ucast (ce_pid env)\<rparr>" and ?po = "PPong \<lparr>po_nonce = ucast (ce_pid env)\<rparr>"
  let ?C = "wire (hello_frame ?k ?agent) @ wire (frame_for ?k 3 NONE ?pg)"
  let ?S = "wire (ack_frame ?k ver session ?agent) @ wire (frame_for ?k 3 NONE ?po)"
  have f: "fresh (cs\<lparr>rx := ?S\<rparr>)" "fresh (ss\<lparr>rx := ?C\<rparr>)" using assms(7,8) by (simp_all add: fresh_def)
  note PG = sendableD(3-6) [OF assms(5), where sid = 3 and fl = NONE] and PO = sendableD(3-6) [OF assms(6), where sid = 3 and fl = NONE]
  have "answer_to ?k (frame_for ?k 3 NONE ?pg) = Inr (Some (payload_type ?po, 3, ?po, NONE))"
    using PG(2,3) PG(4) [OF assms(1)] by (simp add: answer_to_def allowed_preauth_def rbind_def)
  from handle_one_request [OF assms(1-4) PG(1) this assms(6) f(2)]
  obtain s' where s': "handle ?k ver session (ss\<lparr>rx := ?C\<rparr>) peer = (Inr (), s')" "tx (jc_stream (se_conn s')) = ?S" by auto
  obtain c where c: "client_handshake ?k ?agent (fst (conn_client (cs\<lparr>rx := ?S\<rparr>))) = (Inr (ack_of ver session ?agent), c)"
    "jc_version c = VERSION" "jc_next_stream_id c = 3" "tx_fault (jc_stream c) = []" "tx (jc_stream c) = wire (hello_frame ?k ?agent)"
    "rx (jc_stream c) = wire (frame_for ?k 3 NONE ?po)"
    using client_shakes [OF assms(1,3,4) f(1), of "wire (frame_for ?k 3 NONE ?po)"] by auto
  have ty: "payload_type ?pg = MT_Ping" by simp
  obtain c' where c': "ping ?k (ucast (ce_pid env)) c = (Inr (ucast (ce_pid env)), c')" "tx (jc_stream c') = ?C"
    using request_run [OF c(4,2) assms(5) ty PO(1), of "[]"] c(3,5,6) PO(2) PO(4) [OF assms(1)]
    by (auto simp: ping_def abind_def codec_err_def)
  have "ping_session env (fst (conn_client (cs\<lparr>rx := ?S\<rparr>))) = (Inr (ping_line (ack_of ver session ?agent)), c')"
    using run_ping [OF c(1) c'(1)] .
  then show ?thesis using c'(2) s' by blast
qed

lemma cli_agent_len: "length (cli_agent env) = 8 + length (ce_pkg_version env)"
  by (simp add: cli_agent_def)

text \<open>A reply to a request of a client that a server refuses.\<close>

lemma submit_reply_error:
  assumes "rkyv_ok (ce_rkyv env)" "sendable (ce_rkyv env) (PErrorMsg e)"
  shows "submit_reply env (frame_for (ce_rkyv env) sid fl (PErrorMsg e)) c =
    (Inl (CliMsg (''server refused the run (code '' @ dec (unat (em_code e)) @ ''): '' @ em_message e)), c)"
  using sendableD(4) [OF assms(2), where sid = sid and fl = fl] sendableD(6) [OF assms(2,1), where sid = sid and fl = fl and t = MT_Error]
  by (simp add: submit_reply_def abind_def cli_codec_def act_defs)

text \<open>What the client is told.\<close>

fun refusal :: "string option \<Rightarrow> ErrorMsg" where
  "refusal None = \<lparr>em_code = code_AUTH_REQUIRED, em_message = ''authenticate before issuing this request''\<rparr>"
| "refusal (Some token) =
     (case auth_validate \<lparr>au_token = token\<rparr> of
        Inl e \<Rightarrow> \<lparr>em_code = code_BAD_REQUEST, em_message = invalid_display e\<rparr>
      | Inr _ \<Rightarrow> \<lparr>em_code = code_UNAUTHENTICATED, em_message = ''authentication failed''\<rparr>)"

definition refusal_text :: "string option \<Rightarrow> string" where
  "refusal_text token =
     (case token of
        None \<Rightarrow> ''server refused the run (code '' @ dec (unat (em_code (refusal None))) @ ''): '' @ em_message (refusal None)
      | Some t \<Rightarrow> ''authentication failed: '' @ em_message (refusal token))"

text \<open>The first message after the handshake.\<close>

definition first_request :: "'a cli_env \<Rightarrow> SubmitArgs \<Rightarrow> bytes \<Rightarrow> Payload" where
  "first_request env a yaml =
     (case sb_token a of None \<Rightarrow> PSubmitRun (submit_request env a yaml) | Some token \<Rightarrow> PAuth \<lparr>au_token = token\<rparr>)"

lemma first_request_refused:
  assumes "rkyv_ok k" "k = ce_rkyv env" "sendable k (first_request env a yaml)"
  shows "answer_to k (frame_for k 3 NONE (first_request env a yaml)) =
    Inr (Some (payload_type (PErrorMsg (refusal (sb_token a))), 3, PErrorMsg (refusal (sb_token a)), END_STREAM))"
proof (cases "sb_token a")
  case None
  then show ?thesis using sendableD(4,5) [OF assms(3), where sid = 3 and fl = NONE]
    by (simp add: answer_to_def first_request_def error_out_def allowed_preauth_def)
next
  case (Some token)
  then show ?thesis
    using sendableD(4,5) [OF assms(3), where sid = 3 and fl = NONE] sendableD(6) [OF assms(3,1), where sid = 3 and fl = NONE and t = MT_Auth]
    by (simp add: answer_to_def first_request_def error_out_def allowed_preauth_def rbind_def split: sum.split)
qed

text \<open>\<open>jetrun submit\<close> is refused by \<open>jetrun serve\<close>, with and without a token. There are two byte streams such
  that the client, reading the one, writes the other and ends with the refusal, which names the reason,
  and the session of the internal listener, reading what the client wrote, writes what the client read.\<close>

theorem submit_is_refused:
  assumes "rkyv_ok (ce_rkyv env)" "length (cli_agent env) \<le> MAX_AGENT_LEN"
    "sendable (ce_rkyv env) (PHello (client_hello (cli_agent env)))"
    "sendable (ce_rkyv env) (PHelloAck (ack_of ver session (cli_agent env)))"
    "sendable (ce_rkyv env) (first_request env a yaml)" "sendable (ce_rkyv env) (PErrorMsg (refusal (sb_token a)))"
    and "fresh cs" "fresh ss"
  shows "\<exists>C S c' s'. submit_session env a yaml (fst (conn_client (cs\<lparr>rx := S\<rparr>))) = (Inl (CliMsg (refusal_text (sb_token a))), c') \<and>
    tx (jc_stream c') = C \<and>
    handle (ce_rkyv env) ver session (ss\<lparr>rx := C\<rparr>) peer = (Inr (), s') \<and> tx (jc_stream (se_conn s')) = S"
proof -
  let ?k = "ce_rkyv env" and ?agent = "cli_agent env"
  let ?rq = "first_request env a yaml" and ?re = "PErrorMsg (refusal (sb_token a))"
  let ?C = "wire (hello_frame ?k ?agent) @ wire (frame_for ?k 3 NONE ?rq)"
  let ?S = "wire (ack_frame ?k ver session ?agent) @ wire (frame_for ?k 3 END_STREAM ?re)"
  have f: "fresh (cs\<lparr>rx := ?S\<rparr>)" "fresh (ss\<lparr>rx := ?C\<rparr>)" using assms(7,8) by (simp_all add: fresh_def)
  note RQ = sendableD(3-6) [OF assms(5), where sid = 3 and fl = NONE]
    and RE = sendableD(3-6) [OF assms(6), where sid = 3 and fl = END_STREAM]
  from handle_one_request [OF assms(1-4) RQ(1) first_request_refused [OF assms(1) refl assms(5)] assms(6) f(2)]
  obtain s' where s': "handle ?k ver session (ss\<lparr>rx := ?C\<rparr>) peer = (Inr (), s')" "tx (jc_stream (se_conn s')) = ?S" by auto
  obtain c where c: "client_handshake ?k ?agent (fst (conn_client (cs\<lparr>rx := ?S\<rparr>))) = (Inr (ack_of ver session ?agent), c)"
    "jc_version c = VERSION" "jc_next_stream_id c = 3" "tx_fault (jc_stream c) = []" "tx (jc_stream c) = wire (hello_frame ?k ?agent)"
    "rx (jc_stream c) = wire (frame_for ?k 3 END_STREAM ?re)"
    using client_shakes [OF assms(1,3,4) f(1), of "wire (frame_for ?k 3 END_STREAM ?re)"] by auto
  obtain c1 c' where c': "alloc_stream c = (Inr 3, snd (next_stream c))" "tx (jc_stream c') = ?C"
    "send ?k (payload_type ?rq) 3 ?rq NONE (snd (next_stream c)) = (Inr (), c1)" "recv c1 = (Inr (frame_for ?k 3 END_STREAM ?re), c')"
    using request_run [OF c(4,2) assms(5) refl RE(1), of "[]"] c(3,5,6) by auto
  have "submit_session env a yaml (fst (conn_client (cs\<lparr>rx := ?S\<rparr>))) = (Inl (CliMsg (refusal_text (sb_token a))), c')"
  proof (cases "sb_token a")
    case None
    then have rq: "send ?k MT_SubmitRun 3 (PSubmitRun (submit_request env a yaml)) NONE (snd (next_stream c)) = (Inr (), c1)"
      using c'(3) by (simp add: first_request_def)
    show ?thesis
      using run_submit(1) [OF None c(1) c'(1) rq c'(4) submit_reply_error [OF assms(1,6)]]
      unfolding refusal_text_def None option.case .
  next
    case (Some token)
    then have rq: "send ?k MT_Auth 3 (PAuth \<lparr>au_token = token\<rparr>) NONE (snd (next_stream c)) = (Inr (), c1)"
      using c'(3) by (simp add: first_request_def)
    have "authenticate env token c = (Inl (CliMsg (refusal_text (sb_token a))), c')"
      using RE(2) RE(4) [OF assms(1), of MT_Error] Some
      by (simp add: authenticate_def run_rules c'(1,4) rq refusal_text_def cli_codec_def)
    from run_submit(2) [OF Some c(1) this] show ?thesis .
  qed
  then show ?thesis using c'(2) s' by blast
qed

lemma prepared_state:
  assumes "prepare env a db = (Inr (st, ha, ja), db')"
  shows "ss_db st = db'" "ss_deliveries st = guard_default" "webhook_secret st p = configured a p"
    "map_of (ss_repo_map st) = map_of (rev (map (\<lambda>m. projr (parse_map m)) (sv_maps a)))" "\<forall>m \<in> set (sv_maps a). is_ok (parse_map m)"
proof -
  have "apply_maps (sv_maps a) (state_new db' (serve_secrets a)) = Inr st" using prepare_run [OF assms] by blast
  note R = apply_maps_run [OF this]
  have st: "st = (state_new db' (serve_secrets a))\<lparr>ss_repo_map := ss_repo_map st\<rparr>" using R by blast
  show "ss_db st = db'" "ss_deliveries st = guard_default" "webhook_secret st p = configured a p"
    by (subst st, simp add: state_new_def webhook_secret_def serve_secrets_get)+
  show "map_of (ss_repo_map st) = map_of (rev (map (\<lambda>m. projr (parse_map m)) (sv_maps a)))" "\<forall>m \<in> set (sv_maps a). is_ok (parse_map m)"
    using R by (simp_all add: state_new_def)
qed

text \<open>Serving does not change what the command line configured.\<close>

lemma served_state:
  assumes "prepare env a db = (Inr (st, ha, ja), db')" "server_run d st rs xs st'"
  shows "webhook_secret st' p = configured a p" "ss_repo_map st' = ss_repo_map st"
  using server_run_guard [OF assms(2)] prepared_state(3) [OF assms(1)] by (auto simp: webhook_secret_def)

lemma verify_needs_secret: "verify h m p hdr body (map_option bytes_of sec) = Inr v \<Longrightarrow> \<exists>s. sec = Some s \<and> s \<noteq> ''''"
  by (cases sec) (auto simp: verify_def bytes_of_def)

lemma webhook_202:
  assumes "status (fst (webhook d now run name hdrs body st)) = 202"
  shows "\<exists>p ev j kind repo rest. name = provider_as_str p \<and> webhook_secret st p \<noteq> None \<and> cr_json d body = Inr j \<and>
    parse_payload p ev j = Inr (kind, repo, rest) \<and> starts_run p ev j \<and> map_of (ss_repo_map st) repo \<noteq> None"
proof -
  obtain p where p: "provider_named name = Some p" using assms by (cases "provider_named name") (auto simp: webhook_def)
  let ?l = "headers_from (cr_to_str d) hdrs"
  obtain v where v: "verify (cr_hex d) (cr_hmac d) p ?l body (map_option bytes_of (webhook_secret st p)) = Inr v"
    using assms p by (auto simp: webhook_def Let_def verify_status_not_202 split: sum.splits)
  obtain dl g where ck: "check now (lookup_delivery ?l p) (ss_deliveries st) = (dl, g)" by fastforce
  have "status (parse_and_dispatch d run p ?l body v (st\<lparr>ss_deliveries := g\<rparr>)) = 202"
    using assms p v ck by (auto simp: webhook_def Let_def split: if_splits)
  then obtain ev j kind repo rest where "cr_json d body = Inr j" "parse_payload p ev j = Inr (kind, repo, rest)" "starts_run p ev j"
    "map_of (ss_repo_map st) repo \<noteq> None"
    unfolding parse_and_dispatch_202 by auto
  moreover have "webhook_secret st p \<noteq> None" using verify_needs_secret [OF v] by auto
  moreover have "name = provider_as_str p" using p by (simp add: provider_named_iff)
  ultimately show ?thesis by blast
qed

lemma webhook_unconfigured:
  assumes "webhook_secret st p = None"
  shows "webhook d now run (provider_as_str p) hdrs body st = (Text 500 ''rejected'', st)"
  using assms by (cases p) (simp_all add: webhook_def provider_named_def verify_def Let_def)

text \<open>What \<open>jetrun serve\<close> starts with. When the preparation succeeds, on a database that the migrations set up, every
  option of the form repository = project / pipeline has been read, of two for one repository the last counts,
  each provider has the secret it was given unless that is empty, no delivery has been seen, and every
  built-in role of the database has exactly the permissions of the code.\<close>

theorem serve_prepares:
  assumes "schema_law (ce_sqlx env) (\<lambda>db. db_faults db = [] \<and> roles_wf (db_tables db) \<and> catalog_complete (db_tables db) \<and>
      (\<forall>r. ce_generate env r \<notin> row_ids (db_tables db)))" "inj (ce_generate env)"
    and "prepare env a db = (Inr (st, ha, ja), db')"
  shows "(\<forall>m \<in> set (sv_maps a). \<exists>repo project pipeline. m = repo @ CHR ''='' # project @ CHR ''/'' # pipeline \<and>
      CHR ''='' \<notin> set repo \<and> CHR ''/'' \<notin> set project) \<and>
    map_of (ss_repo_map st) = map_of (rev (map (\<lambda>m. projr (parse_map m)) (sv_maps a))) \<and>
    (\<forall>p. webhook_secret st p = configured a p) \<and> ss_deliveries st = guard_default \<and>
    (\<forall>r. \<exists>i. sys_id (db_tables (ss_db st)) r = Some i \<and> perms_of (db_tables (ss_db st)) i = perm_as_str ` set (role_permissions r))"
proof -
  note P = prepared_state [OF assms(3)]
  obtain pools db1 where o: "db_open (ce_sqlx env) (ce_create_dir_all env) (ce_cpus env) (sv_db a) db = (Inr pools, db1)"
    and b: "bootstrap (ce_generate env) (now_ms (ce_elapsed env)) db1 = (Inr (), db')"
    using prepare_run [OF assms(3)] by blast
  have m: "db_faults db1 = []" "roles_wf (db_tables db1)" "catalog_complete (db_tables db1)" "\<forall>r. ce_generate env r \<notin> row_ids (db_tables db1)"
    using db_open_migrated [OF assms(1) o] by auto
  obtain t' where "db' = db1\<lparr>db_tables := t'\<rparr>" "reconciled (ce_generate env) UNIV (db_tables db1) t'"
    using bootstrap_run [OF m(1,2,3) assms(2) m(4), of "now_ms (ce_elapsed env)"] b by auto
  then have "\<exists>i. sys_id (db_tables db') r = Some i \<and> perms_of (db_tables db') i = perm_as_str ` set (role_permissions r)" for r
    by (auto simp: reconciled_def split: option.split)
  moreover have "\<exists>repo project pipeline. m = repo @ CHR ''='' # project @ CHR ''/'' # pipeline \<and> CHR ''='' \<notin> set repo \<and> CHR ''/'' \<notin> set project"
    if "m \<in> set (sv_maps a)" for m
    using P(5) that parse_map_iff [of m] by (fastforce simp: is_ok_iff)
  ultimately show ?thesis using P by simp
qed

text \<open>C16: A run the server starts is one the command line allows. Whatever requests came before, a request answered 202
  is a webhook of a provider with a non-empty secret on the command line, of an event that starts
  runs, for a repository that a \<open>--map\<close> names.\<close>

theorem served_runs_are_configured:
  assumes "prepare env a db = (Inr (st, ha, ja), db')" "server_run d st rs xs st'" "status (fst (router d r st')) = 202"
  shows "\<exists>p ev j kind repo rest. hr_route r = WebhookRoute (provider_as_str p) \<and> configured a p \<noteq> None \<and>
    cr_json d (hr_body r) = Inr j \<and> parse_payload p ev j = Inr (kind, repo, rest) \<and> starts_run p ev j \<and>
    (\<exists>m \<in> set (sv_maps a). \<exists>project pipeline. parse_map m = Inr (repo, project, pipeline))"
proof -
  obtain name where n: "hr_route r = WebhookRoute name"
    "status (fst (webhook d (hr_now r) (hr_run r) name (hr_headers r) (hr_body r) st')) = 202"
    using assms(3) trigger_closed(2) [of d "hr_run r" "hr_headers r" "hr_body r" st']
    by (cases "hr_route r") (auto simp: router_def split: if_splits)
  obtain p ev j kind repo rest where w: "name = provider_as_str p" "webhook_secret st' p \<noteq> None" "cr_json d (hr_body r) = Inr j"
    "parse_payload p ev j = Inr (kind, repo, rest)" "starts_run p ev j" "map_of (ss_repo_map st') repo \<noteq> None"
    using webhook_202 [OF n(2)] by blast
  have "map_of (rev (map (\<lambda>m. projr (parse_map m)) (sv_maps a))) repo \<noteq> None"
    using w(6) served_state(2) [OF assms(1,2)] prepared_state(4) [OF assms(1)] by simp
  then obtain m where "m \<in> set (sv_maps a)" "fst (projr (parse_map m)) = repo"
    by (auto dest!: map_of_SomeD) (metis fst_conv)
  moreover from this obtain x where "parse_map m = Inr x" using prepared_state(5) [OF assms(1)] by (auto simp: is_ok_iff)
  ultimately have "\<exists>m \<in> set (sv_maps a). \<exists>project pipeline. parse_map m = Inr (repo, project, pipeline)"
    by (cases x) auto
  then show ?thesis using n(1) w served_state(1) [OF assms(1,2)] by metis
qed

text \<open>A provider without a secret on the command line, or with an empty one, is refused: whatever requests
  came before, every delivery for it is answered 500, or 413 when its body is too long, and
  changes nothing.\<close>

theorem unconfigured_provider_is_refused:
  assumes "prepare env a db = (Inr (st, ha, ja), db')" "server_run d st rs xs st'"
    "secret_arg a p = None \<or> secret_arg a p = Some ''''" "hr_route r = WebhookRoute (provider_as_str p)"
  shows "snd (router d r st') = st' \<and> status (fst (router d r st')) = (if length (hr_body r) > MAX_BODY_BYTES then 413 else 500)"
proof -
  have "webhook_secret st' p = None"
    using served_state(1) [OF assms(1,2), of p] assms(3) by (auto simp: configured_def)
  then show ?thesis using assms(4) by (simp add: router_def webhook_unconfigured)
qed

text \<open>C39: When the interrupt stops the server. Both addresses are bound, and before and after the wait for the
  interrupt any connections come and go on both ports, without the HTTP server failing. When the wait succeeds, the server
  returns, in order, exactly if every HTTP connection open at that moment is closed afterwards. No time limit is set: one
  HTTP connection that is never closed keeps the process from stopping. Sessions of the internal protocol are
  not waited for. When the wait fails, the sender of the shutdown channel is dropped without a value, and the server
  never returns.\<close>

theorem interrupt_stops_server:
  assumes "bind ha = Inr ()" "bind ja = Inr ()" "list_all traffic es" "list_all traffic es'"
  shows "serve bind ha ja (es @ ctrl_c_events ok @ es') =
    (if ok \<and> (\<forall>c \<in> set (http_open [] es). HttpClosed c \<in> set es') then Some (Inr ()) else None)"
proof -
  have tr: "Changed b \<notin> set xs" "SenderGone \<notin> set xs" "list_all (\<lambda>e. \<forall>x. e \<noteq> HttpFailed x) xs"
    if "list_all traffic xs" for xs b
    using that by (induction xs) (auto elim: traffic.elims)
  have j: "snd (jrp_serve False (es @ ctrl_c_events ok @ es')) = ok"
    using jrp_serve_run tr(1) [OF assms(3)] tr(1) [OF assms(4)] by (auto simp: ctrl_c_events_def)
  obtain past where p: "\<not> http_shutdown past"
      "http_serve [] [] (es @ ctrl_c_events ok @ es') = http_serve past (http_open [] es) (ctrl_c_events ok @ es')"
    using http_serve_traffic [OF _ assms(3), of "[]" "[]" "ctrl_c_events ok @ es'"] by auto
  have "http_serve past (http_open [] es) (ctrl_c_events True @ es') =
      http_serve (past @ [Changed True]) (http_open [] es) (SenderGone # es')"
    using p(1) by (simp add: ctrl_c_events_def http_serve.simps [of past _ "_ # _"])
  also have "\<dots> = (if \<forall>c \<in> set (http_open [] es). HttpClosed c \<in> set es' then Some (Inr ()) else None)"
    using tr(3) [OF assms(4)] by (subst http_serve_drains) (auto simp: http_shutdown_iff)
  finally show ?thesis using assms(1,2) j p(2) by (cases ok) (auto simp: serve_def serve_stops_def split: option.split)
qed

section \<open>Witnesses\<close>

text \<open>A machine with a migrated database, a GitLab secret and one repository mapped.\<close>

definition sqlx_db :: "Db sqlx_crate" where
  "sqlx_db = \<lparr>
     sx_from_str = (\<lambda>url. Inr \<lparr>co_url = url, co_create_if_missing = False, co_foreign_keys = False, co_journal_mode = None,
       co_synchronous = None, co_busy_timeout = 0, co_shared_cache = False, co_read_only = False\<rparr>),
     sx_pool_options = \<lparr>po_max_connections = 10, po_acquire_timeout = 30, po_idle_timeout = Some 600, po_max_lifetime = Some 1800\<rparr>,
     sx_connect_with = (\<lambda>po co. aret ()),
     sx_migrate = (\<lambda>pool w. (Inr (), example_db)),
     sx_begin = (\<lambda>pool. aret ()),
     sx_close = (\<lambda>pool w. w)\<rparr>"

definition example_env :: "string cli_env" where
  "example_env = \<lparr>ce_rkyv = rkyv_ref, ce_pkg_version = ''0.1'', ce_sqlx = sqlx_db, ce_create_dir_all = (\<lambda>_. aret ()),
     ce_cpus = Some 8, ce_generate = role_key, ce_elapsed = Some 5, ce_parse_addr = Inr, ce_bind = (\<lambda>_. Inr ()),
     ce_events = [], ce_ctrl_c = True, ce_after = [], ce_reach = (\<lambda>_ _. Inl ''refused''), ce_pid = 42, ce_read_file = (\<lambda>_. Inr []), ce_ulid = ''01''\<rparr>"

definition example_args :: ServeArgs where
  "example_args = \<lparr>sv_http_port = DEFAULT_HTTP_PORT, sv_jrp_port = DEFAULT_JRP_PORT, sv_bind = ''127.0.0.1'',
     sv_db = \<lparr>pa_absolute = False, pa_components = [''jetrun.db'']\<rparr>, sv_github_secret = Some '''', sv_gitlab_secret = Some ''s3'',
     sv_bitbucket_secret = None, sv_maps = [''acme/web=web/ci'']\<rparr>"

lemma example_db_migrated: "db_faults example_db = []" "roles_wf (db_tables example_db)" "catalog_complete (db_tables example_db)"
    "\<forall>r. role_key r \<notin> row_ids (db_tables example_db)" "inj role_key"
proof -
  show "db_faults example_db = []" "roles_wf (db_tables example_db)"
    by (simp_all add: example_db_def example_tables_def roles_wf_def)
  show "catalog_complete (db_tables example_db)"
    using Permission_ALL_complete by (auto simp: catalog_complete_def example_db_def example_tables_def)
  have "role_key r \<notin> row_ids (db_tables example_db)" for r
    by (cases r) (simp_all add: example_db_def row_ids_def example_tables_def)
  then show "\<forall>r. role_key r \<notin> row_ids (db_tables example_db)" by blast
  show "inj role_key" by (auto intro: injI simp: role_key_inject)
qed

lemma example_schema_law: "schema_law (ce_sqlx example_env) (\<lambda>db. db_faults db = [] \<and> roles_wf (db_tables db) \<and> catalog_complete (db_tables db) \<and>
      (\<forall>r. ce_generate example_env r \<notin> row_ids (db_tables db)))"
  using example_db_migrated by (simp add: schema_law_def example_env_def sqlx_db_def act_defs)

lemma example_prepared: "\<exists>st ha ja db'. prepare example_env example_args db = (Inr (st, ha, ja), db') \<and> ss_repo_map st = [(''acme/web'', ''web'', ''ci'')]"
proof -
  obtain pools where o: "db_open sqlx_db (\<lambda>_. aret ()) (Some 8) \<lparr>pa_absolute = False, pa_components = [''jetrun.db'']\<rparr> db = (Inr pools, example_db)"
    by (simp add: db_open_def path_parent_def path_is_empty_def db_connect_def connect_with_def sqlx_db_def amap_err_def abind_def Let_def)
  obtain t' where b: "bootstrap role_key 5 example_db = (Inr (), example_db\<lparr>db_tables := t'\<rparr>)"
    using bootstrap_run [OF example_db_migrated(1,2,3,5,4)] by blast
  have n: "now_ms (Some 5) = 5" by (simp add: now_ms_def)
  have p: "parse_map ''acme/web=web/ci'' = Inr (''acme/web'', ''web'', ''ci'')" by (simp add: parse_map_iff)
  show ?thesis
    unfolding prepare_def example_env_def example_args_def
    by (simp add: run_rules o b n p map_repo_def state_new_def)
qed

theorem serve_prepares_witness:
  "\<exists>st ha ja db'. prepare example_env example_args example_db = (Inr (st, ha, ja), db') \<and>
     webhook_secret st GitLab = Some ''s3'' \<and> webhook_secret st GitHub = None \<and> (\<exists>i. sys_id (db_tables (ss_db st)) Viewer = Some i)"
proof -
  have inj: "inj (ce_generate example_env)" using example_db_migrated(5) by (simp add: example_env_def)
  obtain st ha ja db' where p: "prepare example_env example_args example_db = (Inr (st, ha, ja), db')" using example_prepared by blast
  have c: "configured example_args GitLab = Some ''s3''" "configured example_args GitHub = None"
    by (simp_all add: configured_def example_args_def)
  show ?thesis using serve_prepares [OF example_schema_law inj p] p c by metis
qed

text \<open>The GitLab delivery of the HTTP example, sent to the prepared server.\<close>

abbreviation example_lookup :: headers where
  "example_lookup \<equiv> headers_from (cr_to_str example_crates) (hr_headers (example_request 5))"

lemma example_verified:
  "is_ok (verify (cr_hex example_crates) (cr_hmac example_crates) GitLab example_lookup [123] (Some (bytes_of ''s3'')))"
  by code_simp

lemma example_dispatched:
  "status (parse_and_dispatch example_crates 7 GitLab example_lookup [123] \<lparr>body_authenticated = False\<rparr> example_state) = 202"
  by code_simp

lemma check_first: "fst (check now m guard_default) \<noteq> Duplicate"
  by (simp add: check_def check_seen_def guard_default_def guard_new_def Let_def split: option.split)

lemma example_served:
  assumes "ss_repo_map st = [(''acme/web'', ''web'', ''ci'')]" "webhook_secret st GitLab = Some ''s3''" "ss_deliveries st = guard_default"
  shows "status (fst (router example_crates (example_request 5) st)) = 202"
proof -
  obtain v where v: "verify (cr_hex example_crates) (cr_hmac example_crates) GitLab example_lookup [123] (Some (bytes_of ''s3'')) = Inr v"
    using example_verified by (auto simp: is_ok_iff)
  obtain dl g where ck: "check 5 (lookup_delivery example_lookup GitLab) (ss_deliveries st) = (dl, g)" "dl \<noteq> Duplicate"
    using check_first assms(3) by (metis prod.exhaust_sel)
  have "ss_repo_map example_state = ss_repo_map (st\<lparr>ss_deliveries := g\<rparr>)"
    using assms(1) by (simp add: example_state_def map_repo_def)
  then have "status (parse_and_dispatch example_crates 7 GitLab example_lookup [123] v (st\<lparr>ss_deliveries := g\<rparr>)) = 202"
    using example_dispatched unfolding parse_and_dispatch_202 by simp
  moreover have "hr_route (example_request 5) = WebhookRoute ''gitlab''" "hr_body (example_request 5) = [123]"
    "hr_now (example_request 5) = 5" "hr_run (example_request 5) = 7" "provider_named ''gitlab'' = Some GitLab"
    by (simp_all add: example_request_def provider_named_def)
  ultimately show ?thesis
    using v ck assms(2) example_limit [of 5] by (simp add: router_def webhook_def Let_def)
qed

theorem served_runs_are_configured_witness:
  "\<exists>st ha ja db'. prepare example_env example_args example_db = (Inr (st, ha, ja), db') \<and>
     status (fst (router example_crates (example_request 5) st)) = 202 \<and>
     (\<exists>p. hr_route (example_request 5) = WebhookRoute (provider_as_str p) \<and> configured example_args p \<noteq> None)"
proof -
  obtain st ha ja db' where p: "prepare example_env example_args example_db = (Inr (st, ha, ja), db')"
    and m: "ss_repo_map st = [(''acme/web'', ''web'', ''ci'')]" using example_prepared by blast
  have "configured example_args GitLab = Some ''s3''" by (simp add: configured_def example_args_def)
  then have "status (fst (router example_crates (example_request 5) st)) = 202"
    using prepared_state(2,3) [OF p] m by (intro example_served) simp_all
  then show ?thesis using served_runs_are_configured [OF p served_all [of example_crates st], of "example_request 5"] p by blast
qed

theorem unconfigured_provider_is_refused_witness:
  "\<exists>st ha ja db'. prepare example_env example_args example_db = (Inr (st, ha, ja), db') \<and>
     status (fst (router example_crates ((example_request 5)\<lparr>hr_route := WebhookRoute ''github''\<rparr>) st)) = 500"
proof -
  obtain st ha ja db' where p: "prepare example_env example_args example_db = (Inr (st, ha, ja), db')" using example_prepared by blast
  have "secret_arg example_args GitHub = Some ''''" by (simp add: example_args_def)
  then show ?thesis
    using unconfigured_provider_is_refused [OF p served_all [of example_crates st], of GitHub "(example_request 5)\<lparr>hr_route := WebhookRoute ''github''\<rparr>"]
      p example_limit [of 5] by auto
qed

theorem interrupt_stops_server_witness:
  "serve (\<lambda>_. Inr ()) () () ([AcceptFailed ''EMFILE'', HttpOpened 1] @ ctrl_c_events True @ [HttpClosed 1]) = Some (Inr ()) \<and>
   serve (\<lambda>_. Inr ()) () () ([AcceptFailed ''EMFILE'', HttpOpened 1] @ ctrl_c_events True @ []) = None \<and>
   serve (\<lambda>_. Inr ()) () () ([AcceptFailed ''EMFILE'', HttpOpened 1] @ ctrl_c_events False @ [HttpClosed 1]) = None"
  using interrupt_stops_server [of "\<lambda>_. Inr ()" "()" "()" "[AcceptFailed ''EMFILE'', HttpOpened 1]" "[HttpClosed 1]" True]
    interrupt_stops_server [of "\<lambda>_. Inr ()" "()" "()" "[AcceptFailed ''EMFILE'', HttpOpened 1]" "[]" True]
    interrupt_stops_server [of "\<lambda>_. Inr ()" "()" "()" "[AcceptFailed ''EMFILE'', HttpOpened 1]" "[HttpClosed 1]" False]
  by simp

lemma example_sendable:
  assumes "is_ok (msg_encode rkyv_ref p)" "length (payload_bytes rkyv_ref p) < 200"
  shows "sendable rkyv_ref p"
  using assms by (auto simp: sendable_def payload_bytes_def is_ok_iff unat_MAX_PAYLOAD)

lemma example_sends:
  "sendable rkyv_ref (PHello (client_hello (cli_agent example_env)))"
  "sendable rkyv_ref (PHelloAck (ack_of ''0.1'' ''s1'' (cli_agent example_env)))"
  "sendable rkyv_ref (PPing \<lparr>pi_nonce = ucast (ce_pid example_env)\<rparr>)"
  "sendable rkyv_ref (PPong \<lparr>po_nonce = ucast (ce_pid example_env)\<rparr>)"
  "sendable rkyv_ref (PErrorMsg (refusal (Some ''jetr_a_b'')))"
  "sendable rkyv_ref (PAuth \<lparr>au_token = ''jetr_a_b''\<rparr>)"
  by (rule example_sendable; code_simp)+

lemma example_fresh: "fresh (example_stream [])"
  by (simp add: fresh_def example_stream_def)

lemma example_agent: "rkyv_ok (ce_rkyv example_env)" "length (cli_agent example_env) \<le> MAX_AGENT_LEN" "ce_rkyv example_env = rkyv_ref"
  using rkyv_ref_ok by (simp_all add: cli_agent_def example_env_def MAX_AGENT_LEN_def)

theorem ping_end_to_end_witness:
  "\<exists>C S c' s'. ping_session example_env (fst (conn_client ((example_stream [])\<lparr>rx := S\<rparr>))) =
      (Inr (ping_line (ack_of ''0.1'' ''s1'' (cli_agent example_env))), c') \<and>
    tx (jc_stream c') = C \<and>
    handle rkyv_ref ''0.1'' ''s1'' ((example_stream [])\<lparr>rx := C\<rparr>) ''peer'' = (Inr (), s') \<and> tx (jc_stream (se_conn s')) = S"
  using ping_end_to_end [OF example_agent(1,2), unfolded example_agent(3), OF example_sends(1,2,3,4) example_fresh example_fresh] .

definition example_submit :: SubmitArgs where
  "example_submit = \<lparr>sb_host = ''127.0.0.1'', sb_port = DEFAULT_JRP_PORT, sb_project = ''web'', sb_pipeline = ''ci'',
     sb_file = ''jetrun.yaml'', sb_token = Some ''jetr_a_b''\<rparr>"

lemma example_token: "sb_token example_submit = Some ''jetr_a_b''"
    "first_request example_env example_submit yaml = PAuth \<lparr>au_token = ''jetr_a_b''\<rparr>"
  by (simp_all add: example_submit_def first_request_def)

theorem submit_is_refused_witness:
  "\<exists>C S c' s'. submit_session example_env example_submit [] (fst (conn_client ((example_stream [])\<lparr>rx := S\<rparr>))) =
      (Inl (CliMsg (refusal_text (Some ''jetr_a_b''))), c') \<and> tx (jc_stream c') = C \<and>
    handle rkyv_ref ''0.1'' ''s1'' ((example_stream [])\<lparr>rx := C\<rparr>) ''peer'' = (Inr (), s') \<and> tx (jc_stream (se_conn s')) = S"
  using submit_is_refused [OF example_agent(1,2), unfolded example_agent(3), OF example_sends(1,2),
      of example_submit "[]", unfolded example_token, OF example_sends(6,5) example_fresh example_fresh] .

end
