(* ===== verification/Jet_Sql.thy ===== *)
theory Jet_Sql
  imports Jet_Prelude
begin

text \<open>
  The SQL that the migrations of \<open>crates/jet-store/migrations\<close> are written in: tables with typed columns,
  defaults, CHECK constraints, unique (partial) indexes, foreign keys with their ON DELETE actions and
  triggers that raise, and the statements INSERT (plain, OR IGNORE, OR REPLACE), UPDATE and DELETE on them, as SQLite runs them
  on STRICT tables with foreign keys enforced and \<open>recursive_triggers\<close> off. A schema is data; \<open>Jet_Schema\<close> gives the one of the migrations.

  A statement that fails changes nothing. Conditions have three truth values: a CHECK fails only when it is false,
  a WHERE selects only when it is true. NULL keys never collide in a unique index. A statement
  checks foreign keys at its end; a cascading DELETE follows them from parents to children, and since a table
  refers only to tables created before it, one pass over the tables in that order finds every row to delete.
\<close>

section \<open>Values and conditions\<close>

datatype SqlValue = SqlNull | SqlText string | SqlInt int | SqlBlob bytes

datatype SqlType = TyText | TyInteger | TyBlob

type_synonym SqlRow = "(string \<times> SqlValue) list"

definition col :: "SqlRow \<Rightarrow> string \<Rightarrow> SqlValue" where
  "col r c = (case map_of r c of Some v \<Rightarrow> v | None \<Rightarrow> SqlNull)"

datatype SqlExpr =
    EIn string "SqlValue list"
  | EEq string SqlValue
  | ENe string SqlValue
  | EIsNull string
  | ENotNull string
  | EAnd SqlExpr SqlExpr
  | EOr SqlExpr SqlExpr
  | ETrue

fun k_and :: "bool option \<Rightarrow> bool option \<Rightarrow> bool option" where
  "k_and (Some False) b = Some False"
| "k_and (Some True) b = b"
| "k_and None (Some False) = Some False"
| "k_and None b = None"

fun k_or :: "bool option \<Rightarrow> bool option \<Rightarrow> bool option" where
  "k_or (Some True) b = Some True"
| "k_or (Some False) b = b"
| "k_or None (Some True) = Some True"
| "k_or None b = None"

definition unless_null :: "SqlValue \<Rightarrow> bool \<Rightarrow> bool option" where
  "unless_null v b = (if v = SqlNull then None else Some b)"

fun truth :: "SqlExpr \<Rightarrow> SqlRow \<Rightarrow> bool option" where
  "truth (EIn c vs) r = unless_null (col r c) (col r c \<in> set vs)"
| "truth (EEq c v) r = (if v = SqlNull then None else unless_null (col r c) (col r c = v))"
| "truth (ENe c v) r = (if v = SqlNull then None else unless_null (col r c) (col r c \<noteq> v))"
| "truth (EIsNull c) r = Some (col r c = SqlNull)"
| "truth (ENotNull c) r = Some (col r c \<noteq> SqlNull)"
| "truth (EAnd a b) r = k_and (truth a r) (truth b r)"
| "truth (EOr a b) r = k_or (truth a r) (truth b r)"
| "truth ETrue r = Some True"

definition holds :: "SqlExpr \<Rightarrow> SqlRow \<Rightarrow> bool" where
  "holds e r \<longleftrightarrow> truth e r = Some True"

section \<open>Tables\<close>

record SqlColumn =
  cl_name :: string
  cl_type :: SqlType
  cl_not_null :: bool
  cl_default :: SqlValue

datatype IndexTerm = IxCol string | IxLower string

record SqlIndex =
  ix_terms :: "IndexTerm list"
  ix_where :: SqlExpr

datatype OnDelete = Cascade | SetNull | Restrict

record ForeignKey =
  fk_col :: string
  fk_table :: string
  fk_ref :: string
  fk_action :: OnDelete

record SqlTable =
  tb_name :: string
  tb_columns :: "SqlColumn list"
  tb_checks :: "SqlExpr list"
  tb_uniques :: "SqlIndex list"
  tb_fks :: "ForeignKey list"
  tb_on_update :: "string option"
  tb_on_delete :: "string option"

type_synonym SqlSchema = "SqlTable list"
type_synonym SqlDb = "string \<Rightarrow> SqlRow list"

datatype SqlError =
    NoSuchTable string
  | NoSuchColumn string
  | DatatypeMismatch string
  | NotNullFailed string
  | CheckFailed string
  | UniqueFailed string
  | ForeignKeyFailed
  | Raised string
  | RowNotFound

definition find_table :: "SqlSchema \<Rightarrow> string \<Rightarrow> SqlTable option" where
  "find_table sch t = find (\<lambda>tb. tb_name tb = t) sch"

section \<open>Constraints on rows\<close>

fun has_type :: "SqlType \<Rightarrow> SqlValue \<Rightarrow> bool" where
  "has_type ty SqlNull = True"
| "has_type TyText (SqlText s) = True"
| "has_type TyInteger (SqlInt i) = True"
| "has_type TyBlob (SqlBlob b) = True"
| "has_type ty v = False"

definition typed_row :: "SqlTable \<Rightarrow> SqlRow \<Rightarrow> bool" where
  "typed_row tb r \<longleftrightarrow> list_all (\<lambda>c. has_type (cl_type c) (col r (cl_name c))) (tb_columns tb)"

definition filled_row :: "SqlTable \<Rightarrow> SqlRow \<Rightarrow> bool" where
  "filled_row tb r \<longleftrightarrow> list_all (\<lambda>c. cl_not_null c \<longrightarrow> col r (cl_name c) \<noteq> SqlNull) (tb_columns tb)"

definition checked_row :: "SqlTable \<Rightarrow> SqlRow \<Rightarrow> bool" where
  "checked_row tb r \<longleftrightarrow> list_all (\<lambda>e. truth e r \<noteq> Some False) (tb_checks tb)"

definition sql_lower :: "SqlValue \<Rightarrow> SqlValue" where
  "sql_lower v = (case v of SqlText s \<Rightarrow> SqlText (to_ascii_lowercase s) | _ \<Rightarrow> v)"

fun ix_value :: "SqlRow \<Rightarrow> IndexTerm \<Rightarrow> SqlValue" where
  "ix_value r (IxCol c) = col r c"
| "ix_value r (IxLower c) = sql_lower (col r c)"

definition ix_key :: "SqlIndex \<Rightarrow> SqlRow \<Rightarrow> SqlValue list" where
  "ix_key ix r = map (ix_value r) (ix_terms ix)"

definition collide :: "SqlIndex \<Rightarrow> SqlRow \<Rightarrow> SqlRow \<Rightarrow> bool" where
  "collide ix r s \<longleftrightarrow> holds (ix_where ix) r \<and> holds (ix_where ix) s \<and> ix_key ix r = ix_key ix s \<and>
     SqlNull \<notin> set (ix_key ix r)"

definition clash :: "SqlTable \<Rightarrow> SqlRow \<Rightarrow> SqlRow \<Rightarrow> bool" where
  "clash tb r s \<longleftrightarrow> list_ex (\<lambda>ix. collide ix r s) (tb_uniques tb)"

definition fk_found :: "SqlDb \<Rightarrow> ForeignKey \<Rightarrow> SqlRow \<Rightarrow> bool" where
  "fk_found db fk r \<longleftrightarrow> col r (fk_col fk) = SqlNull \<or>
     list_ex (\<lambda>p. col p (fk_ref fk) = col r (fk_col fk)) (db (fk_table fk))"

definition fks_found :: "SqlSchema \<Rightarrow> SqlDb \<Rightarrow> bool" where
  "fks_found sch db \<longleftrightarrow>
     list_all (\<lambda>tb. list_all (\<lambda>fk. list_all (fk_found db fk) (db (tb_name tb))) (tb_fks tb)) sch"

section \<open>Statements\<close>

datatype SqlStmt =
    Insert bool string "(string \<times> SqlValue) list"
  | Replace string "(string \<times> SqlValue) list"
  | Update string SqlExpr "(string \<times> (SqlRow \<Rightarrow> SqlValue)) list"
  | Delete_from string SqlExpr

text \<open>The row of an INSERT: every column in order, defaults for those not given.\<close>

definition complete_row :: "SqlTable \<Rightarrow> (string \<times> SqlValue) list \<Rightarrow> SqlRow" where
  "complete_row tb vals = map (\<lambda>c. (cl_name c, case map_of vals (cl_name c) of Some v \<Rightarrow> v | None \<Rightarrow> cl_default c)) (tb_columns tb)"

text \<open>\<open>OR IGNORE\<close> (the flag) skips the row on a NOT NULL, CHECK or UNIQUE failure, not on a foreign key's.\<close>

definition sql_insert :: "SqlSchema \<Rightarrow> bool \<Rightarrow> SqlTable \<Rightarrow> (string \<times> SqlValue) list \<Rightarrow> SqlDb \<Rightarrow> SqlError + SqlDb" where
  "sql_insert sch ignore_it tb vals db =
     (let t = tb_name tb; r = complete_row tb vals; db' = db(t := db t @ [r]) in
      if \<not> set (map fst vals) \<subseteq> set (map cl_name (tb_columns tb)) then Inl (NoSuchColumn t)
      else if \<not> typed_row tb r then Inl (DatatypeMismatch t)
      else if \<not> filled_row tb r then if ignore_it then Inr db else Inl (NotNullFailed t)
      else if \<not> checked_row tb r then if ignore_it then Inr db else Inl (CheckFailed t)
      else if list_ex (clash tb r) (db t) then if ignore_it then Inr db else Inl (UniqueFailed t)
      else if \<not> list_all (\<lambda>fk. fk_found db' fk r) (tb_fks tb) then Inl ForeignKeyFailed
      else Inr db')"

text \<open>UPDATE changes the selected rows one after the other, each against the table as it is by then.\<close>

definition assign :: "(string \<times> (SqlRow \<Rightarrow> SqlValue)) list \<Rightarrow> SqlRow \<Rightarrow> SqlRow" where
  "assign sets r = map (\<lambda>(c, v). (c, case map_of sets c of Some f \<Rightarrow> f r | None \<Rightarrow> v)) r"

fun update_rows ::
  "SqlTable \<Rightarrow> SqlExpr \<Rightarrow> (string \<times> (SqlRow \<Rightarrow> SqlValue)) list \<Rightarrow> SqlRow list \<Rightarrow> SqlRow list \<Rightarrow> SqlError + SqlRow list" where
  "update_rows tb e sets done_rows [] = Inr done_rows"
| "update_rows tb e sets done_rows (r # rs) =
     (if \<not> holds e r then update_rows tb e sets (done_rows @ [r]) rs
      else
        let r' = assign sets r; t = tb_name tb in
        if \<not> typed_row tb r' then Inl (DatatypeMismatch t)
        else if \<not> filled_row tb r' then Inl (NotNullFailed t)
        else if \<not> checked_row tb r' then Inl (CheckFailed t)
        else if list_ex (clash tb r') (done_rows @ rs) then Inl (UniqueFailed t)
        else update_rows tb e sets (done_rows @ [r']) rs)"

definition sql_update ::
  "SqlSchema \<Rightarrow> SqlTable \<Rightarrow> SqlExpr \<Rightarrow> (string \<times> (SqlRow \<Rightarrow> SqlValue)) list \<Rightarrow> SqlDb \<Rightarrow> SqlError + SqlDb" where
  "sql_update sch tb e sets db =
     (let t = tb_name tb in
      if \<not> set (map fst sets) \<subseteq> set (map cl_name (tb_columns tb)) then Inl (NoSuchColumn t)
      else if tb_on_update tb \<noteq> None \<and> list_ex (holds e) (db t) then Inl (Raised (the (tb_on_update tb)))
      else rbind (update_rows tb e sets [] (db t)) (\<lambda>rs.
        if \<not> fks_found sch (db(t := rs)) then Inl ForeignKeyFailed else Inr (db(t := rs))))"

text \<open>The rows a DELETE takes with it, table by table.\<close>

definition points_to :: "ForeignKey \<Rightarrow> SqlRow \<Rightarrow> SqlRow \<Rightarrow> bool" where
  "points_to fk r p \<longleftrightarrow> col r (fk_col fk) \<noteq> SqlNull \<and> col p (fk_ref fk) = col r (fk_col fk)"

definition loses_parent :: "SqlDb \<Rightarrow> (string \<Rightarrow> SqlRow \<Rightarrow> bool) \<Rightarrow> ForeignKey \<Rightarrow> SqlRow \<Rightarrow> bool" where
  "loses_parent db D fk r \<longleftrightarrow> list_ex (\<lambda>p. D (fk_table fk) p \<and> points_to fk r p) (db (fk_table fk))"

definition condemn_table :: "SqlDb \<Rightarrow> SqlTable \<Rightarrow> (string \<Rightarrow> SqlRow \<Rightarrow> bool) \<Rightarrow> string \<Rightarrow> SqlRow \<Rightarrow> bool" where
  "condemn_table db tb D = D(tb_name tb := (\<lambda>r. D (tb_name tb) r \<or>
     list_ex (\<lambda>fk. fk_action fk = Cascade \<and> loses_parent db D fk r) (tb_fks tb)))"

definition condemned_from :: "SqlSchema \<Rightarrow> (string \<Rightarrow> SqlRow \<Rightarrow> bool) \<Rightarrow> SqlDb \<Rightarrow> string \<Rightarrow> SqlRow \<Rightarrow> bool" where
  "condemned_from sch S db = fold (condemn_table db) sch S"

definition condemned :: "SqlSchema \<Rightarrow> string \<Rightarrow> SqlExpr \<Rightarrow> SqlDb \<Rightarrow> string \<Rightarrow> SqlRow \<Rightarrow> bool" where
  "condemned sch t e = condemned_from sch (\<lambda>t' r. t' = t \<and> holds e r)"

definition null_parents :: "SqlDb \<Rightarrow> (string \<Rightarrow> SqlRow \<Rightarrow> bool) \<Rightarrow> SqlTable \<Rightarrow> SqlRow \<Rightarrow> SqlRow" where
  "null_parents db D tb r = map (\<lambda>(c, v).
     (c, if list_ex (\<lambda>fk. fk_action fk = SetNull \<and> fk_col fk = c \<and> loses_parent db D fk r) (tb_fks tb) then SqlNull else v)) r"

definition delete_rows :: "SqlSchema \<Rightarrow> (string \<Rightarrow> SqlRow \<Rightarrow> bool) \<Rightarrow> SqlDb \<Rightarrow> SqlDb" where
  "delete_rows sch D db = (\<lambda>t. case find_table sch t of
     None \<Rightarrow> db t
   | Some tb \<Rightarrow> map (null_parents db D tb) (filter (\<lambda>r. \<not> D t r) (db t)))"

definition raising :: "SqlSchema \<Rightarrow> (string \<Rightarrow> SqlRow \<Rightarrow> bool) \<Rightarrow> SqlDb \<Rightarrow> SqlTable option" where
  "raising sch D db = find (\<lambda>tb. tb_on_delete tb \<noteq> None \<and> list_ex (D (tb_name tb)) (db (tb_name tb))) sch"

definition restricted :: "SqlSchema \<Rightarrow> (string \<Rightarrow> SqlRow \<Rightarrow> bool) \<Rightarrow> SqlDb \<Rightarrow> bool" where
  "restricted sch D db \<longleftrightarrow> list_ex (\<lambda>tb. list_ex (\<lambda>fk. fk_action fk = Restrict \<and>
     list_ex (loses_parent db D fk) (db (tb_name tb))) (tb_fks tb)) sch"

definition sql_delete :: "SqlSchema \<Rightarrow> string \<Rightarrow> SqlExpr \<Rightarrow> SqlDb \<Rightarrow> SqlError + SqlDb" where
  "sql_delete sch t e db =
     (let D = condemned sch t e db in
      case raising sch D db of
        Some tb \<Rightarrow> Inl (Raised (the (tb_on_delete tb)))
      | None \<Rightarrow> if restricted sch D db then Inl ForeignKeyFailed else Inr (delete_rows sch D db))"

text \<open>\<open>INSERT OR REPLACE\<close>: a required value that is NULL becomes the default of its column; the rows that clash with the new one
  are deleted first, with what their foreign keys demand, and no trigger of the table fires for them, since the connections
  leave \<open>recursive_triggers\<close> off as SQLite has it (triggers of other tables fire for the rows deleted along foreign keys).\<close>

definition replace_row :: "SqlTable \<Rightarrow> (string \<times> SqlValue) list \<Rightarrow> SqlRow" where
  "replace_row tb vals = map (\<lambda>c. (cl_name c,
     let v = (case map_of vals (cl_name c) of Some v \<Rightarrow> v | None \<Rightarrow> cl_default c) in
     if v = SqlNull \<and> cl_not_null c then cl_default c else v)) (tb_columns tb)"

definition sql_replace :: "SqlSchema \<Rightarrow> SqlTable \<Rightarrow> (string \<times> SqlValue) list \<Rightarrow> SqlDb \<Rightarrow> SqlError + SqlDb" where
  "sql_replace sch tb vals db =
     (let t = tb_name tb; r = replace_row tb vals in
      if \<not> set (map fst vals) \<subseteq> set (map cl_name (tb_columns tb)) then Inl (NoSuchColumn t)
      else if \<not> typed_row tb r then Inl (DatatypeMismatch t)
      else if \<not> filled_row tb r then Inl (NotNullFailed t)
      else if \<not> checked_row tb r then Inl (CheckFailed t)
      else
        let D = condemned_from sch (\<lambda>t' s. t' = t \<and> clash tb r s) db in
        case raising (filter (\<lambda>tb'. tb_name tb' \<noteq> t) sch) D db of
          Some tb' \<Rightarrow> Inl (Raised (the (tb_on_delete tb')))
        | None \<Rightarrow>
            if restricted sch D db then Inl ForeignKeyFailed
            else
              let kept = delete_rows sch D db; db' = kept(t := kept t @ [r]) in
              if \<not> list_all (\<lambda>fk. fk_found db' fk r) (tb_fks tb) then Inl ForeignKeyFailed else Inr db')"

fun exec_sql :: "SqlSchema \<Rightarrow> SqlStmt \<Rightarrow> SqlDb \<Rightarrow> SqlError + SqlDb" where
  "exec_sql sch (Insert ignore_it t vals) db =
     (case find_table sch t of None \<Rightarrow> Inl (NoSuchTable t) | Some tb \<Rightarrow> sql_insert sch ignore_it tb vals db)"
| "exec_sql sch (Replace t vals) db =
     (case find_table sch t of None \<Rightarrow> Inl (NoSuchTable t) | Some tb \<Rightarrow> sql_replace sch tb vals db)"
| "exec_sql sch (Update t e sets) db =
     (case find_table sch t of None \<Rightarrow> Inl (NoSuchTable t) | Some tb \<Rightarrow> sql_update sch tb e sets db)"
| "exec_sql sch (Delete_from t e) db =
     (case find_table sch t of None \<Rightarrow> Inl (NoSuchTable t) | Some _ \<Rightarrow> sql_delete sch t e db)"

text \<open>A statement in its own transaction.\<close>

definition sql_step :: "SqlSchema \<Rightarrow> SqlDb \<Rightarrow> SqlStmt \<Rightarrow> SqlDb" where
  "sql_step sch db s = (case exec_sql sch s db of Inl _ \<Rightarrow> db | Inr db' \<Rightarrow> db')"

section \<open>Well-formed schemas and databases\<close>

fun expr_cols :: "SqlExpr \<Rightarrow> string list" where
  "expr_cols (EIn c vs) = [c]"
| "expr_cols (EEq c v) = [c]"
| "expr_cols (ENe c v) = [c]"
| "expr_cols (EIsNull c) = [c]"
| "expr_cols (ENotNull c) = [c]"
| "expr_cols (EAnd a b) = expr_cols a @ expr_cols b"
| "expr_cols (EOr a b) = expr_cols a @ expr_cols b"
| "expr_cols ETrue = []"

fun term_col :: "IndexTerm \<Rightarrow> string" where
  "term_col (IxCol c) = c"
| "term_col (IxLower c) = c"

definition constrained_cols :: "SqlTable \<Rightarrow> string list" where
  "constrained_cols tb = map cl_name (filter cl_not_null (tb_columns tb)) @ concat (map expr_cols (tb_checks tb)) @
     concat (map (\<lambda>ix. map term_col (ix_terms ix) @ expr_cols (ix_where ix)) (tb_uniques tb))"

definition nulled_cols :: "SqlTable \<Rightarrow> string list" where
  "nulled_cols tb = map fk_col (filter (\<lambda>fk. fk_action fk = SetNull) (tb_fks tb))"

text \<open>Names are distinct; a foreign key refers to a table created before, never to a column that a DELETE may set to
  NULL; such a column is under no other constraint and in no table whose updates raise.\<close>

fun fks_earlier :: "SqlSchema \<Rightarrow> SqlSchema \<Rightarrow> bool" where
  "fks_earlier before [] = True"
| "fks_earlier before (tb # rest) \<longleftrightarrow>
     list_all (\<lambda>fk. list_ex (\<lambda>p. tb_name p = fk_table fk \<and> fk_ref fk \<notin> set (nulled_cols p)) before) (tb_fks tb) \<and>
     fks_earlier (before @ [tb]) rest"

definition wf_schema :: "SqlSchema \<Rightarrow> bool" where
  "wf_schema sch \<longleftrightarrow> distinct (map tb_name sch) \<and> fks_earlier [] sch \<and>
     list_all (\<lambda>tb. distinct (map cl_name (tb_columns tb)) \<and> set (nulled_cols tb) \<inter> set (constrained_cols tb) = {} \<and>
       (tb_on_update tb = None \<or> nulled_cols tb = [])) sch"

definition row_ok :: "SqlTable \<Rightarrow> SqlRow \<Rightarrow> bool" where
  "row_ok tb r \<longleftrightarrow> map fst r = map cl_name (tb_columns tb) \<and> typed_row tb r \<and> filled_row tb r \<and> checked_row tb r"

definition table_ok :: "SqlTable \<Rightarrow> SqlRow list \<Rightarrow> bool" where
  "table_ok tb rs \<longleftrightarrow> list_all (row_ok tb) rs \<and> sorted_wrt (\<lambda>r s. \<not> clash tb r s) rs"

definition db_ok :: "SqlSchema \<Rightarrow> SqlDb \<Rightarrow> bool" where
  "db_ok sch db \<longleftrightarrow> (\<forall>tb \<in> set sch. table_ok tb (db (tb_name tb))) \<and> fks_found sch db \<and>
     (\<forall>t. t \<notin> tb_name ` set sch \<longrightarrow> db t = [])"

lemma find_table_Some: "find_table sch t = Some tb \<Longrightarrow> tb \<in> set sch \<and> tb_name tb = t"
  by (auto simp: find_table_def find_Some_iff)

lemma find_table_None: "find_table sch t = None \<longleftrightarrow> t \<notin> tb_name ` set sch"
  by (auto simp: find_table_def find_None_iff)

lemma find_table_eq: "distinct (map tb_name sch) \<Longrightarrow> tb \<in> set sch \<Longrightarrow> find_table sch (tb_name tb) = Some tb"
  by (induction sch) (auto simp: find_table_def)

lemma clash_sym: "clash tb r s = clash tb s r"
  by (auto simp: clash_def collide_def list_ex_iff)

lemma table_name_inj: "distinct (map tb_name sch) \<Longrightarrow> tb \<in> set sch \<Longrightarrow> tb' \<in> set sch \<Longrightarrow> tb_name tb = tb_name tb' \<Longrightarrow> tb = tb'"
  by (metis distinct_map inj_onD)

lemma fks_foundD:
  "fks_found sch db \<Longrightarrow> tb \<in> set sch \<Longrightarrow> fk \<in> set (tb_fks tb) \<Longrightarrow> r \<in> set (db (tb_name tb)) \<Longrightarrow> fk_found db fk r"
  by (simp add: fks_found_def list_all_iff)

lemma fks_foundI:
  "(\<And>tb fk r. tb \<in> set sch \<Longrightarrow> fk \<in> set (tb_fks tb) \<Longrightarrow> r \<in> set (db (tb_name tb)) \<Longrightarrow> fk_found db fk r) \<Longrightarrow> fks_found sch db"
  by (simp add: fks_found_def list_all_iff)

lemma fk_found_mono: "fk_found db fk r \<Longrightarrow> (\<And>t. set (db t) \<subseteq> set (db' t)) \<Longrightarrow> fk_found db' fk r"
  unfolding fk_found_def list_ex_iff by blast

section \<open>Statements keep a database well-formed\<close>

lemma complete_row_cols: "map fst (complete_row tb vals) = map cl_name (tb_columns tb)"
  by (simp add: complete_row_def comp_def)

lemma add_row_ok:
  assumes "wf_schema sch" "db_ok sch db" "tb \<in> set sch" "row_ok tb r" "\<not> list_ex (clash tb r) (db (tb_name tb))"
    "db' = db(tb_name tb := db (tb_name tb) @ [r])" "\<forall>fk \<in> set (tb_fks tb). fk_found db' fk r"
  shows "db_ok sch db'"
proof -
  let ?t = "tb_name tb"
  note db' = assms(6)
  have mono: "set (db t) \<subseteq> set (db' t)" for t unfolding db' by auto
  have "table_ok tb' (db' (tb_name tb'))" if "tb' \<in> set sch" for tb'
  proof (cases "tb' = tb")
    case True
    have "table_ok tb (db ?t)" using assms(2,3) by (simp add: db_ok_def)
    then show ?thesis
      using assms(4,5) True by (auto simp: table_ok_def db' sorted_wrt_append list_ex_iff clash_sym [of tb _ r])
  next
    case False
    then have "tb_name tb' \<noteq> ?t" using table_name_inj assms(1,3) that by (auto simp: wf_schema_def)
    then show ?thesis using assms(2) that by (simp add: db' db_ok_def)
  qed
  moreover have "fks_found sch db'"
  proof (rule fks_foundI)
    fix tb' fk s
    assume a: "tb' \<in> set sch" "fk \<in> set (tb_fks tb')" "s \<in> set (db' (tb_name tb'))"
    show "fk_found db' fk s"
    proof (cases "s \<in> set (db (tb_name tb'))")
      case True
      then show ?thesis using fks_foundD [of sch db] assms(2) a(1,2) fk_found_mono mono by (metis db_ok_def)
    next
      case False
      then have "tb_name tb' = ?t" "s = r" using a(3) by (auto simp: db' split: if_splits)
      then show ?thesis using table_name_inj [of sch tb' tb] assms(1,3,7) a(1,2) by (auto simp: wf_schema_def)
    qed
  qed
  moreover have "db' t = []" if "t \<notin> tb_name ` set sch" for t
    using assms(2,3) that by (auto simp: db' db_ok_def)
  ultimately show ?thesis by (simp add: db_ok_def)
qed

lemma sql_insert_ok:
  assumes "wf_schema sch" "db_ok sch db" "tb \<in> set sch" "sql_insert sch ig tb vals db = Inr db'"
  shows "db_ok sch db'"
proof (cases "db' = db")
  case False
  then show ?thesis
    using assms(4) by (intro add_row_ok [OF assms(1-3), of "complete_row tb vals"])
      (auto simp: sql_insert_def Let_def row_ok_def complete_row_cols list_all_iff split: if_splits)
qed (use assms(2) in simp)

lemma assign_cols: "map fst (assign sets r) = map fst r"
  by (auto simp: assign_def)

lemma update_rows_ok:
  "update_rows tb e sets ds rs = Inr rs' \<Longrightarrow> table_ok tb (ds @ rs) \<Longrightarrow> table_ok tb rs'"
proof (induction tb e sets ds rs rule: update_rows.induct)
  case (2 tb e sets ds r rs)
  show ?case
  proof (cases "holds e r")
    case False
    then show ?thesis using 2 by simp
  next
    case True
    let ?r = "assign sets r"
    have c: "typed_row tb ?r" "filled_row tb ?r" "checked_row tb ?r" "\<not> list_ex (clash tb ?r) (ds @ rs)"
      and run: "update_rows tb e sets (ds @ [?r]) rs = Inr rs'"
      using 2(3) True by (auto simp: Let_def split: if_splits)
    have "row_ok tb r" using 2(4) by (simp add: table_ok_def)
    then have "row_ok tb ?r" using c(1-3) by (simp add: row_ok_def assign_cols)
    then have "table_ok tb ((ds @ [?r]) @ rs)"
      using 2(4) c(4) by (auto simp: table_ok_def sorted_wrt_append list_ex_iff clash_sym [of tb _ ?r])
    then show ?thesis using 2(2) [OF _ refl refl] True c run by simp
  qed
qed simp

lemma sql_update_ok:
  assumes "wf_schema sch" "db_ok sch db" "tb \<in> set sch" "sql_update sch tb e sets db = Inr db'"
  shows "db_ok sch db'"
proof -
  let ?t = "tb_name tb"
  obtain rs where rs: "update_rows tb e sets [] (db ?t) = Inr rs" "fks_found sch (db(?t := rs))" "db' = db(?t := rs)"
    using assms(4) by (auto simp: sql_update_def Let_def rbind_def split: if_splits sum.splits)
  have "table_ok tb rs" using update_rows_ok [OF rs(1)] assms(2,3) by (simp add: db_ok_def)
  moreover have "tb_name tb' \<noteq> ?t" if "tb' \<in> set sch" "tb' \<noteq> tb" for tb'
    using that table_name_inj assms(1,3) by (auto simp: wf_schema_def)
  ultimately show ?thesis using assms(2,3) rs(2,3) by (auto simp: db_ok_def)
qed

lemma fks_earlier_parent:
  "fks_earlier before sch \<Longrightarrow> tb \<in> set sch \<Longrightarrow> fk \<in> set (tb_fks tb) \<Longrightarrow>
     \<exists>p \<in> set (before @ sch). tb_name p = fk_table fk \<and> fk_ref fk \<notin> set (nulled_cols p)"
proof (induction before sch rule: fks_earlier.induct)
  case (2 before tb' rest)
  then show ?case by (cases "tb = tb'") (force simp: list_all_iff list_ex_iff)+
qed simp

lemma fk_parent:
  assumes "wf_schema sch" "tb \<in> set sch" "fk \<in> set (tb_fks tb)"
  obtains p where "p \<in> set sch" "tb_name p = fk_table fk" "fk_ref fk \<notin> set (nulled_cols p)"
  using fks_earlier_parent [of "[]" sch tb fk] assms by (auto simp: wf_schema_def)

lemma condemn_at: "condemn_table db tb D (tb_name tb) r \<longleftrightarrow> D (tb_name tb) r \<or>
    (\<exists>fk \<in> set (tb_fks tb). fk_action fk = Cascade \<and> loses_parent db D fk r)"
  by (auto simp: condemn_table_def list_ex_iff)

lemma condemn_off: "t \<noteq> tb_name tb \<Longrightarrow> condemn_table db tb D t = D t"
  by (simp add: condemn_table_def)

lemma condemn_other: "t \<notin> tb_name ` set sch \<Longrightarrow> fold (condemn_table db) sch D t = D t"
  by (induction sch arbitrary: D) (simp_all add: condemn_off)

lemma loses_parent_cong: "D (fk_table fk) = D' (fk_table fk) \<Longrightarrow> loses_parent db D fk r = loses_parent db D' fk r"
  by (simp add: loses_parent_def)

lemma condemn_fixpoint:
  "fks_earlier before sch \<Longrightarrow> distinct (map tb_name (before @ sch)) \<Longrightarrow> tb \<in> set sch \<Longrightarrow>
   fold (condemn_table db) sch D (tb_name tb) r \<longleftrightarrow> D (tb_name tb) r \<or>
     (\<exists>fk \<in> set (tb_fks tb). fk_action fk = Cascade \<and> loses_parent db (fold (condemn_table db) sch D) fk r)"
proof (induction before sch arbitrary: D rule: fks_earlier.induct)
  case (2 before tb0 rest)
  let ?F = "fold (condemn_table db) (tb0 # rest) D"
  show ?case
  proof (cases "tb = tb0")
    case True
    have "?F (fk_table fk) = D (fk_table fk)" if "fk \<in> set (tb_fks tb0)" for fk
    proof (rule condemn_other)
      have "fk_table fk \<in> tb_name ` set before" using 2(2) that by (force simp: list_all_iff list_ex_iff)
      then show "fk_table fk \<notin> tb_name ` set (tb0 # rest)" using 2(3) by auto
    qed
    then have "loses_parent db ?F fk r = loses_parent db D fk r" if "fk \<in> set (tb_fks tb0)" for fk
      using that loses_parent_cong by blast
    moreover have "?F (tb_name tb0) = condemn_table db tb0 D (tb_name tb0)"
      using 2(3) by (simp add: condemn_other)
    ultimately show ?thesis unfolding True by (metis condemn_at)
  next
    case False
    then have r: "tb \<in> set rest" using 2(4) by simp
    moreover from r have "tb_name tb \<noteq> tb_name tb0" using 2(3) by (metis distinct.simps(2) distinct_append
      image_eqI list.simps(9) map_append set_map)
    ultimately have "tb \<in> set rest" "tb_name tb \<noteq> tb_name tb0" by blast+
    then show ?thesis using 2(1) [of "condemn_table db tb0 D"] 2(2,3) by (simp add: condemn_off)
  qed
qed simp

text \<open>The rows a DELETE removes are those it selects and those whose parent, along a cascading key, it removes.\<close>

lemma condemned_from_iff:
  assumes "wf_schema sch" "tb \<in> set sch"
  shows "condemned_from sch S db (tb_name tb) r \<longleftrightarrow> S (tb_name tb) r \<or>
    (\<exists>fk \<in> set (tb_fks tb). fk_action fk = Cascade \<and> loses_parent db (condemned_from sch S db) fk r)"
  using condemn_fixpoint [of "[]" sch tb db] assms unfolding condemned_from_def wf_schema_def by simp

lemma condemned_iff:
  assumes "wf_schema sch" "tb \<in> set sch"
  shows "condemned sch t e db (tb_name tb) r \<longleftrightarrow> tb_name tb = t \<and> holds e r \<or>
    (\<exists>fk \<in> set (tb_fks tb). fk_action fk = Cascade \<and> loses_parent db (condemned sch t e db) fk r)"
  unfolding condemned_def by (rule condemned_from_iff [OF assms])

lemma col_masked: "col (map (\<lambda>(c, v). (c, if P c then SqlNull else v)) r) c = (if P c then SqlNull else col r c)"
  by (induction r) (auto simp: col_def)

lemma col_null_parents:
  "col (null_parents db D tb r) c =
     (if \<exists>fk \<in> set (tb_fks tb). fk_action fk = SetNull \<and> fk_col fk = c \<and> loses_parent db D fk r then SqlNull else col r c)"
  unfolding null_parents_def col_masked by (simp add: list_ex_iff)

lemma col_null_parents_other: "c \<notin> set (nulled_cols tb) \<Longrightarrow> col (null_parents db D tb r) c = col r c"
  by (auto simp: col_null_parents nulled_cols_def)

lemma truth_cong: "(\<And>c. c \<in> set (expr_cols e) \<Longrightarrow> col r c = col s c) \<Longrightarrow> truth e r = truth e s"
  by (induction e) auto

lemma ix_key_cong: "(\<And>c. c \<in> term_col ` set (ix_terms ix) \<Longrightarrow> col r c = col s c) \<Longrightarrow> ix_key ix r = ix_key ix s"
proof -
  assume "\<And>c. c \<in> term_col ` set (ix_terms ix) \<Longrightarrow> col r c = col s c"
  then have "ix_value r x = ix_value s x" if "x \<in> set (ix_terms ix)" for x
    using that by (cases x) force+
  then show ?thesis by (simp add: ix_key_def)
qed

lemma row_ok_null_parents:
  assumes "wf_schema sch" "tb \<in> set sch" "row_ok tb r"
  shows "row_ok tb (null_parents db D tb r)"
proof -
  let ?r = "null_parents db D tb r"
  have same: "col ?r c = col r c" if "c \<in> set (constrained_cols tb)" for c
    using that assms(1,2) by (intro col_null_parents_other) (auto simp: wf_schema_def list_all_iff)
  have "truth e ?r = truth e r" if "e \<in> set (tb_checks tb)" for e
    using that by (intro truth_cong same) (auto simp: constrained_cols_def)
  then have "checked_row tb ?r" using assms(3) by (simp add: row_ok_def checked_row_def list_all_iff)
  moreover have "filled_row tb ?r"
    using assms(3) same by (auto simp: row_ok_def filled_row_def list_all_iff constrained_cols_def)
  moreover have "typed_row tb ?r"
    using assms(3) by (auto simp: row_ok_def typed_row_def list_all_iff col_null_parents)
  moreover have "map fst ?r = map fst r" by (auto simp: null_parents_def)
  ultimately show ?thesis using assms(3) by (simp add: row_ok_def)
qed

lemma clash_null_parents_right:
  assumes "wf_schema sch" "tb \<in> set sch"
  shows "clash tb r (null_parents db D tb s) = clash tb r s"
proof -
  have same: "col (null_parents db D tb x) c = col x c" if "c \<in> set (constrained_cols tb)" for c x
    using that assms by (intro col_null_parents_other) (auto simp: wf_schema_def list_all_iff)
  have "truth (ix_where ix) (null_parents db D tb x) = truth (ix_where ix) x"
    "ix_key ix (null_parents db D tb x) = ix_key ix x" if "ix \<in> set (tb_uniques tb)" for ix x
    using that by (intro truth_cong ix_key_cong same; force simp: constrained_cols_def)+
  then show ?thesis by (auto simp: clash_def list_ex_iff collide_def holds_def)
qed

lemma clash_null_parents:
  assumes "wf_schema sch" "tb \<in> set sch"
  shows "clash tb (null_parents db D tb r) (null_parents db D tb s) = clash tb r s"
  by (metis clash_null_parents_right [OF assms] clash_sym)

lemma delete_rows_at:
  "wf_schema sch \<Longrightarrow> tb \<in> set sch \<Longrightarrow>
   delete_rows sch D db (tb_name tb) = map (null_parents db D tb) (filter (\<lambda>r. \<not> D (tb_name tb) r) (db (tb_name tb)))"
  by (simp add: delete_rows_def find_table_eq wf_schema_def)

lemma sql_deleteE:
  assumes "sql_delete sch t e db = Inr db'"
  shows "db' = delete_rows sch (condemned sch t e db) db \<and> raising sch (condemned sch t e db) db = None \<and>
    \<not> restricted sch (condemned sch t e db) db"
  using assms by (auto simp: sql_delete_def Let_def split: option.splits if_splits)

text \<open>A row that stays keeps its parents, or has lost its reference to them.\<close>

lemma delete_fk_found:
  assumes "wf_schema sch" "db_ok sch db" "\<not> restricted sch (condemned_from sch S db) db" "tb \<in> set sch" "fk \<in> set (tb_fks tb)"
    "r \<in> set (db (tb_name tb))" "\<not> condemned_from sch S db (tb_name tb) r"
  shows "fk_found (delete_rows sch (condemned_from sch S db) db) fk (null_parents db (condemned_from sch S db) tb r)"
proof -
  let ?D = "condemned_from sch S db"
  let ?db = "delete_rows sch ?D db" and ?r = "null_parents db ?D tb r"
  obtain pt where pt: "pt \<in> set sch" "tb_name pt = fk_table fk" "fk_ref fk \<notin> set (nulled_cols pt)"
    by (rule fk_parent [OF assms(1,4,5)])
  show ?thesis
  proof (cases "col ?r (fk_col fk) = SqlNull")
    case True
    then show ?thesis by (simp add: fk_found_def)
  next
    case False
    then have same: "col ?r (fk_col fk) = col r (fk_col fk)" and nn: "\<not> (fk_action fk = SetNull \<and> loses_parent db ?D fk r)"
      using assms(5) by (auto simp: col_null_parents split: if_splits)
    have "fk_found db fk r" using fks_foundD assms(2,4-6) by (auto simp: db_ok_def)
    then obtain p where p: "p \<in> set (db (fk_table fk))" "col p (fk_ref fk) = col r (fk_col fk)"
      using False same by (auto simp: fk_found_def list_ex_iff)
    have "\<not> ?D (fk_table fk) p"
    proof
      assume "?D (fk_table fk) p"
      then have l: "loses_parent db ?D fk r" using p False same by (auto simp: loses_parent_def points_to_def list_ex_iff)
      then have "fk_action fk \<noteq> Cascade" using condemned_from_iff [OF assms(1,4)] assms(5,7) by blast
      moreover have "fk_action fk \<noteq> Restrict"
        using l assms(3-6) unfolding restricted_def list_ex_iff by blast
      ultimately show False using nn l by (cases "fk_action fk") auto
    qed
    then have "null_parents db ?D pt p \<in> set (?db (fk_table fk))"
      using p(1) delete_rows_at [OF assms(1) pt(1)] pt(2) by auto
    moreover have "col (null_parents db ?D pt p) (fk_ref fk) = col ?r (fk_col fk)"
      using col_null_parents_other [OF pt(3)] p(2) same by simp
    ultimately show ?thesis unfolding fk_found_def list_ex_iff by blast
  qed
qed

lemma delete_rows_ok:
  assumes "wf_schema sch" "db_ok sch db" "\<not> restricted sch (condemned_from sch S db) db"
  shows "db_ok sch (delete_rows sch (condemned_from sch S db) db)"
proof -
  let ?D = "condemned_from sch S db"
  let ?db = "delete_rows sch ?D db"
  have rows: "?db (tb_name tb) = map (null_parents db ?D tb) (filter (\<lambda>r. \<not> ?D (tb_name tb) r) (db (tb_name tb)))"
    if "tb \<in> set sch" for tb
    using delete_rows_at [OF assms(1) that] by simp
  have "table_ok tb (?db (tb_name tb))" if "tb \<in> set sch" for tb
  proof -
    have "table_ok tb (db (tb_name tb))" using assms(2) that by (simp add: db_ok_def)
    then show ?thesis
      using row_ok_null_parents [OF assms(1) that]
      by (auto simp: table_ok_def rows [OF that] list_all_iff sorted_wrt_map clash_null_parents [OF assms(1) that]
          intro: sorted_wrt_filter)
  qed
  moreover have "fks_found sch ?db"
    using delete_fk_found [OF assms] rows by (intro fks_foundI) auto
  moreover have "?db t' = []" if "t' \<notin> tb_name ` set sch" for t'
    using assms(2) that find_table_None [of sch t'] by (simp add: delete_rows_def db_ok_def)
  ultimately show ?thesis by (simp add: db_ok_def)
qed

lemma sql_delete_ok: "wf_schema sch \<Longrightarrow> db_ok sch db \<Longrightarrow> sql_delete sch t e db = Inr db' \<Longrightarrow> db_ok sch db'"
  using delete_rows_ok sql_deleteE unfolding condemned_def by blast

lemma sql_replaceE:
  assumes "sql_replace sch tb vals db = Inr db'"
  defines "r \<equiv> replace_row tb vals"
  defines "D \<equiv> condemned_from sch (\<lambda>t' s. t' = tb_name tb \<and> clash tb r s) db"
  shows "row_ok tb r \<and> raising (filter (\<lambda>tb'. tb_name tb' \<noteq> tb_name tb) sch) D db = None \<and> \<not> restricted sch D db \<and>
    db' = (delete_rows sch D db)(tb_name tb := delete_rows sch D db (tb_name tb) @ [r]) \<and> (\<forall>fk \<in> set (tb_fks tb). fk_found db' fk r)"
proof -
  have "map fst r = map cl_name (tb_columns tb)" by (simp add: r_def replace_row_def comp_def)
  then show ?thesis
    using assms(1) unfolding r_def D_def
    by (auto simp: sql_replace_def Let_def row_ok_def list_all_iff split: if_splits option.splits)
qed

lemma sql_replace_ok:
  assumes "wf_schema sch" "db_ok sch db" "tb \<in> set sch" "sql_replace sch tb vals db = Inr db'"
  shows "db_ok sch db'"
proof -
  let ?r = "replace_row tb vals"
  let ?S = "\<lambda>t' s. t' = tb_name tb \<and> clash tb ?r s"
  let ?D = "condemned_from sch ?S db"
  note R = sql_replaceE [OF assms(4)]
  have "\<not> clash tb ?r (null_parents db ?D tb s)" if "\<not> ?D (tb_name tb) s" for s
    using that condemned_from_iff [OF assms(1,3), of ?S] clash_null_parents_right [OF assms(1,3)] by blast
  then have "\<not> list_ex (clash tb ?r) (delete_rows sch ?D db (tb_name tb))"
    by (auto simp: list_ex_iff delete_rows_at [OF assms(1,3)])
  then show ?thesis
    using R by (intro add_row_ok [OF assms(1) delete_rows_ok [OF assms(1,2), of ?S] assms(3), of ?r]) auto
qed

lemma exec_sql_ok:
  "wf_schema sch \<Longrightarrow> db_ok sch db \<Longrightarrow> exec_sql sch s db = Inr db' \<Longrightarrow> db_ok sch db'"
  by (cases s) (auto split: option.splits dest!: find_table_Some dest: sql_insert_ok sql_replace_ok sql_update_ok sql_delete_ok)

lemma sql_step_ok: "wf_schema sch \<Longrightarrow> db_ok sch db \<Longrightarrow> db_ok sch (sql_step sch db s)"
  using exec_sql_ok by (auto simp: sql_step_def split: sum.split)

lemma null_parents_id:
  assumes "\<And>fk. fk \<in> set (tb_fks tb) \<Longrightarrow> fk_action fk = SetNull \<Longrightarrow> \<forall>r. \<not> loses_parent db D fk r"
  shows "null_parents db D tb = (\<lambda>r. r)"
  by (rule ext) (use assms in \<open>auto simp: null_parents_def list_ex_iff intro!: map_idI\<close>)

text \<open>What a table with raising triggers promises.\<close>

lemma append_only_step:
  assumes "wf_schema sch" "tb \<in> set sch" "tb_on_update tb \<noteq> None" "tb_on_delete tb \<noteq> None" "exec_sql sch s db = Inr db'"
    and no_replace: "\<forall>vals. s \<noteq> Replace (tb_name tb) vals"
  shows "\<exists>rs. db' (tb_name tb) = db (tb_name tb) @ rs"
proof (cases s)
  case (Replace t vals)
  then obtain tb' where tb': "find_table sch t = Some tb'" "sql_replace sch tb' vals db = Inr db'"
    using assms(5) by (auto split: option.splits)
  let ?D = "condemned_from sch (\<lambda>t' s. t' = tb_name tb' \<and> clash tb' (replace_row tb' vals) s) db"
  note R = sql_replaceE [OF tb'(2)]
  have other: "tb_name tb \<noteq> tb_name tb'" using no_replace Replace find_table_Some [OF tb'(1)] by auto
  have "\<not> ?D (tb_name tb) r" if "r \<in> set (db (tb_name tb))" for r
    using R assms(2,4) that other by (auto simp: raising_def find_None_iff list_ex_iff)
  then have "filter (\<lambda>r. \<not> ?D (tb_name tb) r) (db (tb_name tb)) = db (tb_name tb)" by simp
  moreover have "null_parents db ?D tb = (\<lambda>r. r)"
    using assms(1-3) by (intro null_parents_id) (auto simp: wf_schema_def list_all_iff nulled_cols_def filter_empty_conv)
  ultimately show ?thesis using R other delete_rows_at [OF assms(1,2)] by auto
next
  case (Insert ig t vals)
  then show ?thesis using assms(5)
    by (auto simp: sql_insert_def Let_def split: option.splits if_splits)
next
  case (Update t e sets)
  then obtain tb' where tb': "find_table sch t = Some tb'" "sql_update sch tb' e sets db = Inr db'"
    using assms(5) by (auto split: option.splits)
  show ?thesis
  proof (cases "t = tb_name tb")
    case False
    then show ?thesis using tb' find_table_Some [OF tb'(1)]
      by (auto simp: sql_update_def Let_def rbind_def split: if_splits sum.splits)
  next
    case True
    then have "tb' = tb" using tb'(1) find_table_eq [of sch tb] assms(1,2) by (simp add: wf_schema_def)
    then have none: "\<not> list_ex (holds e) (db (tb_name tb))"
      using tb'(2) assms(3) by (auto simp: sql_update_def Let_def split: if_splits)
    have "update_rows tb e sets ds rs = Inr (ds @ rs)" if "\<not> list_ex (holds e) rs" for ds rs
      using that by (induction rs arbitrary: ds) auto
    then have "update_rows tb e sets [] (db (tb_name tb)) = Inr (db (tb_name tb))" using none by fastforce
    then have "db' (tb_name tb) = db (tb_name tb)"
      using tb'(2) \<open>tb' = tb\<close> by (auto simp: sql_update_def Let_def rbind_def split: if_splits)
    then show ?thesis by simp
  qed
next
  case (Delete_from t e)
  then have d: "sql_delete sch t e db = Inr db'" using assms(5) by (auto split: option.splits)
  let ?D = "condemned sch t e db"
  note D = sql_deleteE [OF d]
  have "\<not> ?D (tb_name tb) r" if "r \<in> set (db (tb_name tb))" for r
    using D assms(2,4) that by (auto simp: raising_def find_None_iff list_ex_iff)
  then have "filter (\<lambda>r. \<not> ?D (tb_name tb) r) (db (tb_name tb)) = db (tb_name tb)" by simp
  moreover have "null_parents db ?D tb = (\<lambda>r. r)"
    using assms(1-3) by (intro null_parents_id) (auto simp: wf_schema_def list_all_iff nulled_cols_def filter_empty_conv)
  ultimately show ?thesis using D delete_rows_at [OF assms(1,2)] by auto
qed

section \<open>Following a DELETE\<close>

lemma fks_earlier_index:
  "fks_earlier before sch \<Longrightarrow> k < length sch \<Longrightarrow> fk \<in> set (tb_fks (sch ! k)) \<Longrightarrow>
     \<exists>p \<in> set (before @ take k sch). tb_name p = fk_table fk"
proof (induction before sch arbitrary: k rule: fks_earlier.induct)
  case (2 before tb rest)
  then show ?case by (cases k) (force simp: list_all_iff list_ex_iff)+
qed simp

lemma fk_parent_before:
  assumes "wf_schema sch" "k < length sch" "fk \<in> set (tb_fks (sch ! k))"
  obtains j where "j < k" "tb_name (sch ! j) = fk_table fk"
proof -
  obtain p where "p \<in> set (take k sch)" "tb_name p = fk_table fk"
    using fks_earlier_index [of "[]" sch k fk] assms by (auto simp: wf_schema_def)
  then show thesis using that assms(2) by (auto simp: in_set_conv_nth)
qed

lemma condemned_from_induct:
  assumes "wf_schema sch" "tb \<in> set sch" "r \<in> set (db (tb_name tb))" "condemned_from sch S db (tb_name tb) r"
    and selected: "\<And>tb r. tb \<in> set sch \<Longrightarrow> S (tb_name tb) r \<Longrightarrow> P tb r"
    and cascade: "\<And>tb fk pt r p. tb \<in> set sch \<Longrightarrow> fk \<in> set (tb_fks tb) \<Longrightarrow> fk_action fk = Cascade \<Longrightarrow>
       pt \<in> set sch \<Longrightarrow> tb_name pt = fk_table fk \<Longrightarrow> r \<in> set (db (tb_name tb)) \<Longrightarrow> p \<in> set (db (tb_name pt)) \<Longrightarrow>
       points_to fk r p \<Longrightarrow> condemned_from sch S db (tb_name pt) p \<Longrightarrow> P pt p \<Longrightarrow> P tb r"
  shows "P tb r"
proof -
  have "P (sch ! k) r" if "k < length sch" "r \<in> set (db (tb_name (sch ! k)))" "condemned_from sch S db (tb_name (sch ! k)) r" for k r
    using that
  proof (induction k arbitrary: r rule: less_induct)
    case (less k)
    have tb: "sch ! k \<in> set sch" using less.prems(1) by simp
    from less.prems(3) consider "S (tb_name (sch ! k)) r"
      | fk where "fk \<in> set (tb_fks (sch ! k))" "fk_action fk = Cascade" "loses_parent db (condemned_from sch S db) fk r"
      unfolding condemned_from_iff [OF assms(1) tb] by blast
    then show ?case
    proof cases
      case 1
      then show ?thesis using selected tb by blast
    next
      case (2 fk)
      obtain j where j: "j < k" "tb_name (sch ! j) = fk_table fk"
        by (rule fk_parent_before [OF assms(1) less.prems(1) 2(1)])
      obtain p where p: "p \<in> set (db (fk_table fk))" "condemned_from sch S db (fk_table fk) p" "points_to fk r p"
        using 2(3) by (auto simp: loses_parent_def list_ex_iff)
      then have "P (sch ! j) p" using less.IH [OF j(1)] j less.prems(1) by simp
      then show ?thesis using cascade [OF tb 2(1,2) _ j(2) less.prems(2)] p j less.prems(1) by simp
    qed
  qed
  then show ?thesis using assms(2-4) by (metis in_set_conv_nth)
qed

lemmas condemned_induct = condemned_from_induct [where S = "\<lambda>t' r. t' = t \<and> holds e r" for t e, folded condemned_def]

lemma not_condemned:
  "wf_schema sch \<Longrightarrow> tb \<in> set sch \<Longrightarrow> tb_name tb \<noteq> t \<Longrightarrow> tb_fks tb = [] \<Longrightarrow> \<not> condemned sch t e db (tb_name tb) r"
  by (simp add: condemned_iff)

text \<open>Rows of a table that nothing refers to take no others with them.\<close>

definition leaf_table :: "SqlSchema \<Rightarrow> SqlTable \<Rightarrow> bool" where
  "leaf_table sch tb \<longleftrightarrow> list_all (\<lambda>tb'. list_all (\<lambda>fk. fk_table fk \<noteq> tb_name tb) (tb_fks tb')) sch"

lemma leaf_tableD: "leaf_table sch tb \<Longrightarrow> tb' \<in> set sch \<Longrightarrow> fk \<in> set (tb_fks tb') \<Longrightarrow> fk_table fk \<noteq> tb_name tb"
  by (simp add: leaf_table_def list_all_iff)

lemma condemned_leaf:
  assumes "wf_schema sch" "tb \<in> set sch"
    and leaf: "leaf_table sch tb"
  defines "D \<equiv> \<lambda>sel db. condemned_from sch (\<lambda>t r. t = tb_name tb \<and> sel r) db"
  shows "tb' \<in> set sch \<Longrightarrow> D sel db (tb_name tb') r \<longleftrightarrow> tb' = tb \<and> sel r" "\<not> restricted sch (D sel db) db"
    "delete_rows sch (D sel db) db = db(tb_name tb := filter (\<lambda>r. \<not> sel r) (db (tb_name tb)))"
proof -
  let ?D = "D sel db"
  note names = table_name_inj [of sch _ tb, OF _ _ assms(2)]
  have only: "tb' = tb" if "tb' \<in> set sch" "r \<in> set (db (tb_name tb'))" "?D (tb_name tb') r" for tb' r
    using assms(1) that unfolding D_def
  proof (rule condemned_from_induct)
    show "tb' = tb" if "tb' \<in> set sch" "tb_name tb' = tb_name tb \<and> sel r" for tb' r
      using names assms(1) that by (auto simp: wf_schema_def)
    show "tb' = tb" if "tb' \<in> set sch" "fk \<in> set (tb_fks tb')" "tb_name pt = fk_table fk" "pt = tb" for tb' fk pt
      using leaf_tableD [OF leaf, of tb' fk] that by simp
  qed
  have lost: "\<not> loses_parent db ?D fk r" if fk: "tb' \<in> set sch" "fk \<in> set (tb_fks tb')" for tb' fk r
  proof
    assume "loses_parent db ?D fk r"
    then obtain p where p: "p \<in> set (db (fk_table fk))" "?D (fk_table fk) p" by (auto simp: loses_parent_def list_ex_iff)
    obtain pt where "pt \<in> set sch" "tb_name pt = fk_table fk" using fk_parent [OF assms(1) fk] by blast
    then have "fk_table fk = tb_name tb" using only [of pt p] p by auto
    then show False using leaf_tableD [OF leaf fk] by blast
  qed
  have sel: "?D (tb_name tb') r \<longleftrightarrow> tb' = tb \<and> sel r" if "tb' \<in> set sch" for tb' r
    using condemned_from_iff [OF assms(1) that, of "\<lambda>t r. t = tb_name tb \<and> sel r" db r] lost [OF that] names that assms(1)
    unfolding D_def by (auto simp: wf_schema_def)
  show "tb' \<in> set sch \<Longrightarrow> ?D (tb_name tb') r \<longleftrightarrow> tb' = tb \<and> sel r" using sel .
  show "\<not> restricted sch ?D db" using lost by (auto simp: restricted_def list_ex_iff)
  have "delete_rows sch ?D db t = (db(tb_name tb := filter (\<lambda>r. \<not> sel r) (db (tb_name tb)))) t" for t
  proof (cases "find_table sch t")
    case None
    then show ?thesis using assms(2) find_table_None [of sch t] by (auto simp: delete_rows_def)
  next
    case (Some tb')
    then have tb': "tb' \<in> set sch" "tb_name tb' = t" using find_table_Some by auto
    have "null_parents db ?D tb' = (\<lambda>r. r)" using lost [OF tb'(1)] by (intro null_parents_id) blast
    then have "delete_rows sch ?D db t = filter (\<lambda>r. \<not> (tb' = tb \<and> sel r)) (db t)"
      using delete_rows_at [OF assms(1) tb'(1)] sel [OF tb'(1)] tb'(2) by simp
    then show ?thesis using tb' table_name_inj [of sch tb' tb] assms(1,2) by (cases "tb' = tb") (auto simp: wf_schema_def)
  qed
  then show "delete_rows sch ?D db = db(tb_name tb := filter (\<lambda>r. \<not> sel r) (db (tb_name tb)))" by (rule ext)
qed

lemma delete_leaf:
  assumes "wf_schema sch" "tb \<in> set sch" "tb_on_delete tb = None"
    and leaf: "leaf_table sch tb"
  shows "sql_delete sch (tb_name tb) e db = Inr (db(tb_name tb := filter (\<lambda>r. \<not> holds e r) (db (tb_name tb))))"
proof -
  note L = condemned_leaf [OF assms(1,2) leaf, where sel = "holds e" and db = db]
  have "raising sch (condemned sch (tb_name tb) e db) db = None"
    using assms(3) L(1) unfolding condemned_def by (auto simp: raising_def find_None_iff list_ex_iff)
  then show ?thesis using L(2,3) by (simp add: sql_delete_def Let_def condemned_def)
qed

lemma replace_leaf:
  assumes "wf_schema sch" "tb \<in> set sch" "tb_fks tb = []"
    and leaf: "leaf_table sch tb"
    and row: "set (map fst vals) \<subseteq> set (map cl_name (tb_columns tb))" "typed_row tb (replace_row tb vals)"
      "filled_row tb (replace_row tb vals)" "checked_row tb (replace_row tb vals)"
  shows "sql_replace sch tb vals db =
    Inr (db(tb_name tb := filter (\<lambda>s. \<not> clash tb (replace_row tb vals) s) (db (tb_name tb)) @ [replace_row tb vals]))"
proof -
  let ?r = "replace_row tb vals"
  let ?D = "condemned_from sch (\<lambda>t' s. t' = tb_name tb \<and> clash tb ?r s) db"
  note L = condemned_leaf [OF assms(1,2) leaf, where sel = "clash tb ?r" and db = db]
  have "raising (filter (\<lambda>tb'. tb_name tb' \<noteq> tb_name tb) sch) ?D db = None"
    using L(1) by (auto simp: raising_def find_None_iff list_ex_iff)
  then show ?thesis using L(2,3) row assms(3) by (simp add: sql_replace_def Let_def)
qed

end
