(* ===== verification/Jet_Schema.thy ===== *)
theory Jet_Schema
  imports Jet_Sql Jet_Db
begin

text \<open>
  The schema of \<open>crates/jet-store/migrations\<close>, table by table in the order the four migrations create them, and the
  permission catalog that the last one inserts. The properties are about every database these
  migrations and any statements after them can lead to, and tie the tables that \<open>Jet_Db\<close> models to this schema.
  Indexes that only speed up queries are left out.
\<close>

section \<open>Columns and constraints\<close>

definition req :: "SqlType \<Rightarrow> string \<Rightarrow> SqlColumn" where
  "req ty c = \<lparr>cl_name = c, cl_type = ty, cl_not_null = True, cl_default = SqlNull\<rparr>"

definition opt_col :: "SqlType \<Rightarrow> string \<Rightarrow> SqlColumn" where
  "opt_col ty c = \<lparr>cl_name = c, cl_type = ty, cl_not_null = False, cl_default = SqlNull\<rparr>"

definition dflt :: "SqlType \<Rightarrow> string \<Rightarrow> SqlValue \<Rightarrow> SqlColumn" where
  "dflt ty c v = \<lparr>cl_name = c, cl_type = ty, cl_not_null = True, cl_default = v\<rparr>"

definition uniq :: "string list \<Rightarrow> SqlIndex" where
  "uniq cs = \<lparr>ix_terms = map IxCol cs, ix_where = ETrue\<rparr>"

definition uniq_where :: "IndexTerm list \<Rightarrow> SqlExpr \<Rightarrow> SqlIndex" where
  "uniq_where ts e = \<lparr>ix_terms = ts, ix_where = e\<rparr>"

definition references :: "string \<Rightarrow> string \<Rightarrow> string \<Rightarrow> OnDelete \<Rightarrow> ForeignKey" where
  "references c t rc act = \<lparr>fk_col = c, fk_table = t, fk_ref = rc, fk_action = act\<rparr>"

definition one_of :: "string \<Rightarrow> string list \<Rightarrow> SqlExpr" where
  "one_of c vs = EIn c (map SqlText vs)"

definition table :: "string \<Rightarrow> SqlColumn list \<Rightarrow> SqlExpr list \<Rightarrow> SqlIndex list \<Rightarrow> ForeignKey list \<Rightarrow> SqlTable" where
  "table n cs checks us fks = \<lparr>tb_name = n, tb_columns = cs, tb_checks = checks, tb_uniques = us, tb_fks = fks,
     tb_on_update = None, tb_on_delete = None\<rparr>"

text \<open>A primary key of a STRICT table is NOT NULL.\<close>

definition id_col :: SqlColumn where
  "id_col = req TyText ''id''"

definition in_org :: ForeignKey where
  "in_org = references ''org_id'' ''organizations'' ''id'' Cascade"

section \<open>Identity and tenancy\<close>

definition users_table :: SqlTable where
  "users_table = table ''users''
     [id_col, req TyText ''email'', req TyText ''name'', dflt TyText ''status'' (SqlText ''active''),
      req TyInteger ''created_at'', req TyInteger ''updated_at'']
     [one_of ''status'' [''active'', ''suspended'', ''deleted'']]
     [uniq [''id''], uniq_where [IxLower ''email''] (ENe ''status'' (SqlText ''deleted''))]
     []"

definition credentials_table :: SqlTable where
  "credentials_table = table ''credentials''
     [id_col, req TyText ''user_id'', req TyText ''kind'', opt_col TyText ''provider'', opt_col TyText ''subject'',
      opt_col TyText ''secret_hash'', req TyInteger ''created_at'', opt_col TyInteger ''last_used_at'']
     [one_of ''kind'' [''password'', ''oidc'', ''saml'', ''ssh_key''],
      EOr (EAnd (one_of ''kind'' [''oidc'', ''saml'']) (EAnd (ENotNull ''provider'') (ENotNull ''subject'')))
          (EAnd (one_of ''kind'' [''password'', ''ssh_key'']) (ENotNull ''secret_hash''))]
     [uniq [''id''], uniq_where [IxCol ''kind'', IxCol ''provider'', IxCol ''subject''] (ENotNull ''subject'')]
     [references ''user_id'' ''users'' ''id'' Cascade]"

definition organizations_table :: SqlTable where
  "organizations_table = table ''organizations''
     [id_col, req TyText ''slug'', req TyText ''name'', dflt TyText ''plan'' (SqlText ''self-hosted''),
      req TyInteger ''created_at'', req TyInteger ''updated_at'']
     [] [uniq [''id''], uniq [''slug'']] []"

definition memberships_table :: SqlTable where
  "memberships_table = table ''memberships''
     [req TyText ''org_id'', req TyText ''user_id'', dflt TyText ''status'' (SqlText ''active''), req TyInteger ''joined_at'']
     [one_of ''status'' [''active'', ''suspended'']]
     [uniq [''org_id'', ''user_id'']]
     [in_org, references ''user_id'' ''users'' ''id'' Cascade]"

definition teams_table :: SqlTable where
  "teams_table = table ''teams''
     [id_col, req TyText ''org_id'', req TyText ''slug'', req TyText ''name'', req TyInteger ''created_at'']
     [] [uniq [''id''], uniq [''org_id'', ''slug'']] [in_org]"

definition team_members_table :: SqlTable where
  "team_members_table = table ''team_members''
     [req TyText ''team_id'', req TyText ''user_id'', req TyInteger ''added_at'']
     [] [uniq [''team_id'', ''user_id'']]
     [references ''team_id'' ''teams'' ''id'' Cascade, references ''user_id'' ''users'' ''id'' Cascade]"

section \<open>Authorization\<close>

definition permissions_table :: SqlTable where
  "permissions_table = table ''permissions'' [req TyText ''key'', req TyText ''description''] [] [uniq [''key'']] []"

definition roles_table :: SqlTable where
  "roles_table = table ''roles''
     [id_col, opt_col TyText ''org_id'', req TyText ''key'', req TyText ''name'', dflt TyText ''description'' (SqlText ''''),
      dflt TyInteger ''is_system'' (SqlInt 0), req TyInteger ''created_at'']
     [EIn ''is_system'' [SqlInt 0, SqlInt 1],
      EOr (EAnd (EEq ''is_system'' (SqlInt 1)) (EIsNull ''org_id'')) (EAnd (EEq ''is_system'' (SqlInt 0)) (ENotNull ''org_id''))]
     [uniq [''id''], uniq_where [IxCol ''key''] (EIsNull ''org_id''),
      uniq_where [IxCol ''org_id'', IxCol ''key''] (ENotNull ''org_id'')]
     [in_org]"

definition role_permissions_table :: SqlTable where
  "role_permissions_table = table ''role_permissions''
     [req TyText ''role_id'', req TyText ''permission_key'']
     [] [uniq [''role_id'', ''permission_key'']]
     [references ''role_id'' ''roles'' ''id'' Cascade, references ''permission_key'' ''permissions'' ''key'' Restrict]"

definition service_accounts_table :: SqlTable where
  "service_accounts_table = table ''service_accounts''
     [id_col, req TyText ''org_id'', req TyText ''name'', dflt TyText ''description'' (SqlText ''''),
      opt_col TyText ''created_by'', req TyInteger ''created_at'', opt_col TyInteger ''disabled_at'']
     [] [uniq [''id''], uniq [''org_id'', ''name'']]
     [in_org, references ''created_by'' ''users'' ''id'' SetNull]"

definition api_tokens_table :: SqlTable where
  "api_tokens_table = table ''api_tokens''
     [id_col, req TyText ''org_id'', req TyText ''principal_kind'', req TyText ''principal_id'', req TyText ''name'',
      req TyText ''prefix'', req TyText ''secret_hash'', opt_col TyInteger ''expires_at'', opt_col TyInteger ''last_used_at'',
      opt_col TyInteger ''revoked_at'', req TyInteger ''created_at'']
     [one_of ''principal_kind'' [''user'', ''service_account'']]
     [uniq [''id''], uniq [''prefix'']] [in_org]"

definition scope_kinds :: "string list" where
  "scope_kinds = [''org'', ''project'', ''pipeline'']"

definition role_assignments_table :: SqlTable where
  "role_assignments_table = table ''role_assignments''
     [id_col, req TyText ''org_id'', req TyText ''principal_kind'', req TyText ''principal_id'', req TyText ''role_id'',
      req TyText ''scope_kind'', req TyText ''scope_id'', opt_col TyText ''granted_by'', req TyInteger ''created_at'']
     [one_of ''principal_kind'' [''user'', ''team'', ''service_account''], one_of ''scope_kind'' scope_kinds]
     [uniq [''id''], uniq [''principal_kind'', ''principal_id'', ''role_id'', ''scope_kind'', ''scope_id'']]
     [in_org, references ''role_id'' ''roles'' ''id'' Cascade, references ''granted_by'' ''users'' ''id'' SetNull]"

definition invitations_table :: SqlTable where
  "invitations_table = table ''invitations''
     [id_col, req TyText ''org_id'', req TyText ''email'', req TyText ''role_id'', req TyText ''scope_kind'', req TyText ''scope_id'',
      req TyText ''token_hash'', opt_col TyText ''invited_by'', req TyInteger ''expires_at'', opt_col TyInteger ''accepted_at'',
      opt_col TyText ''accepted_by'', opt_col TyInteger ''revoked_at'', req TyInteger ''created_at'']
     [one_of ''scope_kind'' scope_kinds]
     [uniq [''id''], uniq_where [IxCol ''org_id'', IxLower ''email''] (EAnd (EIsNull ''accepted_at'') (EIsNull ''revoked_at''))]
     [in_org, references ''role_id'' ''roles'' ''id'' Cascade, references ''invited_by'' ''users'' ''id'' SetNull,
      references ''accepted_by'' ''users'' ''id'' SetNull]"

definition audit_log_table :: SqlTable where
  "audit_log_table = (table ''audit_log''
     [id_col, req TyText ''org_id'', req TyText ''actor_kind'', opt_col TyText ''actor_id'', req TyText ''action'',
      opt_col TyText ''target_kind'', opt_col TyText ''target_id'', opt_col TyText ''metadata'', opt_col TyText ''ip'',
      req TyInteger ''created_at'']
     [one_of ''actor_kind'' [''user'', ''service_account'', ''system'']] [uniq [''id'']] [])
     \<lparr>tb_on_update := Some ''audit_log is append-only: updates are not permitted'',
      tb_on_delete := Some ''audit_log is append-only: deletes are not permitted''\<rparr>"

section \<open>Pipelines and runs\<close>

definition projects_table :: SqlTable where
  "projects_table = table ''projects''
     [id_col, req TyText ''org_id'', req TyText ''slug'', req TyText ''name'', dflt TyText ''description'' (SqlText ''''),
      req TyInteger ''created_at'', opt_col TyInteger ''archived_at'']
     [] [uniq [''id''], uniq [''org_id'', ''slug'']] [in_org]"

definition pipelines_table :: SqlTable where
  "pipelines_table = table ''pipelines''
     [id_col, req TyText ''org_id'', req TyText ''project_id'', req TyText ''slug'', req TyText ''name'',
      opt_col TyText ''definition_digest'', req TyInteger ''created_at'', opt_col TyInteger ''archived_at'']
     [] [uniq [''id''], uniq [''project_id'', ''slug'']]
     [in_org, references ''project_id'' ''projects'' ''id'' Cascade]"

definition runs_table :: SqlTable where
  "runs_table = table ''runs''
     [id_col, req TyText ''org_id'', req TyText ''pipeline_id'', req TyInteger ''number'', req TyText ''status'',
      req TyText ''trigger_kind'', opt_col TyText ''trigger_ref'', opt_col TyText ''commit_sha'', opt_col TyText ''definition_digest'',
      opt_col TyText ''created_by_kind'', opt_col TyText ''created_by_id'', req TyInteger ''created_at'',
      opt_col TyInteger ''started_at'', opt_col TyInteger ''finished_at'']
     [one_of ''status'' [''queued'', ''running'', ''success'', ''failed'', ''cancelled'', ''timed_out''],
      one_of ''trigger_kind'' [''manual'', ''webhook'', ''schedule'', ''api''],
      one_of ''created_by_kind'' [''user'', ''service_account'', ''system'']]
     [uniq [''id''], uniq [''pipeline_id'', ''number'']]
     [in_org, references ''pipeline_id'' ''pipelines'' ''id'' Cascade]"

definition steps_table :: SqlTable where
  "steps_table = table ''steps''
     [id_col, req TyText ''org_id'', req TyText ''run_id'', req TyText ''name'', req TyText ''status'',
      dflt TyText ''needs'' (SqlText ''[]''), opt_col TyText ''step_identity'', opt_col TyText ''action_key'',
      opt_col TyText ''cache_outcome'', opt_col TyText ''output_tree'', opt_col TyInteger ''exit_code'', opt_col TyText ''worker_id'',
      req TyInteger ''created_at'', opt_col TyInteger ''started_at'', opt_col TyInteger ''finished_at'']
     [one_of ''status'' [''pending'', ''ready'', ''running'', ''success'', ''failed'', ''skipped'', ''cancelled'', ''timed_out''],
      one_of ''cache_outcome'' [''miss'', ''hit'', ''manifest_miss'', ''uncacheable'']]
     [uniq [''id''], uniq [''run_id'', ''name'']]
     [in_org, references ''run_id'' ''runs'' ''id'' Cascade]"

definition secrets_table :: SqlTable where
  "secrets_table = table ''secrets''
     [id_col, req TyText ''org_id'', req TyText ''scope_kind'', req TyText ''scope_id'', req TyText ''name'', req TyInteger ''version'',
      req TyBlob ''ciphertext'', req TyBlob ''nonce'', opt_col TyText ''created_by'', req TyInteger ''created_at'']
     [one_of ''scope_kind'' scope_kinds]
     [uniq [''id''], uniq [''org_id'', ''scope_kind'', ''scope_id'', ''name'', ''version'']]
     [in_org, references ''created_by'' ''users'' ''id'' SetNull]"

definition workers_table :: SqlTable where
  "workers_table = table ''workers''
     [id_col, req TyText ''org_id'', req TyText ''name'', dflt TyText ''shape'' (SqlText ''{}''), req TyText ''status'',
      dflt TyText ''cache_summary'' (SqlText ''{}''), opt_col TyInteger ''last_heartbeat_at'', req TyInteger ''registered_at'']
     [one_of ''status'' [''registering'', ''idle'', ''busy'', ''draining'', ''gone'']]
     [uniq [''id''], uniq [''org_id'', ''name'']] [in_org]"

definition jet_schema :: SqlSchema where
  "jet_schema =
     [users_table, credentials_table, organizations_table, memberships_table, teams_table, team_members_table,
      permissions_table, roles_table, role_permissions_table, service_accounts_table, api_tokens_table,
      role_assignments_table, invitations_table, audit_log_table,
      projects_table, pipelines_table, runs_table, steps_table, secrets_table, workers_table]"

section \<open>The permission catalog\<close>

definition permission_catalog :: "(string \<times> string) list" where
  "permission_catalog =
     [(''org.read'', ''View organization settings and membership''),
      (''org.manage'', ''Rename the organization and change its settings''),
      (''member.invite'', ''Invite people to the organization''),
      (''member.remove'', ''Remove members from the organization''),
      (''team.manage'', ''Create, delete, and change the membership of teams''),
      (''role.manage'', ''Create custom roles and assign roles to principals''),
      (''billing.manage'', ''View and change billing details and plan''),
      (''project.create'', ''Create new projects''),
      (''project.read'', ''View a project and its pipelines''),
      (''project.manage'', ''Rename, archive, and configure a project''),
      (''pipeline.read'', ''View a pipeline definition''),
      (''pipeline.write'', ''Create and edit pipeline definitions''),
      (''pipeline.run'', ''Trigger a pipeline run''),
      (''run.read'', ''View runs, their steps, and their status''),
      (''run.cancel'', ''Cancel an in-flight run''),
      (''log.read'', ''Read step logs''),
      (''secret.write'', ''Create and rotate secrets''),
      (''secret.read'', ''Reveal secret values''),
      (''cache.read'', ''Read cached objects and action results''),
      (''cache.purge'', ''Invalidate or delete cache entries''),
      (''worker.read'', ''View workers and their status''),
      (''worker.admin'', ''Register, drain, and remove workers''),
      (''token.manage'', ''Create and revoke API tokens and service accounts''),
      (''audit.read'', ''Read the organization audit log'')]"

definition catalog_insert :: "string \<times> string \<Rightarrow> SqlStmt" where
  "catalog_insert p = Insert False ''permissions'' [(''key'', SqlText (fst p)), (''description'', SqlText (snd p))]"

definition migrated_db :: SqlDb where
  "migrated_db = foldl (sql_step jet_schema) (\<lambda>_. []) (map catalog_insert permission_catalog)"

section \<open>The schema is well-formed\<close>

lemma wf_jet_schema: "wf_schema jet_schema"
  by code_simp

lemma db_ok_empty: "db_ok sch (\<lambda>_. [])"
  by (simp add: db_ok_def table_ok_def fks_found_def list_all_iff)

interpretation jet_db: machine "sql_step jet_schema" "db_ok jet_schema"
  by unfold_locales (rule sql_step_ok [OF wf_jet_schema])

lemma db_ok_migrated: "db_ok jet_schema migrated_db"
  unfolding migrated_db_def by (rule jet_db.run_inv [OF db_ok_empty])

text \<open>Every row of the catalog is inserted.\<close>

definition permission_row :: "string \<times> string \<Rightarrow> SqlRow" where
  "permission_row p = [(''key'', SqlText (fst p)), (''description'', SqlText (snd p))]"

lemma find_permissions: "find_table jet_schema ''permissions'' = Some permissions_table"
  by code_simp

lemma catalog_insert_run:
  assumes "\<forall>r \<in> set (db ''permissions''). col r ''key'' \<noteq> SqlText (fst p)"
  shows "sql_step jet_schema db (catalog_insert p) = db(''permissions'' := db ''permissions'' @ [permission_row p])"
proof -
  have "complete_row permissions_table [(''key'', SqlText (fst p)), (''description'', SqlText (snd p))] = permission_row p"
    by (simp add: complete_row_def permissions_table_def table_def req_def permission_row_def)
  moreover have "\<not> list_ex (clash permissions_table (permission_row p)) (db ''permissions'')"
    using assms by (auto simp: list_ex_iff clash_def collide_def permissions_table_def table_def uniq_def ix_key_def permission_row_def col_def)
  ultimately show ?thesis
    using find_permissions
    by (simp add: sql_step_def catalog_insert_def sql_insert_def Let_def)
      (simp add: permissions_table_def table_def req_def typed_row_def filled_row_def checked_row_def permission_row_def col_def)
qed

lemma catalog_run:
  assumes "distinct (map fst ps)" "\<forall>r \<in> set (db ''permissions''). \<forall>p \<in> set ps. col r ''key'' \<noteq> SqlText (fst p)"
  shows "foldl (sql_step jet_schema) db (map catalog_insert ps) = db(''permissions'' := db ''permissions'' @ map permission_row ps)"
  using assms
proof (induction ps arbitrary: db)
  case (Cons p ps)
  let ?db = "db(''permissions'' := db ''permissions'' @ [permission_row p])"
  have "sql_step jet_schema db (catalog_insert p) = ?db" using Cons.prems(2) by (intro catalog_insert_run) simp
  moreover have "foldl (sql_step jet_schema) ?db (map catalog_insert ps) = ?db(''permissions'' := ?db ''permissions'' @ map permission_row ps)"
    using Cons.prems by (intro Cons.IH) (auto simp: permission_row_def col_def)
  ultimately show ?case by simp
qed simp

lemma migrated_db_eq: "migrated_db = (\<lambda>_. [])(''permissions'' := map permission_row permission_catalog)"
proof -
  have "distinct (map fst permission_catalog)" by code_simp
  from catalog_run [OF this, of "\<lambda>_. []"] show ?thesis by (simp add: migrated_db_def)
qed

section \<open>Facts of the schema\<close>

definition org_scoped :: "SqlTable \<Rightarrow> bool" where
  "org_scoped tb \<longleftrightarrow> in_org \<in> set (tb_fks tb)"

lemma schema_facts:
  "list_all (\<lambda>tb. tb_name tb = ''audit_log'' \<or> org_scoped tb \<or> ''org_id'' \<notin> set (map cl_name (tb_columns tb))) jet_schema"
  "list_all (\<lambda>tb. tb_on_delete tb = None \<or> tb_fks tb = [] \<and> tb_name tb \<noteq> ''organizations'') jet_schema"
  "list_all (\<lambda>tb. list_all (\<lambda>fk. fk_action fk = Restrict \<longrightarrow> fk_table fk = ''permissions'') (tb_fks tb)) jet_schema"
  "list_all (\<lambda>tb. list_all (\<lambda>fk. fk_action fk = SetNull \<longrightarrow> fk_table fk = ''users'') (tb_fks tb)) jet_schema"
  "list_all (\<lambda>tb. org_scoped tb \<longrightarrow> list_all (\<lambda>fk. fk = in_org \<or> fk_table fk = ''users'' \<or>
     list_ex (\<lambda>pt. tb_name pt = fk_table fk \<and> org_scoped pt) jet_schema) (tb_fks tb)) jet_schema"
  by code_simp+

lemma schema_members:
  "users_table \<in> set jet_schema" "permissions_table \<in> set jet_schema" "audit_log_table \<in> set jet_schema"
  "credentials_table \<in> set jet_schema" "organizations_table \<in> set jet_schema" "roles_table \<in> set jet_schema"
  "role_permissions_table \<in> set jet_schema"
  by (simp_all add: jet_schema_def)

lemma table_sel [simp]:
  "tb_name (table n cs ch us fks) = n" "tb_columns (table n cs ch us fks) = cs" "tb_checks (table n cs ch us fks) = ch"
  "tb_uniques (table n cs ch us fks) = us" "tb_fks (table n cs ch us fks) = fks"
  "tb_on_update (table n cs ch us fks) = None" "tb_on_delete (table n cs ch us fks) = None"
  by (simp_all add: table_def)

lemma credentials_name: "tb_name credentials_table = ''credentials''"
  by (simp add: credentials_table_def)

lemma root_tables:
  "tb_name users_table = ''users''" "tb_fks users_table = []"
  "tb_name permissions_table = ''permissions''" "tb_fks permissions_table = []"
  "tb_name audit_log_table = ''audit_log''" "tb_fks audit_log_table = []"
  "tb_name organizations_table = ''organizations''" "tb_fks organizations_table = []"
  by (simp_all add: users_table_def permissions_table_def audit_log_table_def organizations_table_def)

section \<open>Deleting a tenant\<close>

definition delete_org :: "string \<Rightarrow> SqlStmt" where
  "delete_org ident = Delete_from ''organizations'' (EEq ''id'' (SqlText ident))"

abbreviation org_condemned :: "string \<Rightarrow> SqlDb \<Rightarrow> string \<Rightarrow> SqlRow \<Rightarrow> bool" where
  "org_condemned ident db \<equiv> condemned jet_schema ''organizations'' (EEq ''id'' (SqlText ident)) db"

lemma holds_EEq [simp]: "holds (EEq c (SqlText x)) r \<longleftrightarrow> col r c = SqlText x"
  by (auto simp: holds_def unless_null_def)

lemma never_condemned:
  "\<not> org_condemned o1 db ''users'' r" "\<not> org_condemned o1 db ''permissions'' r" "\<not> org_condemned o1 db ''audit_log'' r"
  using not_condemned [OF wf_jet_schema schema_members(1)] not_condemned [OF wf_jet_schema schema_members(2)]
    not_condemned [OF wf_jet_schema schema_members(3)] by (simp_all add: root_tables)

lemma org_loses_parent:
  "fk_table fk \<in> {''users'', ''permissions''} \<Longrightarrow> \<not> loses_parent db (org_condemned o1 db) fk r"
  using never_condemned by (auto simp: loses_parent_def list_ex_iff)

lemma delete_org_run:
  "exec_sql jet_schema (delete_org o1) db = Inr (delete_rows jet_schema (org_condemned o1 db) db)"
proof -
  let ?D = "org_condemned o1 db"
  have "find_table jet_schema ''organizations'' = Some organizations_table"
    using find_table_eq [OF _ schema_members(5)] wf_jet_schema by (simp add: wf_schema_def root_tables)
  moreover have "raising jet_schema ?D db = None"
    using schema_facts(2) not_condemned [OF wf_jet_schema]
    by (auto simp: raising_def find_None_iff list_all_iff list_ex_iff)
  moreover have "\<not> restricted jet_schema ?D db"
    using schema_facts(3) org_loses_parent by (auto simp: restricted_def list_all_iff list_ex_iff)
  ultimately show ?thesis by (simp add: delete_org_def sql_delete_def Let_def)
qed

lemma delete_org_rows:
  assumes "tb \<in> set jet_schema"
  shows "delete_rows jet_schema (org_condemned o1 db) db (tb_name tb) =
    filter (\<lambda>r. \<not> org_condemned o1 db (tb_name tb) r) (db (tb_name tb))"
proof -
  have "null_parents db (org_condemned o1 db) tb = (\<lambda>r. r)"
    using assms schema_facts(4) by (intro null_parents_id allI org_loses_parent) (auto simp: list_all_iff)
  then show ?thesis by (simp add: delete_rows_at [OF wf_jet_schema assms])
qed

text \<open>Rows of one tenant refer to rows of the same tenant, or to shared ones.\<close>

definition tenant_consistent :: "SqlDb \<Rightarrow> bool" where
  "tenant_consistent db \<longleftrightarrow> (\<forall>tb \<in> set jet_schema. \<forall>fk \<in> set (tb_fks tb). \<forall>pt \<in> set jet_schema.
     fk_table fk = tb_name pt \<longrightarrow> org_scoped tb \<longrightarrow> org_scoped pt \<longrightarrow>
     (\<forall>r \<in> set (db (tb_name tb)). \<forall>p \<in> set (db (tb_name pt)). points_to fk r p \<longrightarrow>
        col p ''org_id'' = SqlNull \<or> col p ''org_id'' = col r ''org_id''))"

lemma condemned_tenant:
  assumes "tenant_consistent db" "tb \<in> set jet_schema" "r \<in> set (db (tb_name tb))" "org_condemned o1 db (tb_name tb) r"
  shows "(tb_name tb = ''organizations'' \<longrightarrow> col r ''id'' = SqlText o1) \<and> (org_scoped tb \<longrightarrow> col r ''org_id'' = SqlText o1)"
  using wf_jet_schema assms(2-4)
proof (rule condemned_induct)
  fix tb r
  assume "tb \<in> set jet_schema" "tb_name tb = ''organizations'' \<and> holds (EEq ''id'' (SqlText o1)) r"
  moreover from this have "tb = organizations_table"
    using table_name_inj [OF _ _ schema_members(5)] wf_jet_schema by (simp add: wf_schema_def root_tables)
  ultimately show "(tb_name tb = ''organizations'' \<longrightarrow> col r ''id'' = SqlText o1) \<and> (org_scoped tb \<longrightarrow> col r ''org_id'' = SqlText o1)"
    by (simp add: org_scoped_def root_tables)
next
  fix tb fk pt r p
  assume a: "tb \<in> set jet_schema" "fk \<in> set (tb_fks tb)" "fk_action fk = Cascade" "pt \<in> set jet_schema" "tb_name pt = fk_table fk"
    "r \<in> set (db (tb_name tb))" "p \<in> set (db (tb_name pt))" "points_to fk r p" "org_condemned o1 db (tb_name pt) p"
    and IH: "(tb_name pt = ''organizations'' \<longrightarrow> col p ''id'' = SqlText o1) \<and> (org_scoped pt \<longrightarrow> col p ''org_id'' = SqlText o1)"
  have "tb \<noteq> organizations_table" using a(2) by (auto simp: root_tables)
  then have no: "tb_name tb \<noteq> ''organizations''"
    using table_name_inj [OF _ a(1) schema_members(5)] wf_jet_schema by (auto simp: wf_schema_def root_tables)
  have "col r ''org_id'' = SqlText o1" if s: "org_scoped tb"
  proof (cases "fk = in_org")
    case True
    then show ?thesis using a(5,8) IH by (simp add: in_org_def references_def points_to_def)
  next
    case False
    moreover have "fk_table fk \<noteq> ''users''" using a(5,9) never_condemned(1) by metis
    ultimately obtain q where "q \<in> set jet_schema" "tb_name q = fk_table fk" "org_scoped q"
      using schema_facts(5) a(1,2) s by (auto simp: list_all_iff list_ex_iff)
    then have "org_scoped pt"
      using table_name_inj [OF _ a(4), of q] a(5) wf_jet_schema by (auto simp: wf_schema_def)
    then show ?thesis using assms(1) a s IH unfolding tenant_consistent_def by (metis SqlValue.distinct(1))
  qed
  then show "(tb_name tb = ''organizations'' \<longrightarrow> col r ''id'' = SqlText o1) \<and> (org_scoped tb \<longrightarrow> col r ''org_id'' = SqlText o1)"
    using no by blast
qed

lemma tenant_condemned:
  assumes "db_ok jet_schema db" "tb \<in> set jet_schema" "org_scoped tb" "r \<in> set (db (tb_name tb))" "col r ''org_id'' = SqlText o1"
  shows "org_condemned o1 db (tb_name tb) r"
proof -
  have "fk_found db in_org r" using fks_foundD assms by (auto simp: db_ok_def org_scoped_def)
  then obtain p where p: "p \<in> set (db ''organizations'')" "col p ''id'' = SqlText o1"
    using assms(5) by (auto simp: fk_found_def in_org_def references_def list_ex_iff)
  have "org_condemned o1 db ''organizations'' p"
    using condemned_iff [OF wf_jet_schema schema_members(5), unfolded root_tables] p(2) by simp
  then have "loses_parent db (org_condemned o1 db) in_org r"
    using p assms(5) by (auto simp: loses_parent_def points_to_def in_org_def references_def list_ex_iff)
  then show ?thesis
    using assms(3) unfolding condemned_iff [OF wf_jet_schema assms(2)] org_scoped_def
    by (force simp: in_org_def references_def)
qed

lemma row_ok_no_column: "row_ok tb r \<Longrightarrow> c \<notin> set (map cl_name (tb_columns tb)) \<Longrightarrow> col r c = SqlNull"
  unfolding row_ok_def col_def by (metis map_of_eq_None_iff option.simps(4) set_map)

section \<open>Properties\<close>

lemma sorted_wrt_pair: "sorted_wrt (\<lambda>x y. \<not> R x y) xs \<Longrightarrow> i < j \<Longrightarrow> j < length xs \<Longrightarrow> \<not> R (xs ! i) (xs ! j)"
  by (simp add: sorted_wrt_iff_nth_less)

lemma db_ok_explicit:
  assumes "db_ok jet_schema db" "tb \<in> set jet_schema"
  shows "(\<forall>r \<in> set (db (tb_name tb)). row_ok tb r \<and> (\<forall>fk \<in> set (tb_fks tb). fk_found db fk r)) \<and>
    (\<forall>ix \<in> set (tb_uniques tb). \<forall>i j. i < j \<longrightarrow> j < length (db (tb_name tb)) \<longrightarrow>
       \<not> collide ix (db (tb_name tb) ! i) (db (tb_name tb) ! j))"
proof -
  have "table_ok tb (db (tb_name tb))" using assms by (simp add: db_ok_def)
  then have "\<not> clash tb (db (tb_name tb) ! i) (db (tb_name tb) ! j)" if "i < j" "j < length (db (tb_name tb))" for i j
    using sorted_wrt_pair that unfolding table_ok_def by blast
  then show ?thesis
    using assms fks_foundD [of jet_schema db tb] by (auto simp: db_ok_def table_ok_def list_all_iff clash_def list_ex_iff)
qed

text \<open>What the declarations of a table mean for its rows: a listed column, a reference, a unique index.\<close>

definition listed :: "string \<Rightarrow> string \<Rightarrow> string list \<Rightarrow> bool" where
  "listed t c vs \<longleftrightarrow> list_ex (\<lambda>tb. tb_name tb = t \<and> one_of c vs \<in> set (tb_checks tb) \<and>
     list_ex (\<lambda>cl. cl_name cl = c \<and> cl_not_null cl) (tb_columns tb)) jet_schema"

definition linked :: "string \<Rightarrow> string \<Rightarrow> string \<Rightarrow> bool" where
  "linked t c t' \<longleftrightarrow> list_ex (\<lambda>tb. tb_name tb = t \<and>
     list_ex (\<lambda>fk. fk_col fk = c \<and> fk_table fk = t' \<and> fk_ref fk = (if t' = ''permissions'' then ''key'' else ''id'')) (tb_fks tb)) jet_schema"

definition required :: "string \<Rightarrow> string list \<Rightarrow> bool" where
  "required t cs \<longleftrightarrow> list_ex (\<lambda>tb. tb_name tb = t \<and>
     list_all (\<lambda>c. list_ex (\<lambda>cl. cl_name cl = c \<and> cl_not_null cl) (tb_columns tb)) cs) jet_schema"

definition indexed :: "string \<Rightarrow> IndexTerm list \<Rightarrow> SqlExpr \<Rightarrow> bool" where
  "indexed t ts e \<longleftrightarrow> list_ex (\<lambda>tb. tb_name tb = t \<and> \<lparr>ix_terms = ts, ix_where = e\<rparr> \<in> set (tb_uniques tb)) jet_schema"

lemma row_required:
  assumes "db_ok jet_schema db" "required t cs" "r \<in> set (db t)" "c \<in> set cs"
  shows "col r c \<noteq> SqlNull"
  using assms db_ok_explicit [OF assms(1)]
  by (fastforce simp: required_def list_ex_iff list_all_iff row_ok_def filled_row_def)

lemma row_listed:
  assumes "db_ok jet_schema db" "listed t c vs" "r \<in> set (db t)"
  shows "col r c \<in> SqlText ` set vs"
proof -
  obtain tb where tb: "tb \<in> set jet_schema" "tb_name tb = t" "one_of c vs \<in> set (tb_checks tb)"
    "\<exists>cl \<in> set (tb_columns tb). cl_name cl = c \<and> cl_not_null cl"
    using assms(2) by (auto simp: listed_def list_ex_iff)
  have ok: "row_ok tb r" using db_ok_explicit [OF assms(1) tb(1)] assms(3) tb(2) by blast
  have "truth (one_of c vs) r \<noteq> Some False" using ok tb(3) by (simp add: row_ok_def checked_row_def list_all_iff)
  moreover have "col r c \<noteq> SqlNull" using ok tb(4) by (auto simp: row_ok_def filled_row_def list_all_iff)
  ultimately show ?thesis by (simp add: one_of_def unless_null_def)
qed

definition refers :: "SqlDb \<Rightarrow> SqlRow \<Rightarrow> string \<Rightarrow> string \<Rightarrow> bool" where
  "refers db r c t \<longleftrightarrow> (\<exists>p \<in> set (db t). col p (if t = ''permissions'' then ''key'' else ''id'') = col r c)"

lemma row_linked:
  assumes "db_ok jet_schema db" "linked t c t'" "r \<in> set (db t)"
  shows "col r c = SqlNull \<or> refers db r c t'"
proof -
  obtain tb fk where tb: "tb \<in> set jet_schema" "tb_name tb = t" "fk \<in> set (tb_fks tb)"
    "fk_col fk = c" "fk_table fk = t'" "fk_ref fk = (if t' = ''permissions'' then ''key'' else ''id'')"
    using assms(2) by (auto simp: linked_def list_ex_iff)
  have "fk_found db fk r" using db_ok_explicit [OF assms(1) tb(1)] assms(3) tb(2,3) by blast
  then show ?thesis using tb(4-6) by (auto simp: fk_found_def refers_def list_ex_iff)
qed

lemma rows_unique:
  assumes "db_ok jet_schema db" "indexed t ts e"
    and "\<And>r. r \<in> set (db t) \<Longrightarrow> P r \<Longrightarrow> holds e r \<and> SqlNull \<notin> set (map (ix_value r) ts)"
    and "\<And>r s. f r = f s \<Longrightarrow> map (ix_value r) ts = map (ix_value s) ts"
  shows "distinct (map f (filter P (db t)))"
proof -
  obtain tb where tb: "tb \<in> set jet_schema" "tb_name tb = t" "\<lparr>ix_terms = ts, ix_where = e\<rparr> \<in> set (tb_uniques tb)"
    using assms(2) by (auto simp: indexed_def list_ex_iff)
  have "sorted_wrt (\<lambda>r s. \<not> clash tb r s) (db t)" using assms(1) tb(1,2) by (auto simp: db_ok_def table_ok_def)
  moreover have "clash tb r s" if "r \<in> set (db t)" "s \<in> set (db t)" "P r" "P s" "f r = f s" for r s
    unfolding clash_def list_ex_iff
    by (rule bexI [OF _ tb(3)]) (use assms(3) [OF that(1,3)] assms(3) [OF that(2,4)] assms(4) [OF that(5)] in \<open>simp add: collide_def ix_key_def\<close>)
  ultimately have "sorted_wrt (\<lambda>r s. P r \<longrightarrow> P s \<longrightarrow> f r \<noteq> f s) (db t)" by (metis (mono_tags, lifting) sorted_wrt_mono_rel)
  moreover have "sorted_wrt (\<lambda>r s. P r \<longrightarrow> P s \<longrightarrow> f r \<noteq> f s) xs \<Longrightarrow> distinct (map f (filter P xs))" for xs
    by (induction xs) auto
  ultimately show ?thesis by blast
qed

text \<open>The rules the migrations state, written out on the rows, group by group.\<close>

definition identity_rules :: "SqlDb \<Rightarrow> bool" where
  "identity_rules db \<longleftrightarrow>
     (\<forall>u \<in> set (db ''users''). col u ''status'' \<in> SqlText ` {''active'', ''suspended'', ''deleted''}) \<and>
     distinct (map (\<lambda>u. sql_lower (col u ''email'')) (filter (\<lambda>u. col u ''status'' \<noteq> SqlText ''deleted'') (db ''users''))) \<and>
     (\<forall>c \<in> set (db ''credentials''). refers db c ''user_id'' ''users'' \<and>
        (col c ''kind'' \<in> SqlText ` {''oidc'', ''saml''} \<and> col c ''provider'' \<noteq> SqlNull \<and> col c ''subject'' \<noteq> SqlNull \<or>
         col c ''kind'' \<in> SqlText ` {''password'', ''ssh_key''} \<and> col c ''secret_hash'' \<noteq> SqlNull)) \<and>
     distinct (map (\<lambda>g. col g ''slug'') (db ''organizations'')) \<and>
     (\<forall>m \<in> set (db ''memberships''). col m ''status'' \<in> SqlText ` {''active'', ''suspended''} \<and>
        refers db m ''org_id'' ''organizations'' \<and> refers db m ''user_id'' ''users'') \<and>
     distinct (map (\<lambda>m. (col m ''org_id'', col m ''user_id'')) (db ''memberships'')) \<and>
     (\<forall>m \<in> set (db ''team_members''). refers db m ''team_id'' ''teams'' \<and> refers db m ''user_id'' ''users'')"

definition role_rules :: "SqlDb \<Rightarrow> bool" where
  "role_rules db \<longleftrightarrow>
     (\<forall>r \<in> set (db ''roles''). col r ''is_system'' = SqlInt 1 \<and> col r ''org_id'' = SqlNull \<or>
        col r ''is_system'' = SqlInt 0 \<and> refers db r ''org_id'' ''organizations'') \<and>
     distinct (map (\<lambda>r. col r ''key'') (filter (\<lambda>r. col r ''org_id'' = SqlNull) (db ''roles''))) \<and>
     distinct (map (\<lambda>r. (col r ''org_id'', col r ''key'')) (filter (\<lambda>r. col r ''org_id'' \<noteq> SqlNull) (db ''roles''))) \<and>
     (\<forall>g \<in> set (db ''role_permissions''). refers db g ''role_id'' ''roles'' \<and> refers db g ''permission_key'' ''permissions'') \<and>
     distinct (map (\<lambda>g. (col g ''role_id'', col g ''permission_key'')) (db ''role_permissions''))"

definition grant_rules :: "SqlDb \<Rightarrow> bool" where
  "grant_rules db \<longleftrightarrow>
     (\<forall>a \<in> set (db ''role_assignments''). col a ''principal_kind'' \<in> SqlText ` {''user'', ''team'', ''service_account''} \<and>
        col a ''scope_kind'' \<in> SqlText ` {''org'', ''project'', ''pipeline''} \<and>
        refers db a ''org_id'' ''organizations'' \<and> refers db a ''role_id'' ''roles'') \<and>
     distinct (map (\<lambda>a. (col a ''principal_kind'', col a ''principal_id'', col a ''role_id'', col a ''scope_kind'', col a ''scope_id''))
       (db ''role_assignments'')) \<and>
     distinct (map (\<lambda>i. (col i ''org_id'', sql_lower (col i ''email'')))
       (filter (\<lambda>i. col i ''accepted_at'' = SqlNull \<and> col i ''revoked_at'' = SqlNull) (db ''invitations''))) \<and>
     (\<forall>k \<in> set (db ''api_tokens''). col k ''principal_kind'' \<in> SqlText ` {''user'', ''service_account''} \<and>
        refers db k ''org_id'' ''organizations'') \<and>
     distinct (map (\<lambda>k. col k ''prefix'') (db ''api_tokens''))"

definition work_rules :: "SqlDb \<Rightarrow> bool" where
  "work_rules db \<longleftrightarrow>
     (\<forall>p \<in> set (db ''pipelines''). refers db p ''project_id'' ''projects'' \<and> refers db p ''org_id'' ''organizations'') \<and>
     distinct (map (\<lambda>p. (col p ''project_id'', col p ''slug'')) (db ''pipelines'')) \<and>
     (\<forall>r \<in> set (db ''runs''). refers db r ''pipeline_id'' ''pipelines'' \<and>
        col r ''status'' \<in> SqlText ` {''queued'', ''running'', ''success'', ''failed'', ''cancelled'', ''timed_out''}) \<and>
     distinct (map (\<lambda>r. (col r ''pipeline_id'', col r ''number'')) (db ''runs'')) \<and>
     (\<forall>s \<in> set (db ''steps''). refers db s ''run_id'' ''runs'' \<and>
        col s ''status'' \<in> SqlText ` {''pending'', ''ready'', ''running'', ''success'', ''failed'', ''skipped'', ''cancelled'', ''timed_out''}) \<and>
     distinct (map (\<lambda>s. (col s ''run_id'', col s ''name'')) (db ''steps'')) \<and>
     distinct (map (\<lambda>x. (col x ''org_id'', col x ''scope_kind'', col x ''scope_id'', col x ''name'', col x ''version'')) (db ''secrets'')) \<and>
     (\<forall>e \<in> set (db ''audit_log''). col e ''actor_kind'' \<in> SqlText ` {''user'', ''service_account'', ''system''})"

lemma row_links: "db_ok jet_schema db \<Longrightarrow> linked t c t' \<and> required t [c] \<Longrightarrow> r \<in> set (db t) \<Longrightarrow> refers db r c t'"
  using row_linked row_required by fastforce

lemma sql_lower_null [simp]: "sql_lower v = SqlNull \<longleftrightarrow> v = SqlNull" "SqlNull = sql_lower v \<longleftrightarrow> v = SqlNull"
  by (cases v; simp add: sql_lower_def)+

lemma keys_unique:
  assumes "db_ok jet_schema db" "indexed t (map IxCol cs) ETrue" "required t cs"
    and "\<And>r s. f r = f s \<Longrightarrow> map (col r) cs = map (col s) cs"
  shows "distinct (map f (db t))"
proof -
  have "distinct (map f (filter (\<lambda>_. True) (db t)))"
  proof (rule rows_unique [OF assms(1,2)])
    show "holds ETrue r \<and> SqlNull \<notin> set (map (ix_value r) (map IxCol cs))" if "r \<in> set (db t)" for r
      using row_required [OF assms(1,3) that] by (fastforce simp: holds_def)
    show "map (ix_value r) (map IxCol cs) = map (ix_value s) (map IxCol cs)" if "f r = f s" for r s
      using assms(4) [OF that] by (simp add: comp_def)
  qed
  then show ?thesis by simp
qed

lemma k_Some: "k_and (Some a) (Some b) = Some (a \<and> b)" "k_or (Some a) (Some b) = Some (a \<or> b)"
  by (cases a; cases b; simp)+

lemma identity_rules_hold:
  assumes "db_ok jet_schema db"
  shows "identity_rules db"
proof -
  have kinds: "col c ''kind'' \<in> SqlText ` {''oidc'', ''saml''} \<and> col c ''provider'' \<noteq> SqlNull \<and> col c ''subject'' \<noteq> SqlNull \<or>
         col c ''kind'' \<in> SqlText ` {''password'', ''ssh_key''} \<and> col c ''secret_hash'' \<noteq> SqlNull"
    if "c \<in> set (db ''credentials'')" for c
  proof -
    have "row_ok credentials_table c" using db_ok_explicit [OF assms schema_members(4)] that by (simp add: credentials_name)
    then have "truth (EOr (EAnd (one_of ''kind'' [''oidc'', ''saml'']) (EAnd (ENotNull ''provider'') (ENotNull ''subject'')))
        (EAnd (one_of ''kind'' [''password'', ''ssh_key'']) (ENotNull ''secret_hash''))) c \<noteq> Some False"
      by (simp add: row_ok_def checked_row_def credentials_table_def)
    moreover have "listed ''credentials'' ''kind'' [''password'', ''oidc'', ''saml'', ''ssh_key'']" by code_simp
    then have "col c ''kind'' \<in> SqlText ` set [''password'', ''oidc'', ''saml'', ''ssh_key'']" by (rule row_listed [OF assms _ that])
    ultimately show ?thesis by (auto simp: one_of_def unless_null_def k_Some)
  qed
  have "linked ''credentials'' ''user_id'' ''users'' \<and> required ''credentials'' [''user_id'']"
    "linked ''memberships'' ''org_id'' ''organizations'' \<and> required ''memberships'' [''org_id'']"
    "linked ''memberships'' ''user_id'' ''users'' \<and> required ''memberships'' [''user_id'']"
    "linked ''team_members'' ''team_id'' ''teams'' \<and> required ''team_members'' [''team_id'']"
    "linked ''team_members'' ''user_id'' ''users'' \<and> required ''team_members'' [''user_id'']"
    by code_simp+
  note links = this [THEN row_links [OF assms]]
  have "listed ''users'' ''status'' [''active'', ''suspended'', ''deleted'']" "listed ''memberships'' ''status'' [''active'', ''suspended'']"
    by code_simp+
  note lists = this [THEN row_listed [OF assms]]
  have emails: "distinct (map (\<lambda>u. sql_lower (col u ''email'')) (filter (\<lambda>u. col u ''status'' \<noteq> SqlText ''deleted'') (db ''users'')))"
  proof (rule rows_unique [OF assms])
    show "indexed ''users'' [IxLower ''email''] (ENe ''status'' (SqlText ''deleted''))" by code_simp
    have need: "required ''users'' [''email'', ''status'']" by code_simp
    show "holds (ENe ''status'' (SqlText ''deleted'')) r \<and> SqlNull \<notin> set (map (ix_value r) [IxLower ''email''])"
      if "r \<in> set (db ''users'')" "col r ''status'' \<noteq> SqlText ''deleted''" for r
      using row_required [OF assms need that(1), of "''email''"] row_required [OF assms need that(1), of "''status''"] that(2)
      by (auto simp: holds_def unless_null_def)
  qed simp
  have slugs: "distinct (map (\<lambda>g. col g ''slug'') (db ''organizations''))"
    by (rule keys_unique [OF assms, where cs = "[''slug'']"]) (code_simp+, simp)
  have members: "distinct (map (\<lambda>m. (col m ''org_id'', col m ''user_id'')) (db ''memberships''))"
    by (rule keys_unique [OF assms, where cs = "[''org_id'', ''user_id'']"]) (code_simp+, simp)
  show ?thesis unfolding identity_rules_def
    by (intro conjI ballI emails slugs members links kinds) (use lists in simp_all)
qed

lemma role_rules_hold:
  assumes "db_ok jet_schema db"
  shows "role_rules db"
proof -
  have "linked ''role_permissions'' ''role_id'' ''roles'' \<and> required ''role_permissions'' [''role_id'']"
    "linked ''role_permissions'' ''permission_key'' ''permissions'' \<and> required ''role_permissions'' [''permission_key'']"
    by code_simp+
  note links = this [THEN row_links [OF assms]]
  have kinds: "col r ''is_system'' = SqlInt 1 \<and> col r ''org_id'' = SqlNull \<or>
      col r ''is_system'' = SqlInt 0 \<and> refers db r ''org_id'' ''organizations''" if r: "r \<in> set (db ''roles'')" for r
  proof -
    have "row_ok roles_table r" using db_ok_explicit [OF assms schema_members(6)] r by (simp add: roles_table_def)
    then have "truth (EIn ''is_system'' [SqlInt 0, SqlInt 1]) r \<noteq> Some False"
      "truth (EOr (EAnd (EEq ''is_system'' (SqlInt 1)) (EIsNull ''org_id'')) (EAnd (EEq ''is_system'' (SqlInt 0)) (ENotNull ''org_id''))) r \<noteq> Some False"
      by (simp_all add: row_ok_def checked_row_def roles_table_def)
    moreover have "linked ''roles'' ''org_id'' ''organizations''" "required ''roles'' [''is_system'']" by code_simp+
    ultimately show ?thesis
      using row_linked [OF assms _ r] row_required [OF assms _ r] by (auto simp: unless_null_def k_Some split: if_splits)
  qed
  have key: "required ''roles'' [''key'']" by code_simp
  have builtin: "distinct (map (\<lambda>r. col r ''key'') (filter (\<lambda>r. col r ''org_id'' = SqlNull) (db ''roles'')))"
  proof (rule rows_unique [OF assms])
    show "indexed ''roles'' [IxCol ''key''] (EIsNull ''org_id'')" by code_simp
    show "holds (EIsNull ''org_id'') r \<and> SqlNull \<notin> set (map (ix_value r) [IxCol ''key''])"
      if "r \<in> set (db ''roles'')" "col r ''org_id'' = SqlNull" for r
      using row_required [OF assms key that(1)] that(2) by (auto simp: holds_def)
  qed simp
  have own: "distinct (map (\<lambda>r. (col r ''org_id'', col r ''key'')) (filter (\<lambda>r. col r ''org_id'' \<noteq> SqlNull) (db ''roles'')))"
  proof (rule rows_unique [OF assms])
    show "indexed ''roles'' [IxCol ''org_id'', IxCol ''key''] (ENotNull ''org_id'')" by code_simp
    show "holds (ENotNull ''org_id'') r \<and> SqlNull \<notin> set (map (ix_value r) [IxCol ''org_id'', IxCol ''key''])"
      if "r \<in> set (db ''roles'')" "col r ''org_id'' \<noteq> SqlNull" for r
      using row_required [OF assms key that(1)] that(2) by (auto simp: holds_def)
  qed simp
  have pairs: "distinct (map (\<lambda>g. (col g ''role_id'', col g ''permission_key'')) (db ''role_permissions''))"
    by (rule keys_unique [OF assms, where cs = "[''role_id'', ''permission_key'']"]) (code_simp+, simp)
  show ?thesis unfolding role_rules_def
    by (intro conjI ballI kinds builtin own pairs links)
qed

lemma grant_rules_hold:
  assumes "db_ok jet_schema db"
  shows "grant_rules db"
proof -
  have "linked ''role_assignments'' ''org_id'' ''organizations'' \<and> required ''role_assignments'' [''org_id'']"
    "linked ''role_assignments'' ''role_id'' ''roles'' \<and> required ''role_assignments'' [''role_id'']"
    "linked ''api_tokens'' ''org_id'' ''organizations'' \<and> required ''api_tokens'' [''org_id'']"
    by code_simp+
  note links = this [THEN row_links [OF assms]]
  have "listed ''role_assignments'' ''principal_kind'' [''user'', ''team'', ''service_account'']"
    "listed ''role_assignments'' ''scope_kind'' [''org'', ''project'', ''pipeline'']"
    "listed ''api_tokens'' ''principal_kind'' [''user'', ''service_account'']"
    by code_simp+
  note lists = this [THEN row_listed [OF assms]]
  have pending: "distinct (map (\<lambda>i. (col i ''org_id'', sql_lower (col i ''email'')))
       (filter (\<lambda>i. col i ''accepted_at'' = SqlNull \<and> col i ''revoked_at'' = SqlNull) (db ''invitations'')))"
  proof (rule rows_unique [OF assms])
    show "indexed ''invitations'' [IxCol ''org_id'', IxLower ''email''] (EAnd (EIsNull ''accepted_at'') (EIsNull ''revoked_at''))" by code_simp
    have need: "required ''invitations'' [''org_id'', ''email'']" by code_simp
    show "holds (EAnd (EIsNull ''accepted_at'') (EIsNull ''revoked_at'')) r \<and>
        SqlNull \<notin> set (map (ix_value r) [IxCol ''org_id'', IxLower ''email''])"
      if "r \<in> set (db ''invitations'')" "col r ''accepted_at'' = SqlNull \<and> col r ''revoked_at'' = SqlNull" for r
      using row_required [OF assms need that(1), of "''org_id''"] row_required [OF assms need that(1), of "''email''"] that(2)
      by (auto simp: holds_def)
  qed simp
  have grants: "distinct (map (\<lambda>a. (col a ''principal_kind'', col a ''principal_id'', col a ''role_id'', col a ''scope_kind'', col a ''scope_id'')) (db ''role_assignments''))"
    by (rule keys_unique [OF assms, where cs = "[''principal_kind'', ''principal_id'', ''role_id'', ''scope_kind'', ''scope_id'']"]) (code_simp+, simp)
  have prefixes: "distinct (map (\<lambda>k. (col k ''prefix'')) (db ''api_tokens''))"
    by (rule keys_unique [OF assms, where cs = "[''prefix'']"]) (code_simp+, simp)
  show ?thesis unfolding grant_rules_def
    by (intro conjI ballI pending grants prefixes links) (use lists in simp_all)
qed

lemma work_rules_hold:
  assumes "db_ok jet_schema db"
  shows "work_rules db"
proof -
  have "linked ''pipelines'' ''project_id'' ''projects'' \<and> required ''pipelines'' [''project_id'']"
    "linked ''pipelines'' ''org_id'' ''organizations'' \<and> required ''pipelines'' [''org_id'']"
    "linked ''runs'' ''pipeline_id'' ''pipelines'' \<and> required ''runs'' [''pipeline_id'']"
    "linked ''steps'' ''run_id'' ''runs'' \<and> required ''steps'' [''run_id'']"
    by code_simp+
  note links = this [THEN row_links [OF assms]]
  have "listed ''runs'' ''status'' [''queued'', ''running'', ''success'', ''failed'', ''cancelled'', ''timed_out'']"
    "listed ''steps'' ''status'' [''pending'', ''ready'', ''running'', ''success'', ''failed'', ''skipped'', ''cancelled'', ''timed_out'']"
    "listed ''audit_log'' ''actor_kind'' [''user'', ''service_account'', ''system'']"
    by code_simp+
  note lists = this [THEN row_listed [OF assms]]
  have slugs: "distinct (map (\<lambda>p. (col p ''project_id'', col p ''slug'')) (db ''pipelines''))"
    by (rule keys_unique [OF assms, where cs = "[''project_id'', ''slug'']"]) (code_simp+, simp)
  have numbers: "distinct (map (\<lambda>r. (col r ''pipeline_id'', col r ''number'')) (db ''runs''))"
    by (rule keys_unique [OF assms, where cs = "[''pipeline_id'', ''number'']"]) (code_simp+, simp)
  have names: "distinct (map (\<lambda>s. (col s ''run_id'', col s ''name'')) (db ''steps''))"
    by (rule keys_unique [OF assms, where cs = "[''run_id'', ''name'']"]) (code_simp+, simp)
  have versions: "distinct (map (\<lambda>x. (col x ''org_id'', col x ''scope_kind'', col x ''scope_id'', col x ''name'', col x ''version'')) (db ''secrets''))"
    by (rule keys_unique [OF assms, where cs = "[''org_id'', ''scope_kind'', ''scope_id'', ''name'', ''version'']"]) (code_simp+, simp)
  show ?thesis unfolding work_rules_def
    by (intro conjI ballI slugs numbers names versions links) (use lists in simp_all)
qed

text \<open>C25: Whatever statements follow the migrations, and whichever of them fail, the database keeps the rules of the
  migrations. A live user has an email no other live user has, whatever the case of its letters; statuses and kinds are listed ones; credentials
  carry what their kind needs. A role is built in exactly when it belongs to no organization, and there is one of each key, as
  there is in each organization; a role grants permissions of the catalog. Grants are to listed kinds of principal at listed
  kinds of scope, of roles and organizations that exist, and no grant is there twice; one invitation per
  organization and email is pending; prefixes of tokens are unique. Pipelines, runs and steps have their parents,
  numbers of runs and names of steps are unique in them. In every table every row has its columns with values of
  their types, its required values and no false check, every foreign key that is not NULL finds its row, and no
  two rows collide in a unique index. The statements are INSERT (plain, OR IGNORE and OR REPLACE), UPDATE and DELETE.\<close>

theorem reachable_databases_are_consistent:
  assumes "db = foldl (sql_step jet_schema) migrated_db stmts"
  shows "identity_rules db \<and> role_rules db \<and> grant_rules db \<and> work_rules db \<and>
    (\<forall>tb \<in> set jet_schema. (\<forall>r \<in> set (db (tb_name tb)). row_ok tb r \<and> (\<forall>fk \<in> set (tb_fks tb). fk_found db fk r)) \<and>
      (\<forall>ix \<in> set (tb_uniques tb). \<forall>i j. i < j \<longrightarrow> j < length (db (tb_name tb)) \<longrightarrow>
         \<not> collide ix (db (tb_name tb) ! i) (db (tb_name tb) ! j)))"
proof -
  have ok: "db_ok jet_schema db" unfolding assms by (rule jet_db.run_inv [OF db_ok_migrated])
  show ?thesis
    using identity_rules_hold [OF ok] role_rules_hold [OF ok] grant_rules_hold [OF ok] work_rules_hold [OF ok] db_ok_explicit [OF ok]
    by blast
qed

definition new_org :: "string \<Rightarrow> string \<Rightarrow> SqlStmt" where
  "new_org ident slug = Insert False ''organizations''
     [(''id'', SqlText ident), (''slug'', SqlText slug), (''name'', SqlText slug), (''created_at'', SqlInt 0), (''updated_at'', SqlInt 0)]"

definition new_role :: "string \<Rightarrow> SqlValue \<Rightarrow> string \<Rightarrow> int \<Rightarrow> SqlStmt" where
  "new_role ident org key sys = Insert False ''roles''
     [(''id'', SqlText ident), (''org_id'', org), (''key'', SqlText key), (''name'', SqlText key), (''is_system'', SqlInt sys), (''created_at'', SqlInt 0)]"

text \<open>A second built-in role of one key is refused; two organizations may each have a role of one key.\<close>

definition role_script :: "SqlStmt list" where
  "role_script = [new_org ''o1'' ''acme'', new_org ''o2'' ''other'', new_role ''r1'' SqlNull ''admin'' 1, new_role ''r2'' SqlNull ''admin'' 1,
     new_role ''r3'' (SqlText ''o1'') ''deployer'' 0, new_role ''r4'' (SqlText ''o2'') ''deployer'' 0,
     new_role ''r5'' (SqlText ''o1'') ''deployer'' 0, new_role ''r6'' (SqlText ''o3'') ''viewer'' 0, new_role ''r7'' (SqlText ''o1'') ''owner'' 1]"

theorem reachable_databases_are_consistent_witness:
  "map (\<lambda>r. col r ''id'') (foldl (sql_step jet_schema) migrated_db role_script ''roles'') = [SqlText ''r1'', SqlText ''r3'', SqlText ''r4''] \<and>
   role_rules (foldl (sql_step jet_schema) migrated_db role_script)"
proof
  show "map (\<lambda>r. col r ''id'') (foldl (sql_step jet_schema) migrated_db role_script ''roles'') = [SqlText ''r1'', SqlText ''r3'', SqlText ''r4'']"
    unfolding migrated_db_eq by code_simp
  show "role_rules (foldl (sql_step jet_schema) migrated_db role_script)"
    using reachable_databases_are_consistent [OF refl, of role_script] by blast
qed

fun replaces_in :: "string \<Rightarrow> SqlStmt \<Rightarrow> bool" where
  "replaces_in t (Replace t' vals) \<longleftrightarrow> t' = t"
| "replaces_in t _ \<longleftrightarrow> False"

lemma audit_log_run:
  "list_all (\<lambda>s. \<not> replaces_in ''audit_log'' s) stmts \<Longrightarrow> \<exists>rs. foldl (sql_step jet_schema) db stmts ''audit_log'' = db ''audit_log'' @ rs"
proof (induction stmts arbitrary: db)
  case (Cons s stmts)
  have a: "tb_on_update audit_log_table \<noteq> None" "tb_on_delete audit_log_table \<noteq> None" by (simp_all add: audit_log_table_def)
  have "\<forall>vals. s \<noteq> Replace ''audit_log'' vals" using Cons.prems by auto
  then have "\<exists>rs. sql_step jet_schema db s ''audit_log'' = db ''audit_log'' @ rs"
    using append_only_step [OF wf_jet_schema schema_members(3) a, of s db, unfolded root_tables]
    by (auto simp: sql_step_def split: sum.split)
  then show ?case using Cons by (auto simp: list_all_iff) (metis append_assoc)
qed simp

lemma find_audit_log: "find_table jet_schema ''audit_log'' = Some audit_log_table"
  using find_table_eq [OF _ schema_members(3)] wf_jet_schema by (simp add: wf_schema_def root_tables)

lemma audit_log_delete_raises:
  assumes "r \<in> set (db ''audit_log'')" "holds e r"
  shows "exec_sql jet_schema (Delete_from ''audit_log'' e) db = Inl (Raised ''audit_log is append-only: deletes are not permitted'')"
proof -
  let ?D = "condemned jet_schema ''audit_log'' e db"
  have d: "?D ''audit_log'' r"
    using condemned_iff [OF wf_jet_schema schema_members(3), unfolded root_tables] assms(2) by simp
  have only: "tb = audit_log_table" if "tb \<in> set jet_schema" "tb_on_delete tb \<noteq> None" for tb
    using that by (auto simp: jet_schema_def users_table_def credentials_table_def organizations_table_def memberships_table_def
        teams_table_def team_members_table_def permissions_table_def roles_table_def role_permissions_table_def
        service_accounts_table_def api_tokens_table_def role_assignments_table_def invitations_table_def projects_table_def
        pipelines_table_def runs_table_def steps_table_def secrets_table_def workers_table_def)
  have raises: "tb_on_delete audit_log_table \<noteq> None" by (simp add: audit_log_table_def)
  have "raising jet_schema ?D db \<noteq> None"
    using schema_members(3) assms(1) d raises unfolding raising_def find_None_iff list_ex_iff by (metis root_tables(5))
  then obtain tb where tb: "raising jet_schema ?D db = Some tb" by blast
  then have "tb = audit_log_table" using only unfolding raising_def find_Some_iff by (metis nth_mem)
  then show ?thesis using tb find_audit_log by (simp add: sql_delete_def Let_def) (simp add: audit_log_table_def)
qed

lemma audit_log_update_raises:
  assumes "r \<in> set (db ''audit_log'')" "holds e r" "set (map fst sets) \<subseteq> set (map cl_name (tb_columns audit_log_table))"
  shows "exec_sql jet_schema (Update ''audit_log'' e sets) db = Inl (Raised ''audit_log is append-only: updates are not permitted'')"
proof -
  have "list_ex (holds e) (db ''audit_log'')" using assms(1,2) by (auto simp: list_ex_iff)
  moreover have "tb_on_update audit_log_table = Some ''audit_log is append-only: updates are not permitted''" by (simp add: audit_log_table_def)
  ultimately show ?thesis using find_audit_log assms(3) by (simp add: sql_update_def Let_def root_tables)
qed

lemma audit_log_replaced:
  assumes "set (map fst vals) \<subseteq> set (map cl_name (tb_columns audit_log_table))" "row_ok audit_log_table (replace_row audit_log_table vals)"
    "map_of vals ''id'' = Some x" "x \<noteq> SqlNull"
  shows "exec_sql jet_schema (Replace ''audit_log'' vals) db = Inr (db(''audit_log'' :=
    filter (\<lambda>s. col s ''id'' \<noteq> x) (db ''audit_log'') @ [replace_row audit_log_table vals]))"
proof -
  have leaf: "leaf_table jet_schema audit_log_table" by code_simp
  have "col (replace_row audit_log_table vals) ''id'' = x"
    using assms(3,4) by (simp add: replace_row_def audit_log_table_def id_col_def req_def col_def Let_def)
  then have "clash audit_log_table (replace_row audit_log_table vals) s \<longleftrightarrow> col s ''id'' = x" for s
    using assms(4) by (auto simp: clash_def audit_log_table_def uniq_def collide_def holds_def ix_key_def)
  then show ?thesis
    using replace_leaf [OF wf_jet_schema schema_members(3) _ leaf assms(1), of db] assms(2)
    by (simp add: find_audit_log root_tables row_ok_def)
qed

text \<open>C27: The audit log is append-only, but for one statement. No sequence of INSERT, INSERT OR IGNORE, UPDATE and DELETE
  statements on any tables and of INSERT OR REPLACE into other tables, the deletion of organizations included, changes or
  removes a record or their order, and then a DELETE or UPDATE that selects a record fails with the message of the trigger. INSERT
  OR REPLACE into the log itself is not stopped: with the id of a record and values the table admits it succeeds, no trigger
  fires, the record is gone, and the new one stands at the end.\<close>

theorem audit_log_is_append_only:
  assumes "r \<in> set (db ''audit_log'')" "db' = foldl (sql_step jet_schema) db stmts"
    "list_all (\<lambda>s. \<not> replaces_in ''audit_log'' s) stmts"
  shows "(\<exists>rs. db' ''audit_log'' = db ''audit_log'' @ rs) \<and>
    (\<forall>e. holds e r \<longrightarrow>
       exec_sql jet_schema (Delete_from ''audit_log'' e) db' = Inl (Raised ''audit_log is append-only: deletes are not permitted'') \<and>
       (\<forall>sets. set (map fst sets) \<subseteq> set (map cl_name (tb_columns audit_log_table)) \<longrightarrow>
          exec_sql jet_schema (Update ''audit_log'' e sets) db' = Inl (Raised ''audit_log is append-only: updates are not permitted''))) \<and>
    (\<forall>vals. set (map fst vals) \<subseteq> set (map cl_name (tb_columns audit_log_table)) \<longrightarrow>
       row_ok audit_log_table (replace_row audit_log_table vals) \<longrightarrow> map_of vals ''id'' = Some (col r ''id'') \<longrightarrow> col r ''id'' \<noteq> SqlNull \<longrightarrow>
       exec_sql jet_schema (Replace ''audit_log'' vals) db' = Inr (db'(''audit_log'' :=
         filter (\<lambda>s. col s ''id'' \<noteq> col r ''id'') (db' ''audit_log'') @ [replace_row audit_log_table vals])))"
proof -
  obtain rs where rs: "db' ''audit_log'' = db ''audit_log'' @ rs" using audit_log_run [OF assms(3)] assms(2) by blast
  then have r: "r \<in> set (db' ''audit_log'')" using assms(1) by simp
  show ?thesis
    by (intro conjI allI impI exI [of _ rs] rs audit_log_delete_raises [where r = r and db = db', OF r]
        audit_log_update_raises [where r = r and db = db', OF r] audit_log_replaced)
qed

definition audit_script :: "SqlStmt list" where
  "audit_script = [new_org ''o1'' ''acme'', Insert False ''audit_log'' [(''id'', SqlText ''a1''), (''org_id'', SqlText ''o1''),
     (''actor_kind'', SqlText ''user''), (''actor_id'', SqlText ''u1''), (''action'', SqlText ''org.create''), (''created_at'', SqlInt 1)]]"

lemma example_audit: "foldl (sql_step jet_schema) migrated_db audit_script ''audit_log'' =
    [[(''id'', SqlText ''a1''), (''org_id'', SqlText ''o1''), (''actor_kind'', SqlText ''user''), (''actor_id'', SqlText ''u1''),
      (''action'', SqlText ''org.create''), (''target_kind'', SqlNull), (''target_id'', SqlNull), (''metadata'', SqlNull),
      (''ip'', SqlNull), (''created_at'', SqlInt 1)]]"
  unfolding migrated_db_eq by code_simp

definition tampered :: "(string \<times> SqlValue) list" where
  "tampered = [(''id'', SqlText ''a1''), (''org_id'', SqlText ''o1''), (''actor_kind'', SqlText ''user''),
     (''action'', SqlText ''nothing.happened''), (''created_at'', SqlInt 1)]"

lemma example_tampered:
  "set (map fst tampered) \<subseteq> set (map cl_name (tb_columns audit_log_table))"
  "row_ok audit_log_table (replace_row audit_log_table tampered)"
  "map_of tampered ''id'' = Some (SqlText ''a1'')"
  "col (replace_row audit_log_table tampered) ''action'' = SqlText ''nothing.happened''"
  by code_simp+

theorem audit_log_is_append_only_witness:
  "(\<exists>rs. foldl (sql_step jet_schema) migrated_db (audit_script @ [delete_org ''o1'']) ''audit_log'' =
      foldl (sql_step jet_schema) migrated_db audit_script ''audit_log'' @ rs) \<and>
   exec_sql jet_schema (Delete_from ''audit_log'' ETrue) (foldl (sql_step jet_schema) migrated_db (audit_script @ [delete_org ''o1''])) =
     Inl (Raised ''audit_log is append-only: deletes are not permitted'') \<and>
   (\<exists>db'. exec_sql jet_schema (Replace ''audit_log'' tampered)
        (foldl (sql_step jet_schema) migrated_db (audit_script @ [delete_org ''o1''])) = Inr db' \<and>
      map (\<lambda>r. col r ''action'') (filter (\<lambda>r. col r ''id'' = SqlText ''a1'') (db' ''audit_log'')) = [SqlText ''nothing.happened''])"
proof -
  let ?db = "foldl (sql_step jet_schema) migrated_db audit_script"
  let ?r = "hd (?db ''audit_log'')"
  have r: "?r \<in> set (?db ''audit_log'')" "col ?r ''id'' = SqlText ''a1''"
    unfolding example_audit by (simp_all add: col_def)
  have n: "list_all (\<lambda>s. \<not> replaces_in ''audit_log'' s) [delete_org ''o1'']" by (simp add: delete_org_def)
  have d: "foldl (sql_step jet_schema) migrated_db (audit_script @ [delete_org ''o1'']) = foldl (sql_step jet_schema) ?db [delete_org ''o1'']"
    by simp
  have t: "holds ETrue ?r" by (simp add: holds_def)
  note A = audit_log_is_append_only [where r = ?r and db = ?db, OF r(1) d n]
  have "col (replace_row audit_log_table tampered) ''id'' = SqlText ''a1''" by code_simp
  then show ?thesis using A t example_tampered r(2) by (simp add: filter_False)
qed

text \<open>C26: Deleting an organization always succeeds. Afterwards the database is consistent and no row of any table but the audit log
  carries its id; the audit log, the users, their credentials and the permissions are as before; and when
  the rows of each tenant refer only to rows of that tenant or to shared ones, every table of tenants' rows has lost
  exactly the rows of that organization.\<close>

theorem delete_org_is_exact:
  assumes "db_ok jet_schema db"
  shows "\<exists>db'. exec_sql jet_schema (delete_org o1) db = Inr db' \<and> db_ok jet_schema db' \<and>
    (\<forall>tb \<in> set jet_schema. tb_name tb \<noteq> ''audit_log'' \<longrightarrow> (\<forall>r \<in> set (db' (tb_name tb)). col r ''org_id'' \<noteq> SqlText o1)) \<and>
    (\<forall>t \<in> {''audit_log'', ''users'', ''credentials'', ''permissions''}. db' t = db t) \<and>
    (tenant_consistent db \<longrightarrow> (\<forall>tb \<in> set jet_schema. org_scoped tb \<longrightarrow>
       db' (tb_name tb) = filter (\<lambda>r. col r ''org_id'' \<noteq> SqlText o1) (db (tb_name tb))))"
proof -
  let ?D = "org_condemned o1 db"
  let ?db = "delete_rows jet_schema ?D db"
  note rows = delete_org_rows [of _ o1 db]
  have ok: "db_ok jet_schema ?db" using exec_sql_ok [OF wf_jet_schema assms delete_org_run] .
  have gone: "col r ''org_id'' \<noteq> SqlText o1"
    if tb: "tb \<in> set jet_schema" "tb_name tb \<noteq> ''audit_log''" "r \<in> set (?db (tb_name tb))" for tb r
  proof (cases "org_scoped tb")
    case True
    then show ?thesis using tenant_condemned [OF assms tb(1) True, of r o1] tb(3) rows [OF tb(1)] by auto
  next
    case False
    then have "''org_id'' \<notin> set (map cl_name (tb_columns tb))" using schema_facts(1) tb(1,2) by (auto simp: list_all_iff)
    moreover have "row_ok tb r" using db_ok_explicit [OF ok tb(1)] tb(3) by blast
    ultimately have "col r ''org_id'' = SqlNull" using row_ok_no_column by blast
    then show ?thesis by simp
  qed
  have "\<not> ?D ''credentials'' r" for r
    using condemned_iff [OF wf_jet_schema schema_members(4), of "''organizations''" "EEq ''id'' (SqlText o1)" db r]
      org_loses_parent by (auto simp: credentials_table_def references_def)
  then have same: "?db t = db t" if "t \<in> {''audit_log'', ''users'', ''credentials'', ''permissions''}" for t
    using that rows [OF schema_members(1)] rows [OF schema_members(2)] rows [OF schema_members(3)] rows [OF schema_members(4)]
      never_condemned [of o1 db] by (auto simp: root_tables credentials_name)
  have exact: "?db (tb_name tb) = filter (\<lambda>r. col r ''org_id'' \<noteq> SqlText o1) (db (tb_name tb))"
    if "tenant_consistent db" "tb \<in> set jet_schema" "org_scoped tb" for tb
  proof -
    have "?D (tb_name tb) r \<longleftrightarrow> col r ''org_id'' = SqlText o1" if r: "r \<in> set (db (tb_name tb))" for r
      using condemned_tenant [OF \<open>tenant_consistent db\<close> \<open>tb \<in> set jet_schema\<close> r, of o1] \<open>org_scoped tb\<close>
        tenant_condemned [OF assms \<open>tb \<in> set jet_schema\<close> \<open>org_scoped tb\<close> r] by meson
    then show ?thesis unfolding rows [OF that(2)] by (simp cong: filter_cong)
  qed
  show ?thesis
    by (intro exI [of _ ?db] conjI ballI impI) (fact delete_org_run ok gone same exact)+
qed

lemma db_ok_script: "db_ok jet_schema (foldl (sql_step jet_schema) migrated_db stmts)"
  by (rule jet_db.run_inv [OF db_ok_migrated])

definition tenant_script :: "SqlStmt list" where
  "tenant_script = [new_org ''o1'' ''acme'', new_org ''o2'' ''other'', new_role ''r1'' (SqlText ''o1'') ''deployer'' 0,
     new_role ''r2'' (SqlText ''o2'') ''deployer'' 0]"

lemma example_tenants:
  "map (\<lambda>r. (col r ''id'', col r ''org_id'')) (foldl (sql_step jet_schema) migrated_db tenant_script ''roles'') =
     [(SqlText ''r1'', SqlText ''o1''), (SqlText ''r2'', SqlText ''o2'')]"
  "tenant_consistent (foldl (sql_step jet_schema) migrated_db tenant_script)"
  unfolding migrated_db_eq by code_simp+

theorem delete_org_is_exact_witness:
  "\<exists>db'. exec_sql jet_schema (delete_org ''o1'') (foldl (sql_step jet_schema) migrated_db tenant_script) = Inr db' \<and>
     map (\<lambda>r. col r ''id'') (db' ''roles'') = [SqlText ''r2'']"
proof -
  let ?db = "foldl (sql_step jet_schema) migrated_db tenant_script"
  have o: "org_scoped roles_table" "tb_name roles_table = ''roles''" by (simp_all add: org_scoped_def roles_table_def)
  obtain db' where db': "exec_sql jet_schema (delete_org ''o1'') ?db = Inr db'"
    "db' ''roles'' = filter (\<lambda>r. col r ''org_id'' \<noteq> SqlText ''o1'') (?db ''roles'')"
    using delete_org_is_exact [OF db_ok_script [of tenant_script], of "''o1''"] example_tenants(2) schema_members(6) o by (metis (lifting))
  obtain a b where "?db ''roles'' = [a, b]" "col a ''id'' = SqlText ''r1''" "col a ''org_id'' = SqlText ''o1''"
    "col b ''id'' = SqlText ''r2''" "col b ''org_id'' = SqlText ''o2''"
    using example_tenants(1) by auto
  then show ?thesis using db' by auto
qed

text \<open>Two tenants, a project of the first, and in it a pipeline that carries the id of the second; and a grant to nobody, nowhere.\<close>

definition cross_script :: "SqlStmt list" where
  "cross_script = [new_org ''o1'' ''acme'', new_org ''o2'' ''other'', new_role ''r1'' SqlNull ''admin'' 1,
     Insert False ''projects'' [(''id'', SqlText ''p1''), (''org_id'', SqlText ''o1''), (''slug'', SqlText ''web''), (''name'', SqlText ''web''), (''created_at'', SqlInt 0)],
     Insert False ''pipelines'' [(''id'', SqlText ''q1''), (''org_id'', SqlText ''o2''), (''project_id'', SqlText ''p1''), (''slug'', SqlText ''ci''), (''name'', SqlText ''ci''), (''created_at'', SqlInt 0)],
     Insert False ''role_assignments'' [(''id'', SqlText ''a1''), (''org_id'', SqlText ''o1''), (''principal_kind'', SqlText ''user''), (''principal_id'', SqlText ''nobody''),
       (''role_id'', SqlText ''r1''), (''scope_kind'', SqlText ''project''), (''scope_id'', SqlText ''nowhere''), (''created_at'', SqlInt 0)]]"

definition cross_db :: SqlDb where
  "cross_db = foldl (sql_step jet_schema) migrated_db cross_script"

lemma example_cross:
  "map (\<lambda>r. col r ''id'') (cross_db ''organizations'') = [SqlText ''o1'', SqlText ''o2'']"
  "map (\<lambda>r. (col r ''id'', col r ''org_id'')) (cross_db ''projects'') = [(SqlText ''p1'', SqlText ''o1'')]"
  "map (\<lambda>r. (col r ''id'', col r ''org_id'', col r ''project_id'')) (cross_db ''pipelines'') = [(SqlText ''q1'', SqlText ''o2'', SqlText ''p1'')]"
  "map (\<lambda>r. (col r ''principal_id'', col r ''scope_id'')) (cross_db ''role_assignments'') = [(SqlText ''nobody'', SqlText ''nowhere'')]"
  "cross_db ''users'' = []"
  unfolding cross_db_def migrated_db_eq by code_simp+

text \<open>The schema does not keep tenants apart by itself: it accepts a pipeline of one organization in a project of another, and
  deleting the second organization deletes that pipeline, although its own organization stays. It also accepts a
  grant to a user and at a project that do not exist.\<close>

lemma cross_tenant_rows_are_accepted:
  "map (\<lambda>r. (col r ''id'', col r ''org_id'', col r ''project_id'')) (cross_db ''pipelines'') = [(SqlText ''q1'', SqlText ''o2'', SqlText ''p1'')] \<and>
   map (\<lambda>r. (col r ''id'', col r ''org_id'')) (cross_db ''projects'') = [(SqlText ''p1'', SqlText ''o1'')] \<and>
   map (\<lambda>r. (col r ''principal_id'', col r ''scope_id'')) (cross_db ''role_assignments'') = [(SqlText ''nobody'', SqlText ''nowhere'')] \<and>
   cross_db ''users'' = [] \<and>
   (\<exists>db'. exec_sql jet_schema (delete_org ''o1'') cross_db = Inr db' \<and> db' ''pipelines'' = [] \<and>
      map (\<lambda>r. col r ''id'') (db' ''organizations'') = [SqlText ''o2''])"
proof -
  let ?D = "org_condemned ''o1'' cross_db"
  have m: "projects_table \<in> set jet_schema" "pipelines_table \<in> set jet_schema" by (simp_all add: jet_schema_def)
  have n: "tb_name projects_table = ''projects''" "tb_name pipelines_table = ''pipelines''"
    "in_org \<in> set (tb_fks projects_table)" "references ''project_id'' ''projects'' ''id'' Cascade \<in> set (tb_fks pipelines_table)"
    by (simp_all add: projects_table_def pipelines_table_def)
  obtain a b where orgs: "cross_db ''organizations'' = [a, b]" "col a ''id'' = SqlText ''o1''" "col b ''id'' = SqlText ''o2''"
    using example_cross(1) by auto
  obtain p where p: "cross_db ''projects'' = [p]" "col p ''id'' = SqlText ''p1''" "col p ''org_id'' = SqlText ''o1''"
    using example_cross(2) by auto
  obtain q where q: "cross_db ''pipelines'' = [q]" "col q ''project_id'' = SqlText ''p1''" using example_cross(3) by auto
  have orgD: "?D ''organizations'' r \<longleftrightarrow> col r ''id'' = SqlText ''o1''" for r
    using condemned_iff [OF wf_jet_schema schema_members(5), unfolded root_tables] by simp
  have "?D ''projects'' p"
    using tenant_condemned [OF db_ok_script [of cross_script] m(1), of p "''o1''"] p n by (simp add: cross_db_def org_scoped_def)
  then have "loses_parent cross_db ?D (references ''project_id'' ''projects'' ''id'' Cascade) q"
    using p q by (simp add: loses_parent_def references_def points_to_def)
  moreover have "fk_action (references ''project_id'' ''projects'' ''id'' Cascade) = Cascade" by (simp add: references_def)
  ultimately have "?D ''pipelines'' q"
    using condemned_iff [OF wf_jet_schema m(2)] n(2,4) by metis
  then have "delete_rows jet_schema ?D cross_db ''pipelines'' = []"
    using delete_org_rows [OF m(2), of "''o1''" cross_db] q n by simp
  moreover have "delete_rows jet_schema ?D cross_db ''organizations'' = [b]"
    using delete_org_rows [OF schema_members(5), of "''o1''" cross_db] orgs orgD by (simp add: root_tables)
  ultimately have "exec_sql jet_schema (delete_org ''o1'') cross_db = Inr (delete_rows jet_schema ?D cross_db) \<and>
    delete_rows jet_schema ?D cross_db ''pipelines'' = [] \<and>
    map (\<lambda>r. col r ''id'') (delete_rows jet_schema ?D cross_db ''organizations'') = [SqlText ''o2'']"
    using delete_org_run orgs(3) by simp
  then have "\<exists>db'. exec_sql jet_schema (delete_org ''o1'') cross_db = Inr db' \<and> db' ''pipelines'' = [] \<and>
      map (\<lambda>r. col r ''id'') (db' ''organizations'') = [SqlText ''o2'']"
    by (intro exI [of _ "delete_rows jet_schema ?D cross_db"])
  then show ?thesis by (intro conjI example_cross(2-5))
qed

end
