(* ===== verification/Jet_Seeding.thy ===== *)
theory Jet_Seeding
  imports Jet_Schema
begin

text \<open>
  The SQL statements of \<open>crates/jet-store/src/bootstrap.rs\<close> on the schema of the migrations. \<open>tables_of\<close> reads the tables
  that \<open>Jet_Db\<close> and \<open>Jet_Authz\<close> are about off a database of \<open>Jet_Schema\<close>; under it each statement does what \<open>Jet_Db\<close> says it does,
  and a database after the migrations meets what the seeding of the roles relies on.
\<close>

section \<open>Reading the tables\<close>

definition sql_text :: "SqlValue \<Rightarrow> string" where
  "sql_text v = (case v of SqlText s \<Rightarrow> s | _ \<Rightarrow> '''')"

definition sql_text_opt :: "SqlValue \<Rightarrow> string option" where
  "sql_text_opt v = (case v of SqlText s \<Rightarrow> Some s | _ \<Rightarrow> None)"

definition sql_int :: "SqlValue \<Rightarrow> int" where
  "sql_int v = (case v of SqlInt i \<Rightarrow> i | _ \<Rightarrow> 0)"

definition sql_int_opt :: "SqlValue \<Rightarrow> int option" where
  "sql_int_opt v = (case v of SqlInt i \<Rightarrow> Some i | _ \<Rightarrow> None)"

abbreviation text_of :: "SqlRow \<Rightarrow> string \<Rightarrow> string" where
  "text_of r c \<equiv> sql_text (col r c)"

definition role_of_row :: "SqlRow \<Rightarrow> RoleRow" where
  "role_of_row r = \<lparr>ro_id = text_of r ''id'', ro_org = sql_text_opt (col r ''org_id''), ro_key = text_of r ''key'', ro_name = text_of r ''name'',
     ro_description = text_of r ''description'', ro_is_system = (col r ''is_system'' = SqlInt 1), ro_created_at = sql_int (col r ''created_at'')\<rparr>"

definition assignment_of_row :: "SqlRow \<Rightarrow> Assignment" where
  "assignment_of_row r = \<lparr>ra_org_id = text_of r ''org_id'', ra_principal_kind = text_of r ''principal_kind'', ra_principal_id = text_of r ''principal_id'',
     ra_role_id = text_of r ''role_id'', ra_scope_kind = text_of r ''scope_kind'', ra_scope_id = text_of r ''scope_id''\<rparr>"

definition grant_of_row :: "SqlRow \<Rightarrow> string \<times> string" where
  "grant_of_row r = (text_of r ''role_id'', text_of r ''permission_key'')"

definition tables_of :: "SqlDb \<Rightarrow> Tables" where
  "tables_of db = \<lparr>
     t_permissions = map (\<lambda>r. text_of r ''key'') (db ''permissions''),
     t_roles = map role_of_row (db ''roles''),
     t_role_permissions = map grant_of_row (db ''role_permissions''),
     t_users = map (\<lambda>r. (text_of r ''id'', text_of r ''status'')) (db ''users''),
     t_memberships = map (\<lambda>r. (text_of r ''org_id'', text_of r ''user_id'', text_of r ''status'')) (db ''memberships''),
     t_service_accounts = map (\<lambda>r. (text_of r ''id'', text_of r ''org_id'', sql_int_opt (col r ''disabled_at''))) (db ''service_accounts''),
     t_teams = map (\<lambda>r. (text_of r ''id'', text_of r ''org_id'')) (db ''teams''),
     t_team_members = map (\<lambda>r. (text_of r ''team_id'', text_of r ''user_id'')) (db ''team_members''),
     t_role_assignments = map assignment_of_row (db ''role_assignments'')\<rparr>"

section \<open>The statements of the seeding\<close>

definition role_values :: "string \<Rightarrow> int \<Rightarrow> SystemRole \<Rightarrow> (string \<times> SqlValue) list" where
  "role_values ident now r = [(''id'', SqlText ident), (''org_id'', SqlNull), (''key'', SqlText (role_key r)),
     (''name'', SqlText (role_display_name r)), (''description'', SqlText (role_description r)), (''is_system'', SqlInt 1),
     (''created_at'', SqlInt now)]"

definition sql_role_ids :: "string \<Rightarrow> SqlDb \<Rightarrow> string list" where
  "sql_role_ids key db = map (\<lambda>r. text_of r ''id'')
     (filter (holds (EAnd (EIsNull ''org_id'') (EEq ''key'' (SqlText key)))) (db ''roles''))"

primrec sql_grants :: "string \<Rightarrow> Permission list \<Rightarrow> SqlDb \<Rightarrow> SqlError + SqlDb" where
  "sql_grants rid [] db = Inr db"
| "sql_grants rid (p # ps) db =
     rbind (exec_sql jet_schema (Insert False ''role_permissions'' [(''role_id'', SqlText rid), (''permission_key'', SqlText (perm_as_str p))]) db)
       (sql_grants rid ps)"

definition sql_seed_role :: "(SystemRole \<Rightarrow> string) \<Rightarrow> int \<Rightarrow> SystemRole \<Rightarrow> SqlDb \<Rightarrow> SqlError + SqlDb" where
  "sql_seed_role gen now r db =
     rbind (exec_sql jet_schema (Insert True ''roles'' (role_values (gen r) now r)) db) (\<lambda>db1.
     case sql_role_ids (role_key r) db1 of
       [] \<Rightarrow> Inl RowNotFound
     | rid # _ \<Rightarrow>
         rbind (exec_sql jet_schema (Delete_from ''role_permissions'' (EEq ''role_id'' (SqlText rid))) db1)
           (sql_grants rid (role_permissions r)))"

primrec sql_seed_roles :: "(SystemRole \<Rightarrow> string) \<Rightarrow> int \<Rightarrow> SystemRole list \<Rightarrow> SqlDb \<Rightarrow> SqlError + SqlDb" where
  "sql_seed_roles gen now [] db = Inr db"
| "sql_seed_roles gen now (r # rs) db = rbind (sql_seed_role gen now r db) (sql_seed_roles gen now rs)"

section \<open>Rows of a consistent database\<close>

lemma sql_text_simps [simp]:
  "sql_text (SqlText s) = s" "sql_text_opt (SqlText s) = Some s" "sql_text_opt SqlNull = None" "sql_int (SqlInt i) = i"
  by (simp_all add: sql_text_def sql_text_opt_def sql_int_def)

lemma has_type_text: "has_type TyText v \<longleftrightarrow> v = SqlNull \<or> (\<exists>s. v = SqlText s)"
  by (cases v) auto

lemma text_column:
  assumes "row_ok tb r" "req TyText c \<in> set (tb_columns tb)"
  shows "col r c = SqlText x \<longleftrightarrow> text_of r c = x"
proof -
  have "has_type TyText (col r c)" "col r c \<noteq> SqlNull"
    using assms by (auto simp: row_ok_def typed_row_def filled_row_def list_all_iff req_def)
  then show ?thesis by (auto simp: has_type_text)
qed

lemma roles_columns:
  assumes "row_ok roles_table r"
  shows "col r ''id'' = SqlText x \<longleftrightarrow> text_of r ''id'' = x" "col r ''key'' = SqlText x \<longleftrightarrow> text_of r ''key'' = x"
    "sql_text_opt (col r ''org_id'') = None \<longleftrightarrow> col r ''org_id'' = SqlNull"
proof -
  show "col r ''id'' = SqlText x \<longleftrightarrow> text_of r ''id'' = x" "col r ''key'' = SqlText x \<longleftrightarrow> text_of r ''key'' = x"
    using text_column [OF assms] by (simp_all add: roles_table_def id_col_def)
  have "has_type TyText (col r ''org_id'')"
    using assms by (simp add: row_ok_def typed_row_def roles_table_def opt_col_def)
  then show "sql_text_opt (col r ''org_id'') = None \<longleftrightarrow> col r ''org_id'' = SqlNull" by (auto simp: has_type_text)
qed

lemma grants_columns:
  assumes "row_ok role_permissions_table r"
  shows "col r ''role_id'' = SqlText x \<longleftrightarrow> text_of r ''role_id'' = x"
    "col r ''permission_key'' = SqlText x \<longleftrightarrow> text_of r ''permission_key'' = x"
  using text_column [OF assms] by (simp_all add: role_permissions_table_def)

lemma permissions_columns: "row_ok permissions_table r \<Longrightarrow> col r ''key'' = SqlText x \<longleftrightarrow> text_of r ''key'' = x"
  using text_column [of permissions_table r] by (simp add: permissions_table_def)

lemma names [simp]:
  "tb_name roles_table = ''roles''" "tb_name role_permissions_table = ''role_permissions''"
  by (simp_all add: roles_table_def role_permissions_table_def)

lemma find_tables:
  "find_table jet_schema ''roles'' = Some roles_table" "find_table jet_schema ''role_permissions'' = Some role_permissions_table"
  by code_simp+

lemma rows_ok:
  assumes "db_ok jet_schema db"
  shows "r \<in> set (db ''roles'') \<Longrightarrow> row_ok roles_table r" "r \<in> set (db ''role_permissions'') \<Longrightarrow> row_ok role_permissions_table r"
    "r \<in> set (db ''permissions'') \<Longrightarrow> row_ok permissions_table r"
  using db_ok_explicit [OF assms schema_members(6)] db_ok_explicit [OF assms schema_members(7)]
    db_ok_explicit [OF assms schema_members(2)] by (simp_all add: root_tables)

section \<open>Each statement refines its model\<close>

definition role_row :: "string \<Rightarrow> int \<Rightarrow> SystemRole \<Rightarrow> SqlRow" where
  "role_row ident now r = role_values ident now r"

lemma complete_role: "complete_row roles_table (role_values g now r) = role_row g now r"
  by (simp add: complete_row_def roles_table_def role_values_def role_row_def id_col_def req_def opt_col_def dflt_def)

lemma col_role_row:
  "col (role_row g now r) ''id'' = SqlText g" "col (role_row g now r) ''org_id'' = SqlNull"
  "col (role_row g now r) ''key'' = SqlText (role_key r)" "col (role_row g now r) ''name'' = SqlText (role_display_name r)"
  "col (role_row g now r) ''description'' = SqlText (role_description r)" "col (role_row g now r) ''is_system'' = SqlInt 1"
  "col (role_row g now r) ''created_at'' = SqlInt now"
  by (simp_all add: role_row_def role_values_def col_def)

lemma role_row_good: "typed_row roles_table (role_row g now r)" "filled_row roles_table (role_row g now r)"
    "checked_row roles_table (role_row g now r)"
  by (simp_all add: typed_row_def filled_row_def checked_row_def roles_table_def id_col_def req_def opt_col_def dflt_def
      col_role_row unless_null_def)

lemma role_row_clash:
  "clash roles_table (role_row g now r) s \<longleftrightarrow> col s ''id'' = SqlText g \<or> col s ''org_id'' = SqlNull \<and> col s ''key'' = SqlText (role_key r)"
  by (auto simp: clash_def collide_def roles_table_def uniq_def uniq_where_def ix_key_def holds_def col_role_row)

lemma role_of_new_row: "role_of_row (role_row g now r) = system_row g now r"
  by (simp add: role_of_row_def system_row_def col_role_row)

lemma insert_role_refines:
  assumes "db_ok jet_schema db"
  shows "\<exists>db'. exec_sql jet_schema (Insert True ''roles'' (role_values g now r)) db = Inr db' \<and>
    insert_role_or_ignore (system_row g now r) (tables_of db) = Inr ((), tables_of db')"
proof -
  let ?new = "role_row g now r"
  have clash: "list_ex (clash roles_table ?new) (db ''roles'') \<longleftrightarrow>
      list_ex (\<lambda>x. ro_id x = g \<or> ro_org x = None \<and> ro_key x = role_key r) (t_roles (tables_of db))"
    using roles_columns [OF rows_ok(1) [OF assms]]
    by (auto simp: list_ex_iff tables_of_def role_row_clash role_of_row_def)
  have cols: "set (map fst (role_values g now r)) \<subseteq> set (map cl_name (tb_columns roles_table))"
    by (simp add: role_values_def roles_table_def id_col_def req_def opt_col_def dflt_def)
  have fk: "list_all (\<lambda>fk. fk_found db' fk ?new) (tb_fks roles_table)" for db'
    by (simp add: roles_table_def in_org_def references_def fk_found_def col_role_row)
  have run: "exec_sql jet_schema (Insert True ''roles'' (role_values g now r)) db =
      Inr (if list_ex (clash roles_table ?new) (db ''roles'') then db else db(''roles'' := db ''roles'' @ [?new]))"
    using cols fk by (simp add: find_tables sql_insert_def Let_def complete_role role_row_good)
  show ?thesis
    unfolding run insert_role_or_ignore_def using clash
    by (auto simp: system_row_def tables_of_def role_of_new_row [unfolded system_row_def] split: if_splits)
qed

lemma clear_grants_refines:
  assumes "db_ok jet_schema db"
  shows "\<exists>db'. exec_sql jet_schema (Delete_from ''role_permissions'' (EEq ''role_id'' (SqlText rid))) db = Inr db' \<and>
    delete_role_permissions rid (tables_of db) = Inr ((), tables_of db') \<and> db' ''roles'' = db ''roles''"
proof -
  have leaf: "leaf_table jet_schema role_permissions_table" by code_simp
  have none: "tb_on_delete role_permissions_table = None" by (simp add: role_permissions_table_def)
  let ?db = "db(''role_permissions'' := filter (\<lambda>r. \<not> holds (EEq ''role_id'' (SqlText rid)) r) (db ''role_permissions''))"
  have run: "exec_sql jet_schema (Delete_from ''role_permissions'' (EEq ''role_id'' (SqlText rid))) db = Inr ?db"
    using delete_leaf [OF wf_jet_schema schema_members(7) none leaf, of "EEq ''role_id'' (SqlText rid)" db]
    by (simp add: find_tables)
  have "filter (\<lambda>e. fst e \<noteq> rid) (map grant_of_row (db ''role_permissions'')) =
      map grant_of_row (filter (\<lambda>r. \<not> holds (EEq ''role_id'' (SqlText rid)) r) (db ''role_permissions''))"
    using grants_columns(1) [OF rows_ok(2) [OF assms]] by (simp add: filter_map grant_of_row_def comp_def cong: filter_cong)
  then have "delete_role_permissions rid (tables_of db) = Inr ((), tables_of ?db)"
    by (simp add: delete_role_permissions_def tables_of_def)
  then show ?thesis using run by simp
qed

text \<open>A grant that the model accepts, to a role that exists, is accepted on the schema.\<close>

lemma grant_refines:
  assumes "db_ok jet_schema db" "rid \<in> row_ids (tables_of db)" "insert_role_permission rid pk (tables_of db) = Inr ((), t)"
  shows "\<exists>db'. exec_sql jet_schema (Insert False ''role_permissions'' [(''role_id'', SqlText rid), (''permission_key'', SqlText pk)]) db = Inr db' \<and>
    t = tables_of db' \<and> db' ''roles'' = db ''roles''"
proof -
  let ?new = "[(''role_id'', SqlText rid), (''permission_key'', SqlText pk)]"
  let ?db = "db(''role_permissions'' := db ''role_permissions'' @ [?new])"
  have new: "complete_row role_permissions_table ?new = ?new" "col ?new ''role_id'' = SqlText rid" "col ?new ''permission_key'' = SqlText pk"
    by (simp_all add: complete_row_def role_permissions_table_def req_def col_def)
  have a: "pk \<in> set (t_permissions (tables_of db))" "(rid, pk) \<notin> set (t_role_permissions (tables_of db))"
    "t = (tables_of db)\<lparr>t_role_permissions := t_role_permissions (tables_of db) @ [(rid, pk)]\<rparr>"
    using assms(3) by (auto simp: insert_role_permission_def split: if_splits)
  obtain q where q: "q \<in> set (db ''roles'')" "col q ''id'' = SqlText rid"
    using assms(2) roles_columns(1) [OF rows_ok(1) [OF assms(1)]] by (auto simp: row_ids_def tables_of_def role_of_row_def)
  obtain p where p: "p \<in> set (db ''permissions'')" "col p ''key'' = SqlText pk"
    using a(1) permissions_columns [OF rows_ok(3) [OF assms(1)]] by (auto simp: tables_of_def)
  have fk: "list_all (\<lambda>fk. fk_found ?db fk ?new) (tb_fks role_permissions_table)"
    using p q by (auto simp: role_permissions_table_def references_def fk_found_def new list_ex_iff)
  have clash: "clash role_permissions_table ?new s \<longleftrightarrow> col s ''role_id'' = SqlText rid \<and> col s ''permission_key'' = SqlText pk" for s
    by (auto simp: clash_def collide_def role_permissions_table_def uniq_def ix_key_def holds_def new)
  have "\<not> list_ex (clash role_permissions_table ?new) (db ''role_permissions'')"
    using a(2) grants_columns [OF rows_ok(2) [OF assms(1)]] by (auto simp: clash list_ex_iff tables_of_def grant_of_row_def image_iff)
  moreover have "typed_row role_permissions_table ?new" "filled_row role_permissions_table ?new" "checked_row role_permissions_table ?new"
    "set (map fst ?new) \<subseteq> set (map cl_name (tb_columns role_permissions_table))"
    by (simp_all add: typed_row_def filled_row_def checked_row_def role_permissions_table_def req_def new)
  ultimately have "exec_sql jet_schema (Insert False ''role_permissions'' ?new) db = Inr ?db"
    using fk by (simp add: find_tables sql_insert_def Let_def new(1))
  moreover have "t = tables_of ?db" unfolding a(3) by (simp add: tables_of_def grant_of_row_def new(2,3))
  ultimately show ?thesis by simp
qed

section \<open>The seeding refines its model\<close>

abbreviation model_db :: "SqlDb \<Rightarrow> Db" where
  "model_db db \<equiv> \<lparr>db_tables = tables_of db, db_faults = []\<rparr>"

lemma stmt_model: "f (tables_of db) = Inr (x, t) \<Longrightarrow> stmt f (model_db db) = (Inr x, \<lparr>db_tables = t, db_faults = []\<rparr>)"
  by (simp add: stmt_run)

lemma stmt_modelE:
  assumes "stmt f (model_db db) = (Inr x, m)"
  obtains t where "f (tables_of db) = Inr (x, t)" "m = \<lparr>db_tables = t, db_faults = []\<rparr>"
  using assms by (cases "f (tables_of db)") (auto simp: stmt_run split: prod.splits)

lemma row_ids_tables: "row_ids (tables_of db) = (\<lambda>r. text_of r ''id'') ` set (db ''roles'')"
  by (auto simp: row_ids_def tables_of_def role_of_row_def image_image)

lemma grants_refine:
  assumes "insert_role_permissions rid ps (model_db db) = (Inr (), m)" "db_ok jet_schema db" "rid \<in> row_ids (tables_of db)"
  shows "\<exists>db'. sql_grants rid ps db = Inr db' \<and> db_ok jet_schema db' \<and> m = model_db db'"
  using assms
proof (induction ps arbitrary: db)
  case Nil
  then show ?case by (simp add: aret_def)
next
  case (Cons p ps)
  let ?s = "Insert False ''role_permissions'' [(''role_id'', SqlText rid), (''permission_key'', SqlText (perm_as_str p))]"
  obtain m1 where m1: "stmt (insert_role_permission rid (perm_as_str p)) (model_db db) = (Inr (), m1)"
    "insert_role_permissions rid ps m1 = (Inr (), m)"
    using Cons.prems(1) by (auto simp: abind_def split: prod.splits sum.splits)
  obtain t where t: "insert_role_permission rid (perm_as_str p) (tables_of db) = Inr ((), t)" "m1 = \<lparr>db_tables = t, db_faults = []\<rparr>"
    by (rule stmt_modelE [OF m1(1)])
  obtain db1 where db1: "exec_sql jet_schema ?s db = Inr db1" "t = tables_of db1" "db1 ''roles'' = db ''roles''"
    using grant_refines [OF Cons.prems(2,3) t(1)] by blast
  have "db_ok jet_schema db1" using exec_sql_ok [OF wf_jet_schema Cons.prems(2) db1(1)] .
  then show ?case
    using Cons.IH [of db1] m1(2) t(2) db1 Cons.prems(3) by (simp add: rbind_def row_ids_tables)
qed

lemma sql_role_ids_model:
  assumes "db_ok jet_schema db"
  shows "sql_role_ids key db = system_roles_with_key key (tables_of db)"
proof -
  have "holds (EAnd (EIsNull ''org_id'') (EEq ''key'' (SqlText key))) r \<longleftrightarrow> ro_org (role_of_row r) = None \<and> ro_key (role_of_row r) = key"
    if "r \<in> set (db ''roles'')" for r
  proof -
    note c = roles_columns [OF rows_ok(1) [OF assms that]]
    have "holds (EAnd (EIsNull ''org_id'') (EEq ''key'' (SqlText key))) r \<longleftrightarrow> col r ''org_id'' = SqlNull \<and> col r ''key'' = SqlText key"
      by (cases "col r ''org_id'' = SqlNull") (auto simp: holds_def unless_null_def)
    then show ?thesis using c by (simp add: role_of_row_def)
  qed
  then show ?thesis
    by (auto simp: sql_role_ids_def system_roles_with_key_def tables_of_def filter_map comp_def role_of_row_def cong: filter_cong)
qed

lemma seed_role_refines:
  assumes "seed_role gen now r (model_db db) = (Inr (), m)" "db_ok jet_schema db"
  shows "\<exists>db'. sql_seed_role gen now r db = Inr db' \<and> db_ok jet_schema db' \<and> m = model_db db'"
proof -
  obtain db1 where db1: "exec_sql jet_schema (Insert True ''roles'' (role_values (gen r) now r)) db = Inr db1"
    "insert_role_or_ignore (system_row (gen r) now r) (tables_of db) = Inr ((), tables_of db1)"
    using insert_role_refines [OF assms(2)] by blast
  have ok1: "db_ok jet_schema db1" using exec_sql_ok [OF wf_jet_schema assms(2) db1(1)] .
  have "sql_role_ids (role_key r) db1 \<noteq> []"
  proof
    assume "sql_role_ids (role_key r) db1 = []"
    then have "stmt (select_role_id (role_key r)) (model_db db1) = (Inl (Sqlx ''no rows returned''), model_db db1)"
      using sql_role_ids_model [OF ok1, of "role_key r"] by (simp add: stmt_run select_role_id_def)
    then show False
      using assms(1) stmt_model [where f = "insert_role_or_ignore (system_row (gen r) now r)", OF db1(2)]
      by (simp add: seed_role_def abind_def)
  qed
  then obtain rid rest where ids: "sql_role_ids (role_key r) db1 = rid # rest" by (cases "sql_role_ids (role_key r) db1") auto
  then have sel: "stmt (select_role_id (role_key r)) (model_db db1) = (Inr rid, model_db db1)"
    using sql_role_ids_model [OF ok1, of "role_key r"] by (simp add: stmt_run select_role_id_def)
  have rid: "rid \<in> row_ids (tables_of db1)"
  proof -
    have "rid \<in> set (sql_role_ids (role_key r) db1)" using ids by simp
    then show ?thesis by (auto simp: sql_role_ids_def row_ids_tables)
  qed
  obtain db2 where db2: "exec_sql jet_schema (Delete_from ''role_permissions'' (EEq ''role_id'' (SqlText rid))) db1 = Inr db2"
    "delete_role_permissions rid (tables_of db1) = Inr ((), tables_of db2)" "db2 ''roles'' = db1 ''roles''"
    using clear_grants_refines [OF ok1] by blast
  have ok2: "db_ok jet_schema db2" using exec_sql_ok [OF wf_jet_schema ok1 db2(1)] .
  have "insert_role_permissions rid (role_permissions r) (model_db db2) = (Inr (), m)"
    using assms(1) stmt_model [where f = "insert_role_or_ignore (system_row (gen r) now r)", OF db1(2)] sel
      stmt_model [where f = "delete_role_permissions rid", OF db2(2)]
    by (simp add: seed_role_def abind_def)
  from grants_refine [OF this ok2] rid db2(3) show ?thesis
    using db1(1) ids db2(1) by (simp add: sql_seed_role_def rbind_def row_ids_tables)
qed

lemma seed_roles_refine:
  assumes "seed_roles gen now rs (model_db db) = (Inr (), m)" "db_ok jet_schema db"
  shows "\<exists>db'. sql_seed_roles gen now rs db = Inr db' \<and> db_ok jet_schema db' \<and> m = model_db db'"
  using assms
proof (induction rs arbitrary: db)
  case Nil
  then show ?case by (simp add: aret_def)
next
  case (Cons r rs)
  obtain m1 where m1: "seed_role gen now r (model_db db) = (Inr (), m1)" "seed_roles gen now rs m1 = (Inr (), m)"
    using Cons.prems(1) by (auto simp: abind_def split: prod.splits sum.splits)
  obtain db1 where "sql_seed_role gen now r db = Inr db1" "db_ok jet_schema db1" "m1 = model_db db1"
    using seed_role_refines [OF m1(1) Cons.prems(2)] by blast
  then show ?case using Cons.IH [of db1] m1(2) by (simp add: rbind_def)
qed

section \<open>What the schema gives the seeding\<close>

lemma unique_pairs:
  assumes "db_ok jet_schema db" "tb \<in> set jet_schema" "i < length (db (tb_name tb))" "j < length (db (tb_name tb))"
    "clash tb (db (tb_name tb) ! i) (db (tb_name tb) ! j)"
  shows "i = j"
proof (rule ccontr)
  assume "i \<noteq> j"
  have s: "sorted_wrt (\<lambda>r s. \<not> clash tb r s) (db (tb_name tb))" using assms(1,2) by (simp add: db_ok_def table_ok_def)
  from \<open>i \<noteq> j\<close> consider "i < j" | "j < i" by linarith
  then show False using sorted_wrt_pair [OF s] assms(3-5) clash_sym by cases metis+
qed

lemma roles_clash:
  assumes "row_ok roles_table r" "row_ok roles_table s"
  shows "text_of r ''id'' = text_of s ''id'' \<Longrightarrow> clash roles_table r s"
    "col r ''org_id'' = SqlNull \<Longrightarrow> col s ''org_id'' = SqlNull \<Longrightarrow> text_of r ''key'' = text_of s ''key'' \<Longrightarrow> clash roles_table r s"
proof -
  obtain i j where id: "col r ''id'' = SqlText i" "col s ''id'' = SqlText j" using assms roles_columns(1) by metis
  obtain k l where key: "col r ''key'' = SqlText k" "col s ''key'' = SqlText l" using assms roles_columns(2) by metis
  show "text_of r ''id'' = text_of s ''id'' \<Longrightarrow> clash roles_table r s"
    "col r ''org_id'' = SqlNull \<Longrightarrow> col s ''org_id'' = SqlNull \<Longrightarrow> text_of r ''key'' = text_of s ''key'' \<Longrightarrow> clash roles_table r s"
    using id key by (auto simp: clash_def collide_def roles_table_def uniq_def uniq_where_def ix_key_def holds_def)
qed

lemma grants_clash:
  assumes "row_ok role_permissions_table r" "row_ok role_permissions_table s" "grant_of_row r = grant_of_row s"
  shows "clash role_permissions_table r s"
proof -
  obtain i j where id: "col r ''role_id'' = SqlText i" "col s ''role_id'' = SqlText j" using assms(1,2) grants_columns(1) by metis
  obtain k l where key: "col r ''permission_key'' = SqlText k" "col s ''permission_key'' = SqlText l"
    using assms(1,2) grants_columns(2) by metis
  show ?thesis
    using assms(3) id key by (auto simp: grant_of_row_def clash_def collide_def role_permissions_table_def uniq_def ix_key_def holds_def)
qed

lemma roles_wf_tables_of:
  assumes "db_ok jet_schema db"
  shows "roles_wf (tables_of db)"
proof -
  have row: "i < length (db ''roles'') \<Longrightarrow> row_ok roles_table (db ''roles'' ! i)" for i
    using rows_ok(1) [OF assms] by simp
  note same = unique_pairs [OF assms schema_members(6), simplified]
  have "distinct (map ro_id (t_roles (tables_of db)))"
    unfolding distinct_conv_nth using same roles_clash(1) row by (auto simp: tables_of_def role_of_row_def)
  moreover have "x = y" if "x \<in> set (t_roles (tables_of db))" "y \<in> set (t_roles (tables_of db))" "ro_org x = None" "ro_org y = None" "ro_key x = ro_key y" for x y
  proof -
    note xy = that
    obtain i j where ij: "i < length (db ''roles'')" "j < length (db ''roles'')" "x = role_of_row (db ''roles'' ! i)" "y = role_of_row (db ''roles'' ! j)"
      using xy(1,2) by (auto simp: tables_of_def in_set_conv_nth)
    have "clash roles_table (db ''roles'' ! i) (db ''roles'' ! j)"
      using roles_clash(2) [OF row row] roles_columns(3) [OF row] ij xy(3-5) by (simp add: role_of_row_def)
    then show ?thesis using same ij by blast
  qed
  moreover have "distinct (t_role_permissions (tables_of db))"
    unfolding distinct_conv_nth
    using unique_pairs [OF assms schema_members(7), simplified] grants_clash rows_ok(2) [OF assms] by (auto simp: tables_of_def)
  ultimately show ?thesis by (simp add: roles_wf_def)
qed

section \<open>Properties\<close>

lemma catalog_matches_code: "set (map fst permission_catalog) = range perm_as_str"
proof -
  have "set (map fst permission_catalog) = set (map perm_as_str Permission_ALL)" by code_simp
  moreover have "set Permission_ALL = UNIV" using Permission_ALL_complete by auto
  ultimately show ?thesis by simp
qed

lemma migrated_permissions: "set (t_permissions (tables_of migrated_db)) = range perm_as_str"
proof -
  have "t_permissions (tables_of migrated_db) = map fst permission_catalog"
    by (simp add: tables_of_def migrated_db_eq permission_row_def col_def comp_def)
  then show ?thesis using catalog_matches_code by simp
qed

text \<open>C28: On a consistent database that has the permissions of the code, with fresh distinct ids, the SQL statements that seed the
  built-in roles all succeed and leave a consistent database; read off as the tables of the model, it is the result of
  \<open>bootstrap\<close> there, with every built-in role holding exactly the permissions the code gives it.\<close>

theorem seeding_refines_bootstrap:
  assumes "db_ok jet_schema db" "range perm_as_str \<subseteq> set (t_permissions (tables_of db))"
    "inj gen" "\<forall>r. gen r \<notin> row_ids (tables_of db)"
  shows "\<exists>db'. sql_seed_roles gen now SystemRole_ALL db = Inr db' \<and> db_ok jet_schema db' \<and>
    bootstrap gen now (model_db db) = (Inr (), model_db db') \<and>
    (\<forall>r. \<exists>i. sys_id (tables_of db') r = Some i \<and> perms_of (tables_of db') i = perm_as_str ` set (role_permissions r))"
proof -
  let ?m = "model_db db"
  have cat: "catalog_complete (db_tables ?m)" using assms(2) by (auto simp: catalog_complete_def)
  have wf: "roles_wf (db_tables ?m)" using roles_wf_tables_of [OF assms(1)] by simp
  have fresh: "\<forall>r. gen r \<notin> row_ids (db_tables ?m)" using assms(4) by simp
  obtain t where t: "seed_roles gen now SystemRole_ALL ?m = (Inr (), ?m\<lparr>db_tables := t\<rparr>)"
    "bootstrap gen now ?m = (Inr (), ?m\<lparr>db_tables := t\<rparr>)" "reconciled gen UNIV (db_tables ?m) t"
    using bootstrap_run [OF _ wf cat assms(3) fresh, of now] by auto
  obtain db' where db': "sql_seed_roles gen now SystemRole_ALL db = Inr db'" "db_ok jet_schema db'" "?m\<lparr>db_tables := t\<rparr> = model_db db'"
    using seed_roles_refine [OF t(1) assms(1)] by blast
  moreover have "\<exists>i. sys_id (tables_of db') r = Some i \<and> perms_of (tables_of db') i = perm_as_str ` set (role_permissions r)" for r
    using t(3) db'(3) by (auto simp: reconciled_def split: option.split)
  ultimately show ?thesis using t(2) by auto
qed

theorem seeding_refines_bootstrap_witness:
  "\<exists>db'. sql_seed_roles role_key 7 SystemRole_ALL migrated_db = Inr db' \<and> db_ok jet_schema db' \<and>
     (\<exists>i. sys_id (tables_of db') Viewer = Some i \<and> perms_of (tables_of db') i = perm_as_str ` set (role_permissions Viewer))"
proof -
  have "inj role_key" by (auto intro: injI simp: role_key_inject)
  moreover have "\<forall>r. role_key r \<notin> row_ids (tables_of migrated_db)"
    by (simp add: row_ids_tables migrated_db_eq)
  ultimately show ?thesis
    using seeding_refines_bootstrap [OF db_ok_migrated, of role_key 7] migrated_permissions by blast
qed

end
