(* ===== verification/Spec2Isabelle.thy ===== *)
theory Spec2Isabelle
  imports Jet_Retention Jet_Race Jet_Authz Jet_Cli Jet_Seeding
begin

text \<open>
  \<^bold>\<open>The jetrun development.\<close> A model of the Rust workspace jetrun, a build system with a
  content-addressed cache, a control plane with a public HTTP listener and an internal binary protocol, and one
  binary that is server and client. Every theory names the source file it models; the definitions keep the
  names of the source, with a suffix or a prefix where HOL has the name already.

  \<^bold>\<open>Parts and theories.\<close>

  \<^item> \<open>Jet_Prelude\<close>: results (\<open>'e + 'a\<close>, \<open>?\<close> as \<open>rbind\<close>), strings and UTF-8, little-endian integers, sorted
    association lists (\<open>BTreeMap\<close>), state-passing actions (\<open>act\<close>, \<open>abind\<close>), and the locale \<open>machine\<close>.
  \<^item> \<open>Jet_Digest\<close>, \<open>Jet_Ids\<close>, \<open>Jet_Permission\<close>: \<open>crates/jet-core/src/{digest,id,authz}.rs\<close>. Digests and domain-separated
    hashing, typed identifiers, permissions, scopes and roles.
  \<^item> \<open>Jet_Tree\<close>: \<open>crates/jet-cas/src/tree.rs\<close>. Directory manifests, their canonical encoding and its decoder.
  \<^item> \<open>Jet_Fs\<close>: what the sources use of \<open>std::fs\<close>. A world of names, inodes, a clock and a script of faults; every system
    call takes a tick and may fail. Weakest preconditions carry the proofs over it.
  \<^item> \<open>Jet_Link\<close>: \<open>crates/jet-cas/src/link.rs\<close>. Reflink, hard link or copy, and the probe of the file system.
  \<^item> \<open>Jet_Store\<close>, \<open>Jet_Workspace\<close>, \<open>Jet_Gc\<close>: \<open>crates/jet-cas/src/store.rs\<close>. Insertion through staging files, ingestion and
    materialization of directories, mark-and-sweep. \<open>Jet_Retention\<close>: an insertion and a collection after it, what the minimum age
    protects and what it does not.
  \<^item> \<open>Jet_Race\<close>: the insertion of the same file call by call, several writers under a schedule.
  \<^item> \<open>Jet_Frame\<close>, \<open>Jet_Msg\<close>, \<open>Jet_Tuning\<close>, \<open>Jet_Conn\<close>: \<open>crates/jet-proto/src/{frame,msg,tuning,conn}.rs\<close>. Frame
    headers, payloads and their validation, socket options, framed connections, both halves of the handshake.
  \<^item> \<open>Jet_Db\<close>, \<open>Jet_Pools\<close>: \<open>crates/jet-store/src/{db,bootstrap}.rs\<close>. Tables and statements that may fail, transactions, the
    seeding of roles, the opening of the pools.
  \<^item> \<open>Jet_Sql\<close>, \<open>Jet_Schema\<close>: \<open>crates/jet-store/migrations/*.sql\<close>. The twenty tables with their constraints and triggers
    and the permission catalog as data (\<open>jet_schema\<close>, \<open>migrated_db\<close>), over a small SQL engine with three-valued conditions,
    unique partial indexes, foreign keys and cascades. \<open>Jet_Seeding\<close>: the SQL of \<open>bootstrap.rs\<close> run on that schema; \<open>tables_of\<close>
    reads off it the tables of \<open>Jet_Db\<close>.
  \<^item> \<open>Jet_Authz\<close>: \<open>crates/jet-authz/src/lib.rs\<close>. The authorizer with its decision cache.
  \<^item> \<open>Jet_Dedupe\<close>, \<open>Jet_Verify\<close>, \<open>Jet_Webhook\<close>: \<open>crates/jet-server/src/webhook/\<close>. Replay guard, signatures, event parsing.
  \<^item> \<open>Jet_Server\<close>: \<open>crates/jet-server/src/{state,http}.rs\<close>. The shared state and the HTTP handlers.
  \<^item> \<open>Jet_Jrp\<close>: \<open>crates/jet-server/src/{jrp,lib}.rs\<close>. Sessions of the internal listener, what stops the listeners.
  \<^item> \<open>Jet_Cli\<close>: \<open>jetrun/src/main.rs\<close>. The commands \<open>serve\<close>, \<open>ping\<close> and \<open>submit\<close>.

  \<^bold>\<open>How they interact.\<close> The store turns directories into manifests and blobs named by digests and back
  (\<open>Jet_Store\<close> calls \<open>Jet_Tree\<close>, \<open>Jet_Digest\<close>, \<open>Jet_Link\<close>). A webhook request passes the router, the signature check,
  the replay guard, the parser and the map of repositories (\<open>Jet_Server\<close> calls \<open>Jet_Verify\<close>, \<open>Jet_Dedupe\<close>,
  \<open>Jet_Webhook\<close>). A session of the internal listener is a handshake and a loop over frames (\<open>Jet_Jrp\<close> calls
  \<open>Jet_Conn\<close>, which calls \<open>Jet_Frame\<close>, \<open>Jet_Msg\<close>, \<open>Jet_Tuning\<close>). \<open>Jet_Cli\<close> opens and seeds the database, prepares the server's
  state, and drives the client's end of the protocol, so its theorems speak of both ends of a connection.

  \<^bold>\<open>State and effects.\<close> A struct is a record, an enum a datatype, a \<open>Result\<close> a sum, a hash map an association
  list, \<open>u8\<close> to \<open>u64\<close> words. A method that may fail and changes state is a function from states to a
  result and a state: worlds in the store, databases in the metadata store, connections and sessions in the
  protocol. Faults are part of the state: a script of failing system calls, statements or writes; theorems that do
  not exclude them hold for every script.

  \<^bold>\<open>What is shown.\<close>

  \<^item> Store: ingesting and materializing is the identity on directories; materializing a hostile digest stays inside its
    target; digests depend on contents only; objects appear whole or not at all under any faults; a placed file
    never shares a writable inode; a collection keeps what is reachable through manifests that are not also named as files and,
    without faults, removes exactly what it did not mark, which is what is not reachable if no manifest is named as a file (a manifest
    that is may lose what it refers to); the minimum age protects objects an insertion wrote, and not those it found in place.
  \<^item> Concurrency in the store: writers of different objects are safe and wait-free under every schedule; in any store two writers
    of the same bytes can publish an empty object.
  \<^item> Codecs: manifests, headers, digests and identifiers round-trip, and the decoders accept nothing else or
    nothing unsafe; frames are bounded and never desynchronize.
  \<^item> Protocol: the handshake settles on the best common version; a session answers in order, ends, and lets nobody
    past the authentication gate; \<open>ping\<close> completes against a server and \<open>submit\<close> is refused by it.
  \<^item> Authorization: the authorizer answers by a declarative reading of the grants and fails closed, and its cache obeys
    invalidation under any interleaving, up to the project of a pipeline: the key of the cache leaves it out, so these theorems
    speak of the scope asked about or of a scope with the same key (\<open>twin\<close>) that a request named before, and an answer given
    at one project is shown to be repeated at every other. With a fresh cache the answer is that of the scope itself. Seeding is
    atomic and gives each role its permissions.
  \<^item> Database: the readers are connected only after the migrations; whatever INSERT (OR IGNORE, OR REPLACE), UPDATE and DELETE
    statements run after the migrations, the database keeps their rules, which are written out on the rows; deleting an organization
    succeeds and, where tenants do not refer to each other, removes exactly its rows; the audit log is append-only under every
    statement but INSERT OR REPLACE into it; the SQL of the seeding refines the seeding of \<open>Jet_Db\<close>.
  \<^item> Control plane: exactly which requests start runs, that replays (within the bounds of the guard) and forgeries do not, and that
    every run is for a provider and a repository the command line configured; when the interrupt stops the server, which waits for
    the HTTP connections open by then.

  \<^bold>\<open>Locales.\<close> Each interface is a locale interpreted on the model: \<open>machine\<close> (an invariant kept by every
  step, among others the constraints of the database), \<open>cursor_codec\<close> (fields read from a cursor, in \<open>Jet_Tree\<close>), \<open>content_store\<close> (the blobs of the store), \<open>framing\<close> (frames
  on a byte stream, in \<open>Jet_Conn\<close>), \<open>interference_free\<close> (rely and guarantee of
  scheduled threads, in \<open>Jet_Race\<close>), and \<open>authorizer\<close> (the contract of \<open>Jet_Authz\<close>).

  \<^bold>\<open>Crates.\<close> Code outside the repository is a parameter with a law: \<open>blake3\<close> (\<open>blake3_ok\<close>: fixed length and
  incremental hashing; collision freedom only as a hypothesis on the strings at hand), \<open>hex\<close>, \<open>ulid\<close>, \<open>hmac\<close>, \<open>rkyv\<close>
  (\<open>rkyv_ok\<close>: decoding inverts encoding and is typed), \<open>serde_json\<close>, and \<open>sqlx\<close> (\<open>schema_law\<close>: a successful migration
  establishes the schema). The witnesses instantiate each with a concrete function.

  \<^bold>\<open>Termination and bounds.\<close> Ingestion recurses along paths and uses the length of the longest path of the world as
  a bound, which no chain of directories exceeds; materialization carries the depth limit of the source (\<open>MAX_DEPTH\<close>).
  Hashing a file of \<open>n\<close> bytes by chunks has \<open>Suc n\<close> as fuel, which is enough since every read but the last is not empty. The loop of a session terminates on
  the bytes still to come, the mark loop on the manifests not yet expanded. A cascading DELETE is one pass over the tables in the
  order of their creation, enough since a table refers only to tables created before it (\<open>wf_schema\<close>). The generation counter of the decision
  cache is assumed below \<open>2 ^ 64\<close> invalidations.

  \<^bold>\<open>Not modelled.\<close> \<open>MaterializeStats::cheap_ratio\<close> (a floating-point statistic); the parsing of the
  command line, logging and the allocator; the matching of paths by \<open>axum\<close> beyond the three routes; \<open>tokio\<close> tasks and the connections of \<open>axum\<close>
  beyond the events the listeners see; the interleaving of the other operations of the store (the
  concurrent runs of \<open>Jet_Race\<close> are of insertions of bytes; ingestion, materialization and collection are sequential runs over a
  world that may have any staging files in it) and the check of permission bits when a file is opened; indexes that are not unique, the conversions of
  values that STRICT tables make before they check a type, and upserts; the accessors of the pools and
  \<open>is_unique_violation\<close>, which has no caller; benchmarks and tests.
\<close>

end
